(* ===== verification/Prelude.thy ===== *)
theory Prelude
  imports Main "HOL-Library.Word"
begin

text \<open>
  Shared ground of the development: the integer types of \<^verbatim>\<open>kernel/types.h\<close>, the outcome of a
  kernel function (it returns, panics, sleeps on a channel, or never returns), sequencing of
  kernel functions over an explicit state with its weakest-precondition rules, and generic
  facts on lists and words.
\<close>

unbundle bit_operations_syntax

section \<open>Integer types\<close>

type_synonym u8 = "8 word"
type_synonym u16 = "16 word"
type_synonym u32 = "32 word"
type_synonym u64 = "64 word"
type_synonym bytes = "u8 list"

section \<open>Outcomes of kernel functions\<close>

text \<open>
  A sleep channel is an address in the source; each channel the kernel sleeps on has a name here.
\<close>

datatype chan =
    ChanProc nat          \<comment> \<open>a \<open>struct proc\<close>, used by \<open>kwait\<close>\<close>
  | ChanLog               \<comment> \<open>\<open>&log\<close>\<close>
  | ChanTicks             \<comment> \<open>\<open>&ticks\<close>\<close>
  | ChanBufLock nat       \<comment> \<open>the sleep lock of a buffer\<close>
  | ChanInodeLock nat     \<comment> \<open>the sleep lock of an in-memory inode\<close>
  | ChanBuf nat           \<comment> \<open>a buffer the disk owns\<close>
  | ChanDiskFree          \<comment> \<open>\<open>&disk.free[0]\<close>\<close>
  | ChanConsR             \<comment> \<open>\<open>&cons.r\<close>\<close>
  | ChanTxR               \<comment> \<open>\<open>&tx_r\<close>\<close>
  | ChanPipeRead nat      \<comment> \<open>\<open>&pi->nread\<close>\<close>
  | ChanPipeWrite nat     \<comment> \<open>\<open>&pi->nwrite\<close>\<close>

text \<open>
  What a call does: \<open>Done a s\<close> returns \<open>a\<close> in state \<open>s\<close>; \<open>Panic m\<close> is \<open>panic(m)\<close>, which stops
  the machine; \<open>Sleep c s\<close> is a call that went to sleep on \<open>c\<close> leaving the state \<open>s\<close>;
  \<open>Hang\<close> is a loop that does not end.
\<close>

datatype ('a, 's) outcome = Done 'a 's | Panic string | Sleep chan 's | Hang

type_synonym ('s, 'a) kfun = "'s \<Rightarrow> ('a, 's) outcome"

abbreviation ret :: "'a \<Rightarrow> ('s, 'a) kfun" where
  "ret \<equiv> Done"

definition bind :: "('s, 'a) kfun \<Rightarrow> ('a \<Rightarrow> ('s, 'b) kfun) \<Rightarrow> ('s, 'b) kfun" where
  "bind f g = (\<lambda>s. case f s of
       Done a s' \<Rightarrow> g a s' | Panic m \<Rightarrow> Panic m | Sleep c s' \<Rightarrow> Sleep c s' | Hang \<Rightarrow> Hang)"

definition gets :: "('s \<Rightarrow> 'a) \<Rightarrow> ('s, 'a) kfun" where
  "gets f = (\<lambda>s. Done (f s) s)"

definition modify :: "('s \<Rightarrow> 's) \<Rightarrow> ('s, unit) kfun" where
  "modify f = (\<lambda>s. Done () (f s))"

definition panic :: "string \<Rightarrow> ('s, 'a) kfun" where
  "panic m = (\<lambda>s. Panic m)"

abbreviation sleep_on :: "chan \<Rightarrow> ('s, 'a) kfun" where
  "sleep_on \<equiv> Sleep"

definition hang :: "('s, 'a) kfun" where
  "hang = (\<lambda>s. Hang)"

fun foreach :: "'i list \<Rightarrow> ('i \<Rightarrow> ('s, unit) kfun) \<Rightarrow> ('s, unit) kfun" where
  "foreach [] f = ret ()"
| "foreach (x # xs) f = bind (f x) (\<lambda>_. foreach xs f)"

lemma bind_cong [fundef_cong]:
  assumes "s = s'" and "f s' = f' s'" and "\<And>a t. f' s' = Done a t \<Longrightarrow> g a t = g' a t"
  shows "bind f g s = bind f' g' s'"
  using assms by (auto simp: bind_def split: outcome.splits)

lemmas kfun_defs = bind_def gets_def modify_def panic_def hang_def

lemma gets_apply [simp]: "gets f s = Done (f s) s"
  by (simp add: gets_def)

lemma modify_apply [simp]: "modify f s = Done () (f s)"
  by (simp add: modify_def)

lemma panic_apply [simp]: "panic m s = Panic m"
  by (simp add: panic_def)

lemma hang_apply [simp]: "hang s = Hang"
  by (simp add: hang_def)

lemma bind_Done [simp]: "f s = Done a s' \<Longrightarrow> bind f g s = g a s'"
  by (simp add: bind_def)

lemma bind_gets [simp]: "bind (gets f) g s = g (f s) s"
  by (simp add: bind_def)

lemma bind_modify [simp]: "bind (modify f) g s = g () (f s)"
  by (simp add: bind_def)

lemma bind_panic [simp]: "bind (panic m) g s = Panic m"
  by (simp add: bind_def)

lemma bind_Panic: "f s = Panic m \<Longrightarrow> bind f g s = Panic m"
  by (simp add: bind_def)

lemma bind_Sleep: "f s = Sleep c s' \<Longrightarrow> bind f g s = Sleep c s'"
  by (simp add: bind_def)

lemma bind_eq_Done:
  "bind f g s = Done b t \<longleftrightarrow> (\<exists>a s'. f s = Done a s' \<and> g a s' = Done b t)"
  by (auto simp: bind_def split: outcome.splits)

lemma bind_assoc: "bind (bind f g) h = bind f (\<lambda>a. bind (g a) h)"
  by (rule ext) (simp add: bind_def split: outcome.splits)

lemma bind_ret: "bind (ret a) g = g a"
  by (rule ext) (simp add: bind_def)

lemma foreach_append: "foreach (xs @ ys) f = bind (foreach xs f) (\<lambda>_. foreach ys f)"
  by (induction xs) (simp_all add: bind_assoc)

lemma bind_ret_right [simp]: "bind f ret = f"
proof
  show "bind f ret s = f s" for s
    by (cases "f s") (simp_all add: bind_def)
qed

lemma foreach_snoc: "foreach (xs @ [x]) f = bind (foreach xs f) (\<lambda>_. f x)"
  by (simp add: foreach_append)

section \<open>Weakest preconditions\<close>

text \<open>
  \<open>wp f Q s\<close> holds when \<open>f\<close>, called in \<open>s\<close>, returns and its result and final state satisfy \<open>Q\<close>.
  It is total correctness: a call that panics, sleeps or hangs satisfies no \<open>wp\<close>.
\<close>

named_theorems wp_rules \<open>weakest preconditions of kernel functions\<close>

definition wp :: "('s, 'a) kfun \<Rightarrow> ('a \<Rightarrow> 's \<Rightarrow> bool) \<Rightarrow> 's \<Rightarrow> bool" where
  "wp f Q s = (case f s of Done a s' \<Rightarrow> Q a s' | _ \<Rightarrow> False)"

lemma wp_iff: "wp f Q s \<longleftrightarrow> (\<exists>a s'. f s = Done a s' \<and> Q a s')"
  by (auto simp: wp_def split: outcome.splits)

lemma wpI: "f s = Done a s' \<Longrightarrow> Q a s' \<Longrightarrow> wp f Q s"
  by (simp add: wp_def)

lemma wp_Done: "f s = Done a s' \<Longrightarrow> wp f Q s = Q a s'"
  by (simp add: wp_def)

lemma wp_bind [wp_rules]: "wp (bind f g) Q s = wp f (\<lambda>a. wp (g a) Q) s"
  by (simp add: wp_def bind_def split: outcome.splits)

lemma wp_bind_fun: "wp (bind f g) Q = wp f (\<lambda>a. wp (g a) Q)"
  by (simp add: fun_eq_iff wp_bind)

lemma wp_ret [wp_rules]: "wp (ret a) Q s = Q a s"
  by (simp add: wp_def)

lemma wp_gets [wp_rules]: "wp (gets f) Q s = Q (f s) s"
  by (simp add: wp_def)

lemma wp_modify [wp_rules]: "wp (modify f) Q s = Q () (f s)"
  by (simp add: wp_def)

lemma wp_modify_fun: "wp (modify f) Q = (\<lambda>s. Q () (f s))"
  by (simp add: fun_eq_iff wp_modify)

lemma wp_panic [wp_rules]: "wp (panic m) Q s = False"
  by (simp add: wp_def)

lemma wp_sleep [wp_rules]: "wp (sleep_on c) Q s = False"
  by (simp add: wp_def)

lemma wp_if [wp_rules]: "wp (if b then f else g) Q s = (if b then wp f Q s else wp g Q s)"
  by simp

lemma wp_mono: "wp f P s \<Longrightarrow> (\<And>a t. P a t \<Longrightarrow> Q a t) \<Longrightarrow> wp f Q s"
  by (auto simp: wp_iff)

lemma wp_conj: "wp f P s \<Longrightarrow> wp f Q s \<Longrightarrow> wp f (\<lambda>a t. P a t \<and> Q a t) s"
  by (auto simp: wp_iff)

lemma wp_foreach:
  assumes "I 0 s"
    and "\<And>k t. k < length xs \<Longrightarrow> I k t \<Longrightarrow> wp (f (xs ! k)) (\<lambda>_. I (Suc k)) t"
  shows "wp (foreach xs f) (\<lambda>_. I (length xs)) s"
  using assms
proof (induction xs arbitrary: I s)
  case Nil
  then show ?case by (simp add: wp_rules)
next
  case (Cons x xs)
  have "wp (f x) (\<lambda>_. I (Suc 0)) s"
    using Cons.prems(2)[of 0] Cons.prems(1) by simp
  moreover have "wp (foreach xs f) (\<lambda>_. I (Suc (length xs))) t" if "I (Suc 0) t" for t
    using Cons.IH[of "\<lambda>k. I (Suc k)" t] Cons.prems(2) that by force
  ultimately show ?case
    by (auto simp: wp_rules intro: wp_mono)
qed

section \<open>Partial correctness\<close>

text \<open>\<open>wlp f Q s\<close>: if \<open>f\<close> returns, its result and final state satisfy \<open>Q\<close>. It serves invariants, where
  a call that panics or sleeps has nothing to keep.\<close>

named_theorems wlp_rules \<open>weakest liberal preconditions\<close>

definition wlp :: "('s, 'a) kfun \<Rightarrow> ('a \<Rightarrow> 's \<Rightarrow> bool) \<Rightarrow> 's \<Rightarrow> bool" where
  "wlp f Q s \<longleftrightarrow> (\<forall>a t. f s = Done a t \<longrightarrow> Q a t)"

lemma wlpI: "(\<And>a t. f s = Done a t \<Longrightarrow> Q a t) \<Longrightarrow> wlp f Q s"
  by (simp add: wlp_def)

lemma wlpD: "wlp f Q s \<Longrightarrow> f s = Done a t \<Longrightarrow> Q a t"
  by (simp add: wlp_def)

lemma wlp_bind [wlp_rules]: "wlp (bind f g) Q s = wlp f (\<lambda>a. wlp (g a) Q) s"
  unfolding wlp_def bind_eq_Done by blast

lemma wlp_ret [wlp_rules]: "wlp (ret a) Q = Q a"
  by (rule ext) (simp add: wlp_def)

lemma wlp_gets [wlp_rules]: "wlp (gets f) Q s = Q (f s) s"
  and wlp_modify [wlp_rules]: "wlp (modify h) R s = R () (h s)"
  and wlp_panic [wlp_rules]: "wlp (panic m) Q s = True"
  and wlp_hang [wlp_rules]: "wlp hang Q s = True"
  and wlp_sleep_on [wlp_rules]: "wlp (sleep_on c) Q s = True"
  by (simp_all add: wlp_def)

lemma wlp_if [wlp_rules]: "wlp (if b then f else g) Q s = (if b then wlp f Q s else wlp g Q s)"
  by simp

lemma wlp_mono: "wlp f P s \<Longrightarrow> (\<And>a t. P a t \<Longrightarrow> Q a t) \<Longrightarrow> wlp f Q s"
  by (auto simp: wlp_def)

section \<open>What a function leaves alone\<close>

text \<open>\<open>keeps v f\<close>: whenever \<open>f\<close> returns, the part \<open>v\<close> of the state is what it was.\<close>

named_theorems keeps_intros \<open>functions that leave a part of the state alone\<close>

definition keeps :: "('s \<Rightarrow> 'v) \<Rightarrow> ('s, 'a) kfun \<Rightarrow> bool" where
  "keeps v f \<longleftrightarrow> (\<forall>s a t. f s = Done a t \<longrightarrow> v t = v s)"

lemma keepsD: "keeps v f \<Longrightarrow> f s = Done a t \<Longrightarrow> v t = v s"
  by (simp add: keeps_def)

lemma keepsI: "(\<And>s a t. f s = Done a t \<Longrightarrow> v t = v s) \<Longrightarrow> keeps v f"
  by (simp add: keeps_def)

lemma wlp_keeps: "keeps v f \<Longrightarrow> (\<And>a t. v t = v s \<Longrightarrow> Q a t) \<Longrightarrow> wlp f Q s"
  by (simp add: wlp_def keeps_def)

lemma keepsI_wlp: "(\<And>s. wlp f (\<lambda>a t. v t = v s) s) \<Longrightarrow> keeps v f"
  by (simp add: wlp_def keeps_def)

lemma keeps_bind [keeps_intros]: "keeps v f \<Longrightarrow> (\<And>a. keeps v (g a)) \<Longrightarrow> keeps v (bind f g)"
  unfolding keeps_def bind_eq_Done by metis

lemma keeps_ret [keeps_intros]: "keeps v (ret a)"
  and keeps_gets [keeps_intros]: "keeps v (gets g)"
  and keeps_panic [keeps_intros]: "keeps v (panic m)"
  and keeps_hang [keeps_intros]: "keeps v hang"
  and keeps_sleep_on [keeps_intros]: "keeps v (sleep_on c)"
  by (simp_all add: keeps_def)

lemma keeps_modify [keeps_intros]: "(\<And>s. v (g s) = v s) \<Longrightarrow> keeps v (modify g)"
  by (simp add: keeps_def)

lemma keeps_if [keeps_intros]: "keeps v f \<Longrightarrow> keeps v g \<Longrightarrow> keeps v (if b then f else g)"
  by simp

lemma keeps_option [keeps_intros]:
  "keeps v f \<Longrightarrow> (\<And>x. keeps v (g x)) \<Longrightarrow> keeps v (case opt of None \<Rightarrow> f | Some x \<Rightarrow> g x)"
  by (cases opt) simp_all

lemma keeps_prod [keeps_intros]: "(\<And>x y. keeps v (f x y)) \<Longrightarrow> keeps v (case p of (x, y) \<Rightarrow> f x y)"
  by (cases p) simp

lemma keeps_sum [keeps_intros]:
  "(\<And>x. keeps v (f x)) \<Longrightarrow> (\<And>y. keeps v (g y)) \<Longrightarrow> keeps v (case z of Inl x \<Rightarrow> f x | Inr y \<Rightarrow> g y)"
  by (cases z) simp_all

lemma keeps_foreach [keeps_intros]: "(\<And>x. keeps v (f x)) \<Longrightarrow> keeps v (foreach xs f)"
  by (induction xs) (auto intro: keeps_intros)

lemma keeps_comp: "keeps v f \<Longrightarrow> keeps (\<lambda>s. h (v s)) f"
  by (simp add: keeps_def)

section \<open>Lists\<close>

lemma nth_update_if: "i < length xs \<Longrightarrow> xs[i := x] ! j = (if i = j then x else xs ! j)"
  by simp

lemma list_update_same [simp]: "xs[i := xs ! i] = xs"
  by simp

lemma distinct_concat_mapI:
  assumes "distinct xs" and "\<And>x. x \<in> set xs \<Longrightarrow> distinct (f x)"
    and "\<And>x y. x \<in> set xs \<Longrightarrow> y \<in> set xs \<Longrightarrow> x \<noteq> y \<Longrightarrow> set (f x) \<inter> set (f y) = {}"
  shows "distinct (concat (map f xs))"
  using assms
proof (induction xs)
  case Nil
  then show ?case by simp
next
  case (Cons x xs)
  have "set (f x) \<inter> (\<Union>y\<in>set xs. set (f y)) = {}"
    using Cons.prems(1) Cons.prems(3)[of x] by fastforce
  with Cons show ?case by auto
qed

lemma distinct_concat_mapD:
  assumes "distinct (concat (map f xs))" and "distinct xs"
    and "x \<in> set xs" and "y \<in> set xs" and "a \<in> set (f x)" and "a \<in> set (f y)"
  shows "x = y"
  using assms by (induction xs) auto

section \<open>Words\<close>

lemma unat_of_nat_small: "n < 2 ^ LENGTH('a::len) \<Longrightarrow> unat (of_nat n :: 'a word) = n"
  by (simp add: unat_of_nat take_bit_nat_eq_self)

lemma unat_less_2p: "unat (w :: 'a::len word) < 2 ^ LENGTH('a)"
  by (rule unsigned_less)

lemma unat_u8: "unat (b :: u8) < 256"
  using unat_less_2p[of b] by simp

lemma unat_u16: "unat (b :: u16) < 2 ^ 16"
  using unat_less_2p[of b] by simp

lemma unat_u32: "unat (b :: u32) < 2 ^ 32"
  using unat_less_2p[of b] by simp

lemma unat_u64: "unat (b :: u64) < 2 ^ 64"
  using unat_less_2p[of b] by simp

lemma word_of_unat: "of_nat (unat w) = (w :: 'a::len word)"
  by simp

lemma unat_minus_1_u64: "unat (- 1 :: u64) = 2 ^ 64 - 1"
  by (simp add: unsigned_minus_1_eq_mask mask_eq_exp_minus_1)

lemma word_neq_0_iff_unat: "(w :: 'a::len word) \<noteq> 0 \<longleftrightarrow> 0 < unat w"
  by (simp add: unat_gt_0)

end
