(* ===== verification/Machine.thy ===== *)
theory Machine
  imports Prelude
begin

text \<open>
  The machine the kernel runs on, as far as the C code sees it: the constants of
  \<^verbatim>\<open>kernel/param.h\<close>, \<^verbatim>\<open>kernel/memlayout.h\<close> and the page-table macros of \<^verbatim>\<open>kernel/riscv.h\<close>, and
  byte-addressed physical memory with little-endian loads and stores.
\<close>

section \<open>param.h\<close>

definition NPROC :: nat where [simp]: "NPROC = 64"
definition NCPU :: nat where [simp]: "NCPU = 8"
definition NOFILE :: nat where [simp]: "NOFILE = 16"
definition NFILE :: nat where [simp]: "NFILE = 100"
definition NINODE :: nat where [simp]: "NINODE = 50"
definition NDEV :: nat where [simp]: "NDEV = 10"
definition ROOTDEV :: u32 where [simp]: "ROOTDEV = 1"
definition MAXARG :: nat where [simp]: "MAXARG = 32"
definition MAXOPBLOCKS :: nat where [simp]: "MAXOPBLOCKS = 10"
definition LOGBLOCKS :: nat where [simp]: "LOGBLOCKS = MAXOPBLOCKS * 3"
definition NBUF :: nat where [simp]: "NBUF = MAXOPBLOCKS * 3"
definition FSSIZE :: nat where [simp]: "FSSIZE = 2000"
definition MAXPATH :: nat where [simp]: "MAXPATH = 128"
definition USERSTACK :: u64 where [simp]: "USERSTACK = 1"

section \<open>riscv.h: pages and page-table entries\<close>

definition PGSIZE :: u64 where [simp]: "PGSIZE = 4096"
definition PTE_V :: u64 where "PTE_V = 1"
definition PTE_R :: u64 where "PTE_R = 2"
definition PTE_W :: u64 where "PTE_W = 4"
definition PTE_X :: u64 where "PTE_X = 8"
definition PTE_U :: u64 where "PTE_U = 16"

definition PGROUNDUP :: "u64 \<Rightarrow> u64" where
  "PGROUNDUP sz = (sz + PGSIZE - 1) AND NOT (PGSIZE - 1)"

definition PGROUNDDOWN :: "u64 \<Rightarrow> u64" where
  "PGROUNDDOWN a = a AND NOT (PGSIZE - 1)"

definition PA2PTE :: "u64 \<Rightarrow> u64" where
  "PA2PTE pa = push_bit 10 (drop_bit 12 pa)"

definition PTE2PA :: "u64 \<Rightarrow> u64" where
  "PTE2PA pte = push_bit 12 (drop_bit 10 pte)"

definition PTE_FLAGS :: "u64 \<Rightarrow> u64" where
  "PTE_FLAGS pte = pte AND 0x3FF"

definition PXSHIFT :: "nat \<Rightarrow> nat" where
  "PXSHIFT level = 12 + 9 * level"

definition PX :: "nat \<Rightarrow> u64 \<Rightarrow> u64" where
  "PX level va = drop_bit (PXSHIFT level) va AND 0x1FF"

definition MAXVA :: u64 where [simp]: "MAXVA = 0x4000000000"

section \<open>memlayout.h\<close>

definition UART0 :: u64 where [simp]: "UART0 = 0x10000000"
definition UART0_IRQ :: nat where [simp]: "UART0_IRQ = 10"
definition VIRTIO0 :: u64 where [simp]: "VIRTIO0 = 0x10001000"
definition VIRTIO0_IRQ :: nat where [simp]: "VIRTIO0_IRQ = 1"
definition PLIC :: u64 where [simp]: "PLIC = 0x0c000000"
definition KERNBASE :: u64 where [simp]: "KERNBASE = 0x80000000"
definition PHYSTOP :: u64 where [simp]: "PHYSTOP = 0x88000000"
definition TRAMPOLINE :: u64 where [simp]: "TRAMPOLINE = MAXVA - PGSIZE"
definition TRAPFRAME :: u64 where [simp]: "TRAPFRAME = TRAMPOLINE - PGSIZE"

definition KSTACK :: "nat \<Rightarrow> u64" where
  "KSTACK p = TRAMPOLINE - of_nat ((p + 1) * 2) * PGSIZE"

section \<open>Little-endian bytes\<close>

fun le_bytes :: "nat \<Rightarrow> nat \<Rightarrow> bytes" where
  "le_bytes 0 v = []"
| "le_bytes (Suc n) v = of_nat (v mod 256) # le_bytes n (v div 256)"

fun le_val :: "bytes \<Rightarrow> nat" where
  "le_val [] = 0"
| "le_val (b # bs) = unat b + 256 * le_val bs"

lemma length_le_bytes [simp]: "length (le_bytes n v) = n"
  by (induction n arbitrary: v) auto

lemma le_val_bytes [simp]: "le_val (le_bytes n v) = v mod 256 ^ n"
proof (induction n arbitrary: v)
  case 0
  then show ?case by simp
next
  case (Suc n)
  have "unat (of_nat (v mod 256) :: u8) = v mod 256"
    by (rule unat_of_nat_small) simp
  with Suc show ?case
    by (simp add: mod_mult2_eq add.commute)
qed

lemma le_val_less: "le_val bs < 256 ^ length bs"
proof (induction bs)
  case Nil
  then show ?case by simp
next
  case (Cons b bs)
  have "unat b < 256"
    by (rule unat_u8)
  with Cons show ?case by simp
qed

lemma le_bytes_val [simp]: "le_bytes (length bs) (le_val bs) = bs"
proof (induction bs)
  case Nil
  then show ?case by simp
next
  case (Cons b bs)
  have "unat b < 256"
    by (rule unat_u8)
  with Cons show ?case by simp
qed

lemma le_bytes_0: "le_bytes n 0 = replicate n 0"
  by (induction n) auto

section \<open>Physical memory\<close>

type_synonym mem = "u64 \<Rightarrow> u8"

definition ld_bytes :: "mem \<Rightarrow> u64 \<Rightarrow> nat \<Rightarrow> bytes" where
  "ld_bytes m a n = map (\<lambda>i. m (a + of_nat i)) [0..<n]"

definition st_bytes :: "mem \<Rightarrow> u64 \<Rightarrow> bytes \<Rightarrow> mem" where
  "st_bytes m a bs = (\<lambda>x. if unat (x - a) < length bs then bs ! unat (x - a) else m x)"

definition ld64 :: "mem \<Rightarrow> u64 \<Rightarrow> u64" where
  "ld64 m a = of_nat (le_val (ld_bytes m a 8))"

definition st64 :: "mem \<Rightarrow> u64 \<Rightarrow> u64 \<Rightarrow> mem" where
  "st64 m a v = st_bytes m a (le_bytes 8 (unat v))"

text \<open>\<open>in_range a n x\<close>: address \<open>x\<close> lies in the \<open>n\<close> bytes from \<open>a\<close>.\<close>

definition in_range :: "u64 \<Rightarrow> nat \<Rightarrow> u64 \<Rightarrow> bool" where
  "in_range a n x \<longleftrightarrow> unat (x - a) < n"

lemma length_ld_bytes [simp]: "length (ld_bytes m a n) = n"
  by (simp add: ld_bytes_def)

lemma nth_ld_bytes [simp]: "i < n \<Longrightarrow> ld_bytes m a n ! i = m (a + of_nat i)"
  by (simp add: ld_bytes_def)

lemma ld_bytes_0 [simp]: "ld_bytes m a 0 = []"
  by (simp add: ld_bytes_def)

lemma st_bytes_Nil [simp]: "st_bytes m a [] = m"
  by (simp add: st_bytes_def)

lemma st_bytes_other: "\<not> in_range a (length bs) x \<Longrightarrow> st_bytes m a bs x = m x"
  by (simp add: st_bytes_def in_range_def)

lemma st_bytes_in:
  "i < length bs \<Longrightarrow> length bs \<le> 2 ^ 64 \<Longrightarrow> st_bytes m a bs (a + of_nat i) = bs ! i"
  by (simp add: st_bytes_def unat_of_nat_small)

lemma ld_st_bytes_same [simp]:
  "length bs \<le> 2 ^ 64 \<Longrightarrow> ld_bytes (st_bytes m a bs) a (length bs) = bs"
  by (rule nth_equalityI) (simp_all add: st_bytes_in)

lemma ld_bytes_cong:
  "(\<And>i. i < n \<Longrightarrow> m (a + of_nat i) = m' (a + of_nat i)) \<Longrightarrow> ld_bytes m a n = ld_bytes m' a n"
  by (simp add: ld_bytes_def)

lemma ld_st_bytes_other:
  "(\<And>i. i < n \<Longrightarrow> \<not> in_range a (length bs) (b + of_nat i)) \<Longrightarrow>
   ld_bytes (st_bytes m a bs) b n = ld_bytes m b n"
  by (rule ld_bytes_cong) (simp add: st_bytes_other)

lemma ld64_cong:
  "(\<And>i. i < 8 \<Longrightarrow> m (a + of_nat i) = m' (a + of_nat i)) \<Longrightarrow> ld64 m a = ld64 m' a"
  using ld_bytes_cong[of 8 m a m'] by (simp add: ld64_def)

lemma ld_st64_same [simp]: "ld64 (st64 m a v) a = v"
proof -
  have "ld_bytes (st64 m a v) a 8 = le_bytes 8 (unat v)"
    using ld_st_bytes_same[of "le_bytes 8 (unat v)" m a] by (simp add: st64_def)
  moreover have "unat v < 256 ^ 8"
    using unat_u64[of v] by simp
  ultimately show ?thesis
    by (simp add: ld64_def)
qed

lemma st64_other: "\<not> in_range a 8 x \<Longrightarrow> st64 m a v x = m x"
  by (simp add: st64_def st_bytes_other)

lemma ld64_st_bytes_other:
  "(\<And>i. i < 8 \<Longrightarrow> \<not> in_range a (length bs) (b + of_nat i)) \<Longrightarrow>
   ld64 (st_bytes m a bs) b = ld64 m b"
  by (rule ld64_cong) (simp add: st_bytes_other)

lemma ld64_st64_other:
  "(\<And>i. i < 8 \<Longrightarrow> \<not> in_range a 8 (b + of_nat i)) \<Longrightarrow> ld64 (st64 m a v) b = ld64 m b"
  by (rule ld64_cong) (simp add: st64_other)

subsection \<open>Pages\<close>

definition page_aligned :: "u64 \<Rightarrow> bool" where
  "page_aligned a \<longleftrightarrow> unat a mod 4096 = 0"

lemma page_alignedE:
  assumes "page_aligned p"
  obtains k where "unat p = 4096 * k"
  using assms by (auto simp: page_aligned_def)

abbreviation in_page :: "u64 \<Rightarrow> u64 \<Rightarrow> bool" where
  "in_page pg \<equiv> in_range pg 4096"

lemma unat_sub_if_u64:
  "unat (x - y :: u64) = (if unat y \<le> unat x then unat x - unat y else unat x + 2 ^ 64 - unat y)"
  using unat_sub_if_size[of x y] by (simp add: word_size)

lemma in_range_unat:
  assumes "unat a + n \<le> 2 ^ 64"
  shows "in_range a n x \<longleftrightarrow> unat a \<le> unat x \<and> unat x < unat a + n"
  using assms unat_u64[of a] by (auto simp: in_range_def unat_sub_if_u64)

lemma sub_mult_less_iff:
  "4096 * k \<le> (y::nat) \<Longrightarrow> y - 4096 * k < 4096 \<longleftrightarrow> y div 4096 = k"
  by (rule iffI) linarith+

lemma page_aligned_add_le:
  assumes "page_aligned pg"
  shows "unat pg + 4096 \<le> 2 ^ 64"
proof -
  from assms obtain k where k: "unat pg = 4096 * k"
    by (auto simp: page_aligned_def)
  then have "4096 * k < 4096 * 2 ^ 52"
    using unat_u64[of pg] by simp
  then have "k + 1 \<le> 2 ^ 52" by simp
  then have "4096 * (k + 1) \<le> 4096 * 2 ^ 52"
    by (rule mult_le_mono2)
  with k show ?thesis by simp
qed

lemma page_add_unat:
  assumes "page_aligned pg" and "k < 4096"
  shows "unat (pg + of_nat k) = unat pg + k"
  using assms page_aligned_add_le[OF assms(1)]
  by (simp add: unat_word_ariths unat_of_nat_small)

lemma in_page_iff:
  assumes "page_aligned pg"
  shows "in_page pg x \<longleftrightarrow> unat x div 4096 = unat pg div 4096"
proof -
  from assms obtain k where k: "unat pg = 4096 * k"
    by (auto simp: page_aligned_def)
  show ?thesis
  proof (cases "unat pg \<le> unat x")
    case True
    with k have "4096 * k \<le> unat x" by simp
    then have "unat x - 4096 * k < 4096 \<longleftrightarrow> unat x div 4096 = k"
      by (rule sub_mult_less_iff)
    with True show ?thesis
      using k by (simp add: in_range_def unat_sub_if_u64)
  next
    case False
    then have "\<not> in_page pg x"
      using page_aligned_add_le[OF assms] by (simp add: in_range_def unat_sub_if_u64)
    moreover have "unat x div 4096 < k"
      using False k by (simp add: less_mult_imp_div_less mult.commute)
    ultimately show ?thesis using k by simp
  qed
qed

lemma in_page_unique:
  assumes "page_aligned p" and "page_aligned q" and "in_page p x" and "in_page q x"
  shows "p = q"
proof -
  have "unat p div 4096 = unat q div 4096"
    using assms by (simp add: in_page_iff)
  moreover have "unat p mod 4096 = unat q mod 4096"
    using assms by (simp add: page_aligned_def)
  ultimately have "unat p = unat q"
    by (metis div_mult_mod_eq)
  then show ?thesis by (simp add: word_unat_eq_iff)
qed

lemma in_page_add: "k < 4096 \<Longrightarrow> in_page pg (pg + of_nat k)"
  by (simp add: in_range_def unat_of_nat_small)

subsection \<open>Changes confined to some pages\<close>

definition only_pages :: "u64 set \<Rightarrow> mem \<Rightarrow> mem \<Rightarrow> bool" where
  "only_pages P m m' \<longleftrightarrow> (\<forall>x. (\<forall>p\<in>P. \<not> in_page p x) \<longrightarrow> m' x = m x)"

lemma only_pages_refl [simp]: "only_pages P m m"
  by (simp add: only_pages_def)

lemma only_pages_mono: "only_pages P m m' \<Longrightarrow> P \<subseteq> Q \<Longrightarrow> only_pages Q m m'"
  by (auto simp: only_pages_def)

lemma only_pages_trans:
  "only_pages P m m' \<Longrightarrow> only_pages P m' m'' \<Longrightarrow> only_pages P m m''"
  by (auto simp: only_pages_def)

lemma only_pages_trans_Un:
  "only_pages P m m' \<Longrightarrow> only_pages Q m' m'' \<Longrightarrow> only_pages (P \<union> Q) m m''"
  by (auto simp: only_pages_def)

lemma only_pages_at:
  assumes "only_pages P m m'" and "\<forall>p\<in>P. page_aligned p"
    and "page_aligned q" and "q \<notin> P" and "in_page q x"
  shows "m' x = m x"
  using assms in_page_unique unfolding only_pages_def by metis

lemma only_pages_ld64:
  assumes "only_pages P m m'" and "\<forall>p\<in>P. page_aligned p"
    and "page_aligned q" and "q \<notin> P" and "k + 8 \<le> 4096"
  shows "ld64 m' (q + of_nat k) = ld64 m (q + of_nat k)"
proof (rule ld64_cong)
  fix i :: nat assume "i < 8"
  then have "in_page q (q + of_nat (k + i))"
    using assms(5) by (intro in_page_add) simp
  then have "in_page q (q + of_nat k + of_nat i)"
    by (simp add: add.assoc)
  then show "m' (q + of_nat k + of_nat i) = m (q + of_nat k + of_nat i)"
    by (rule only_pages_at[OF assms(1-4)])
qed

lemma only_pages_ld64_0:
  assumes "only_pages P m m'" and "\<forall>p\<in>P. page_aligned p"
    and "page_aligned q" and "q \<notin> P"
  shows "ld64 m' q = ld64 m q"
  using only_pages_ld64[OF assms, of 0] by simp

lemma only_pages_ld_bytes:
  assumes "only_pages P m m'" and "\<forall>p\<in>P. page_aligned p"
    and "page_aligned q" and "q \<notin> P" and "k + n \<le> 4096"
  shows "ld_bytes m' (q + of_nat k) n = ld_bytes m (q + of_nat k) n"
proof (rule ld_bytes_cong)
  fix i :: nat assume "i < n"
  then have "in_page q (q + of_nat (k + i))"
    using assms(5) by (intro in_page_add) simp
  then have "in_page q (q + of_nat k + of_nat i)"
    by (simp add: add.assoc)
  then show "m' (q + of_nat k + of_nat i) = m (q + of_nat k + of_nat i)"
    by (rule only_pages_at[OF assms(1-4)])
qed

lemma in_range_page:
  assumes "k + n \<le> 4096" and "in_range (q + of_nat k) n x"
  shows "in_page q x"
proof -
  have le: "unat (x - (q + of_nat k)) < n"
    using assms(2) by (simp add: in_range_def)
  have "unat (x - q) = unat ((x - (q + of_nat k)) + of_nat k)"
    by simp
  also have "\<dots> \<le> unat (x - (q + of_nat k)) + unat (of_nat k :: u64)"
    unfolding unat_word_ariths(1) by (rule mod_less_eq_dividend)
  finally have "unat (x - q) \<le> unat (x - (q + of_nat k)) + unat (of_nat k :: u64)" .
  with le assms(1) show ?thesis
    by (simp add: in_range_def unat_of_nat_small)
qed

lemma only_pages_st_bytes:
  "k + length bs \<le> 4096 \<Longrightarrow> only_pages {q} m (st_bytes m (q + of_nat k) bs)"
  unfolding only_pages_def using in_range_page st_bytes_other by blast

lemma only_pages_st64: "k + 8 \<le> 4096 \<Longrightarrow> only_pages {q} m (st64 m (q + of_nat k) v)"
  unfolding only_pages_def using in_range_page st64_other by blast

lemma only_pages_st64_0: "only_pages {q} m (st64 m q v)"
  using only_pages_st64[of 0 q m v] by simp

lemma page_aligned_mod: "p mod PGSIZE = 0 \<longleftrightarrow> page_aligned p"
  by (simp add: page_aligned_def word_unat_eq_iff unat_mod)

subsection \<open>Rounding to pages\<close>

lemma and_not_mask: "(x :: 'a::len word) AND NOT (mask n) = x - take_bit n x"
proof -
  have "x AND NOT (mask n) = push_bit n (drop_bit n x)"
    by (rule bit_eqI) (auto simp: bit_and_iff bit_not_iff bit_push_bit_iff bit_drop_bit_eq bit_mask_iff)
  moreover have "push_bit n (drop_bit n x) + take_bit n x = x"
    by (rule bits_ident)
  ultimately show ?thesis by (metis add_diff_cancel_right')
qed

lemma unat_page_mask: "unat ((x :: u64) AND - 4096) = unat x div 4096 * 4096"
proof -
  have t: "unat (take_bit 12 x) = unat x mod 4096"
    by (simp only: unsigned_take_bit_eq) (simp add: take_bit_eq_mod)
  then have "unat (take_bit 12 x) \<le> unat x"
    by simp
  then have "unat (x - take_bit 12 x) = unat x - unat x mod 4096"
    by (simp add: unat_sub_if_u64 t)
  moreover have "NOT (mask 12) = (- 4096 :: u64)"
    by (simp add: mask_eq_exp_minus_1 not_eq_complement)
  ultimately show ?thesis
    using and_not_mask[of x 12] by (simp add: minus_mod_eq_div_mult)
qed

lemma unat_PGROUNDDOWN: "unat (PGROUNDDOWN a) = unat a div 4096 * 4096"
  unfolding PGROUNDDOWN_def using unat_page_mask[of a] by simp

lemma unat_PGROUNDUP:
  assumes "unat a + 4095 < 2 ^ 64"
  shows "unat (PGROUNDUP a) = (unat a + 4095) div 4096 * 4096"
proof -
  have "a + PGSIZE - 1 = a + of_nat 4095" by simp
  moreover have "unat (a + of_nat 4095) = unat a + 4095"
    using assms by (simp add: unat_word_ariths)
  ultimately show ?thesis
    unfolding PGROUNDUP_def using unat_page_mask[of "a + of_nat 4095"] by (simp add: add.commute)
qed

lemma page_aligned_PGROUNDUP: "page_aligned (PGROUNDUP a)"
  unfolding PGROUNDUP_def page_aligned_def using unat_page_mask[of "a + 4095"] by (simp add: add.commute)

lemma page_aligned_PGROUNDDOWN: "page_aligned (PGROUNDDOWN a)"
  unfolding page_aligned_def unat_PGROUNDDOWN by simp

end
