(* ===== verification/Strings.thy ===== *)
theory Strings
  imports Machine
begin

text \<open>
  \<^verbatim>\<open>kernel/string.c\<close>. The routines on raw memory (\<open>memset\<close>, \<open>memcmp\<close>, \<open>memmove\<close>, \<open>memcpy\<close>) work on
  physical memory byte by byte, in the order of the C loops. The routines on C strings work on
  the byte list that starts at the pointer: \<open>*p\<close> is \<open>chd p\<close> (0 at the end of the list, the
  terminator) and \<open>p++\<close> is \<open>tl p\<close>; a destination array is a byte list updated by index.
\<close>

section \<open>Raw memory\<close>

fun memset_loop :: "mem \<Rightarrow> u64 \<Rightarrow> u8 \<Rightarrow> nat \<Rightarrow> nat \<Rightarrow> mem" where
  "memset_loop m cdst c i 0 = m"
| "memset_loop m cdst c i (Suc k) = memset_loop (m(cdst + of_nat i := c)) cdst c (Suc i) k"

definition memset :: "mem \<Rightarrow> u64 \<Rightarrow> u32 \<Rightarrow> u32 \<Rightarrow> mem" where
  "memset m dst c n = memset_loop m dst (ucast c) 0 (unat n)"

fun memcmp_loop :: "mem \<Rightarrow> u64 \<Rightarrow> u64 \<Rightarrow> nat \<Rightarrow> int" where
  "memcmp_loop m s1 s2 0 = 0"
| "memcmp_loop m s1 s2 (Suc n) =
     (if m s1 \<noteq> m s2 then uint (m s1) - uint (m s2) else memcmp_loop m (s1 + 1) (s2 + 1) n)"

definition memcmp :: "mem \<Rightarrow> u64 \<Rightarrow> u64 \<Rightarrow> u32 \<Rightarrow> int" where
  "memcmp m v1 v2 n = memcmp_loop m v1 v2 (unat n)"

fun memmove_fwd :: "mem \<Rightarrow> u64 \<Rightarrow> u64 \<Rightarrow> nat \<Rightarrow> mem" where
  "memmove_fwd m d s 0 = m"
| "memmove_fwd m d s (Suc n) = memmove_fwd (m(d := m s)) (d + 1) (s + 1) n"

fun memmove_bwd :: "mem \<Rightarrow> u64 \<Rightarrow> u64 \<Rightarrow> nat \<Rightarrow> mem" where
  "memmove_bwd m d s 0 = m"
| "memmove_bwd m d s (Suc n) = memmove_bwd (m(d - 1 := m (s - 1))) (d - 1) (s - 1) n"

definition memmove :: "mem \<Rightarrow> u64 \<Rightarrow> u64 \<Rightarrow> u32 \<Rightarrow> mem" where
  "memmove m dst src n =
     (if n = 0 then m
      else if src < dst \<and> src + ucast n > dst
        then memmove_bwd m (dst + ucast n) (src + ucast n) (unat n)
        else memmove_fwd m dst src (unat n))"

definition memcpy :: "mem \<Rightarrow> u64 \<Rightarrow> u64 \<Rightarrow> u32 \<Rightarrow> mem" where
  "memcpy m dst src n = memmove m dst src n"

section \<open>C strings\<close>

definition chd :: "bytes \<Rightarrow> u8" where
  "chd p = (case p of [] \<Rightarrow> 0 | c # _ \<Rightarrow> c)"

fun strncmp :: "bytes \<Rightarrow> bytes \<Rightarrow> nat \<Rightarrow> int" where
  "strncmp p q 0 = 0"
| "strncmp p q (Suc n) =
     (if chd p \<noteq> 0 \<and> chd p = chd q then strncmp (tl p) (tl q) n
      else uint (chd p) - uint (chd q))"

fun strncpy_pad :: "bytes \<Rightarrow> nat \<Rightarrow> nat \<Rightarrow> bytes" where
  "strncpy_pad s i 0 = s"
| "strncpy_pad s i (Suc n) = strncpy_pad (s[i := 0]) (Suc i) n"

fun strncpy_copy :: "bytes \<Rightarrow> nat \<Rightarrow> bytes \<Rightarrow> nat \<Rightarrow> bytes" where
  "strncpy_copy s i t 0 = s"
| "strncpy_copy s i t (Suc n) =
     (let c = chd t; s' = s[i := c]
      in if c \<noteq> 0 then strncpy_copy s' (Suc i) (tl t) n else strncpy_pad s' (Suc i) n)"

definition strncpy :: "bytes \<Rightarrow> bytes \<Rightarrow> int \<Rightarrow> bytes" where
  "strncpy s t n = strncpy_copy s 0 t (nat n)"

fun safestrcpy_loop :: "bytes \<Rightarrow> nat \<Rightarrow> bytes \<Rightarrow> nat \<Rightarrow> bytes" where
  "safestrcpy_loop s i t 0 = s[i := 0]"
| "safestrcpy_loop s i t (Suc n) =
     (let c = chd t; s' = s[i := c]
      in if c \<noteq> 0 then safestrcpy_loop s' (Suc i) (tl t) n else s'[Suc i := 0])"

definition safestrcpy :: "bytes \<Rightarrow> bytes \<Rightarrow> int \<Rightarrow> bytes" where
  "safestrcpy s t n = (if n \<le> 0 then s else safestrcpy_loop s 0 t (nat (n - 1)))"

fun strlen :: "bytes \<Rightarrow> nat" where
  "strlen [] = 0"
| "strlen (c # s) = (if c = 0 then 0 else Suc (strlen s))"

section \<open>The raw-memory loops in closed form\<close>

lemma st_bytes_Cons:
  assumes "length bs < 2 ^ 64"
  shows "st_bytes (m(a := b)) (a + 1) bs = st_bytes m a (b # bs)"
proof
  fix x
  have eq: "unat (x - a) = (if x = a then 0 else Suc (unat (x - (a + 1))))"
  proof (cases "x = a")
    case False
    then have "x - a \<noteq> 0" by simp
    then have "unat (x - a) = Suc (unat (x - a - 1))"
      using unat_minus_one[of "x - a"] word_neq_0_iff_unat[of "x - a"] by simp
    moreover have "x - a - 1 = x - (a + 1)" by simp
    ultimately show ?thesis using False by simp
  qed simp
  have last: "unat (a - (a + 1)) = 2 ^ 64 - 1"
    by (simp add: unat_minus_1_u64)
  show "st_bytes (m(a := b)) (a + 1) bs x = st_bytes m a (b # bs) x"
    using assms eq last by (auto simp: st_bytes_def)
qed

lemma st_bytes_snoc:
  assumes "length bs < 2 ^ 64"
  shows "st_bytes (m(a + of_nat (length bs) := b)) a bs = st_bytes m a (bs @ [b])"
proof
  fix x
  have "x = a + of_nat (length bs) \<longleftrightarrow> unat (x - a) = length bs"
  proof
    assume "unat (x - a) = length bs"
    then have "x - a = of_nat (length bs)"
      by (metis word_of_unat)
    then show "x = a + of_nat (length bs)" by (metis add.commute diff_add_cancel)
  next
    assume "x = a + of_nat (length bs)"
    then show "unat (x - a) = length bs"
      using unat_of_nat_small[of "length bs", where 'a = 64] assms by simp
  qed
  then show "st_bytes (m(a + of_nat (length bs) := b)) a bs x = st_bytes m a (bs @ [b]) x"
    by (auto simp: st_bytes_def nth_append)
qed

lemma ld_bytes_Cons: "ld_bytes m a (Suc n) = m a # ld_bytes m (a + 1) n"
  by (simp add: ld_bytes_def upt_conv_Cons map_Suc_upt[symmetric] add.assoc del: upt_Suc)

lemma ld_bytes_snoc: "ld_bytes m a (Suc n) = ld_bytes m a n @ [m (a + of_nat n)]"
  by (simp add: ld_bytes_def)

lemma memset_loop_eq:
  "k < 2 ^ 64 \<Longrightarrow> memset_loop m a c i k = st_bytes m (a + of_nat i) (replicate k c)"
proof (induction k arbitrary: m i)
  case 0
  then show ?case by simp
next
  case (Suc k)
  have "memset_loop m a c i (Suc k)
      = st_bytes (m(a + of_nat i := c)) (a + of_nat i + 1) (replicate k c)"
    using Suc by (simp add: add.commute add.left_commute)
  also have "\<dots> = st_bytes m (a + of_nat i) (c # replicate k c)"
    by (rule st_bytes_Cons) (use Suc.prems in simp)
  finally show ?case by simp
qed

lemma memset_eq: "memset m a c n = st_bytes m a (replicate (unat n) (ucast c))"
  using unat_u32[of n] by (simp add: memset_def memset_loop_eq)

lemma memmove_fwd_eq:
  assumes "n < 2 ^ 64" and "\<And>i j. i < j \<Longrightarrow> j < n \<Longrightarrow> d + of_nat i \<noteq> s + of_nat j"
  shows "memmove_fwd m d s n = st_bytes m d (ld_bytes m s n)"
  using assms
proof (induction n arbitrary: m d s)
  case 0
  then show ?case by simp
next
  case (Suc n)
  let ?m = "m(d := m s)"
  have "memmove_fwd ?m (d + 1) (s + 1) n = st_bytes ?m (d + 1) (ld_bytes ?m (s + 1) n)"
  proof (rule Suc.IH)
    fix i j assume "i < j" "j < n"
    then show "d + 1 + of_nat i \<noteq> s + 1 + of_nat j"
      using Suc.prems(2)[of "Suc i" "Suc j"] by (simp add: add.assoc)
  qed (use Suc.prems(1) in simp)
  moreover have "ld_bytes ?m (s + 1) n = ld_bytes m (s + 1) n"
  proof (rule ld_bytes_cong)
    fix i assume "i < n"
    then have "d \<noteq> s + 1 + of_nat i"
      using Suc.prems(2)[of 0 "Suc i"] by (simp add: add.assoc)
    then show "?m (s + 1 + of_nat i) = m (s + 1 + of_nat i)" by simp
  qed
  ultimately show ?case
    using Suc.prems(1) by (simp add: st_bytes_Cons ld_bytes_Cons)
qed

lemma memmove_bwd_Suc:
  "memmove_bwd m (d + of_nat (Suc n)) (s + of_nat (Suc n)) (Suc n)
     = memmove_bwd (m(d + of_nat n := m (s + of_nat n))) (d + of_nat n) (s + of_nat n) n"
proof -
  have "(d::u64) + of_nat (Suc n) - 1 = d + of_nat n" for d
    by simp
  then show ?thesis by (simp only: memmove_bwd.simps)
qed

lemma memmove_bwd_eq:
  assumes "n < 2 ^ 64" and "\<And>i j. i < j \<Longrightarrow> j < n \<Longrightarrow> d + of_nat j \<noteq> s + of_nat i"
  shows "memmove_bwd m (d + of_nat n) (s + of_nat n) n = st_bytes m d (ld_bytes m s n)"
  using assms
proof (induction n arbitrary: m)
  case 0
  then show ?case by simp
next
  case (Suc n)
  let ?m = "m(d + of_nat n := m (s + of_nat n))"
  have "memmove_bwd ?m (d + of_nat n) (s + of_nat n) n = st_bytes ?m d (ld_bytes ?m s n)"
  proof (rule Suc.IH)
    fix i j assume "i < j" "j < n"
    then show "d + of_nat j \<noteq> s + of_nat i"
      using Suc.prems(2)[of i j] by simp
  qed (use Suc.prems(1) in simp)
  moreover have "ld_bytes ?m s n = ld_bytes m s n"
  proof (rule ld_bytes_cong)
    fix i assume "i < n"
    then have "d + of_nat n \<noteq> s + of_nat i"
      using Suc.prems(2)[of i n] by simp
    then show "?m (s + of_nat i) = m (s + of_nat i)" by simp
  qed
  moreover have "st_bytes ?m d (ld_bytes m s n) = st_bytes m d (ld_bytes m s n @ [m (s + of_nat n)])"
    using Suc.prems(1) st_bytes_snoc[of "ld_bytes m s n" m d "m (s + of_nat n)"] by simp
  ultimately show ?case
    by (simp only: memmove_bwd_Suc ld_bytes_snoc)
qed

lemma of_nat_add_neq:
  assumes "i \<noteq> j" and "unat a + i < 2 ^ 64" and "unat a + j < 2 ^ 64"
  shows "(a :: u64) + of_nat i \<noteq> a + of_nat j"
proof
  assume "a + of_nat i = a + of_nat j"
  then have "(of_nat i :: u64) = of_nat j" by simp
  moreover have "i < 2 ^ LENGTH(64)" "j < 2 ^ LENGTH(64)"
    using assms(2,3) by simp_all
  ultimately have "i = j" by (metis unat_of_nat_small)
  with assms(1) show False by simp
qed

lemma unat_add_of_nat: "unat (a :: u64) + i < 2 ^ 64 \<Longrightarrow> unat (a + of_nat i) = unat a + i"
  by (simp add: unat_word_ariths unat_of_nat take_bit_nat_eq_self)

text \<open>
  \<open>memmove\<close> copies as if through a temporary buffer: whatever the overlap, the destination holds
  what the source held before the call and every other byte is unchanged.
\<close>

lemma memmove_eq:
  assumes src: "unat src + unat n < 2 ^ 64" and dst: "unat dst + unat n < 2 ^ 64"
  shows "memmove m dst src n = st_bytes m dst (ld_bytes m src (unat n))"
proof (cases "src < dst \<and> src + ucast n > dst")
  case True
  have "(ucast n :: u64) = of_nat (unat n)" by simp
  moreover have "memmove_bwd m (dst + of_nat (unat n)) (src + of_nat (unat n)) (unat n)
      = st_bytes m dst (ld_bytes m src (unat n))"
  proof (rule memmove_bwd_eq)
    fix i j assume ij: "i < j" "j < unat n"
    have "unat (dst + of_nat j) = unat dst + j" "unat (src + of_nat i) = unat src + i"
      using src dst ij by (simp_all add: unat_add_of_nat)
    then show "dst + of_nat j \<noteq> src + of_nat i"
      using True ij by (metis word_less_nat_alt add_less_mono less_irrefl)
  qed (use unat_u32[of n] in simp)
  ultimately show ?thesis
    using True by (auto simp: memmove_def)
next
  case False
  have un: "unat (src + ucast n) = unat src + unat n"
    using src unat_add_of_nat[of src "unat n"] by simp
  have "memmove_fwd m dst src (unat n) = st_bytes m dst (ld_bytes m src (unat n))"
  proof (rule memmove_fwd_eq)
    fix i j assume ij: "i < j" "j < unat n"
    have "unat (dst + of_nat i) = unat dst + i" "unat (src + of_nat j) = unat src + j"
      using src dst ij by (simp_all add: unat_add_of_nat)
    moreover have "unat dst \<le> unat src \<or> unat src + unat n \<le> unat dst"
      using False un by (auto simp: word_less_nat_alt)
    ultimately show "dst + of_nat i \<noteq> src + of_nat j"
      using ij by auto
  qed (use unat_u32[of n] in simp)
  then show ?thesis
    using False by (auto simp: memmove_def)
qed

section \<open>C strings: what the loops compute\<close>

text \<open>The string that starts at a pointer, cut at the first NUL and at \<open>n\<close> bytes.\<close>

definition cstr :: "nat \<Rightarrow> bytes \<Rightarrow> bytes" where
  "cstr n p = takeWhile (\<lambda>c. c \<noteq> 0) (take n p)"

lemma cstr_0 [simp]: "cstr 0 p = []"
  by (simp add: cstr_def)

lemma cstr_Suc: "cstr (Suc n) p = (if chd p = 0 then [] else chd p # cstr n (tl p))"
  by (cases p) (simp_all add: cstr_def chd_def)

lemma length_cstr: "length (cstr n p) \<le> n"
  using length_takeWhile_le[of "\<lambda>c. c \<noteq> 0" "take n p"] by (simp add: cstr_def)

lemma strncmp_eq_0_iff: "strncmp p q n = 0 \<longleftrightarrow> cstr n p = cstr n q"
proof (induction p q n rule: strncmp.induct)
  case (1 p q)
  then show ?case by simp
next
  case (2 p q n)
  have "uint (chd p) - uint (chd q) = 0 \<longleftrightarrow> chd p = chd q"
    by (simp add: word_uint_eq_iff)
  with 2 show ?case by (auto simp: cstr_Suc)
qed

lemma strncpy_pad_eq:
  "i + n \<le> length s \<Longrightarrow> strncpy_pad s i n = take i s @ replicate n 0 @ drop (i + n) s"
proof (induction n arbitrary: s i)
  case 0
  then show ?case by simp
next
  case (Suc n)
  then have "strncpy_pad (s[i := 0]) (Suc i) n
      = take (Suc i) (s[i := 0]) @ replicate n 0 @ drop (Suc i + n) (s[i := 0])"
    by simp
  moreover have "take (Suc i) (s[i := 0]) = take i s @ [0]"
    using Suc.prems by (simp add: take_Suc_conv_app_nth)
  ultimately show ?case by (simp add: drop_update_cancel)
qed

lemma strncpy_copy_eq:
  "i + n \<le> length s \<Longrightarrow>
   strncpy_copy s i t n
     = take i s @ cstr n t @ replicate (n - length (cstr n t)) 0 @ drop (i + n) s"
proof (induction n arbitrary: s i t)
  case 0
  then show ?case by simp
next
  case (Suc n)
  have tk: "take (Suc i) (s[i := c]) = take i s @ [c]" for c
    using Suc.prems by (simp add: take_Suc_conv_app_nth)
  show ?case
  proof (cases "chd t = 0")
    case True
    then show ?thesis
      using Suc.prems strncpy_pad_eq[of "Suc i" n "s[i := 0]"] tk[of 0]
      by (simp add: cstr_Suc drop_update_cancel)
  next
    case False
    then show ?thesis
      using Suc.prems Suc.IH[of "Suc i" "s[i := chd t]" "tl t"] tk[of "chd t"]
      by (simp add: cstr_Suc drop_update_cancel)
  qed
qed

lemma strncpy_eq:
  assumes "0 \<le> n" and "nat n \<le> length s"
  shows "strncpy s t n
    = cstr (nat n) t @ replicate (nat n - length (cstr (nat n) t)) 0 @ drop (nat n) s"
  using assms strncpy_copy_eq[of 0 "nat n" s t] by (simp add: strncpy_def)

lemma safestrcpy_loop_eq:
  "i + n < length s \<Longrightarrow>
   \<exists>r. safestrcpy_loop s i t n = take i s @ cstr n t @ 0 # r @ drop (i + n + 1) s"
proof (induction n arbitrary: s i t)
  case 0
  then have "safestrcpy_loop s i t 0 = take i s @ cstr 0 t @ 0 # [] @ drop (i + 0 + 1) s"
    by (simp add: upd_conv_take_nth_drop)
  then show ?case by blast
next
  case (Suc n)
  have tk: "take (Suc i) (s[i := c]) = take i s @ [c]" for c
    using Suc.prems by (simp add: take_Suc_conv_app_nth)
  show ?case
  proof (cases "chd t = 0")
    case True
    let ?s = "s[i := 0, Suc i := 0]"
    have "?s = take (Suc i) (s[i := 0]) @ 0 # drop (Suc (Suc i)) (s[i := 0])"
      using Suc.prems by (intro upd_conv_take_nth_drop) simp
    also have "\<dots> = take i s @ 0 # 0 # drop (i + 2) s"
      using tk[of 0] by (simp add: drop_update_cancel)
    also have "drop (i + 2) s = take n (drop (i + 2) s) @ drop (i + Suc n + 1) s"
      using append_take_drop_id[of n "drop (i + 2) s"] by (simp add: add.commute)
    finally show ?thesis
      using True by (auto simp: cstr_Suc Let_def)
  next
    case False
    obtain r where "safestrcpy_loop (s[i := chd t]) (Suc i) (tl t) n
        = take (Suc i) (s[i := chd t]) @ cstr n (tl t) @ 0 # r @ drop (Suc i + n + 1) (s[i := chd t])"
      using Suc.IH[of "Suc i" "s[i := chd t]" "tl t"] Suc.prems by auto
    then show ?thesis
      using False tk[of "chd t"] by (auto simp: cstr_Suc Let_def drop_update_cancel)
  qed
qed

lemma safestrcpy_eq:
  assumes "0 < n" and "nat n \<le> length s"
  shows "\<exists>r. safestrcpy s t n = cstr (nat n - 1) t @ 0 # r @ drop (nat n) s"
  using assms safestrcpy_loop_eq[of 0 "nat (n - 1)" s t] by (simp add: safestrcpy_def nat_diff_distrib')

lemma strlen_eq: "strlen s = length (takeWhile (\<lambda>c. c \<noteq> 0) s)"
  by (induction s) auto

end
