(* ===== verification/Spinlock.thy ===== *)
theory Spinlock
  imports Prelude
begin

text \<open>
  \<^verbatim>\<open>kernel/spinlock.c\<close>. The lock words, the per-CPU interrupt bookkeeping (\<open>noff\<close>, \<open>intena\<close> and the
  \<open>SIE\<close> bit of \<open>sstatus\<close>) and every routine of the file, run by one CPU. A second layer runs
  \<open>acquire\<close> and \<open>release\<close> one atomic memory access at a time on all CPUs at once. The locale
  \<open>lock_set\<close> is what the rest of the kernel relies on; the last part interprets it both on the
  view the kernel functions of the other theories take (the set of locks the running CPU holds)
  and on the routines of the file.
\<close>

section \<open>State\<close>

text \<open>Every spin lock of the kernel; the locks of \<open>struct\<close> instances carry the instance's index.\<close>

datatype lockid =
    KmemLock | PidLock | WaitLock | ProcLock nat | BcacheLock | LogLock | ItableLock
  | TicksLock | ConsLock | TxLock | VdiskLock | PrLock | FtableLock | PipeLock nat
  | BufSleepLk nat | InodeSleepLk nat

record spinlock =
  locked :: u32
  lname :: string
  lcpu :: "nat option"

record cpu =
  noff :: int
  intena :: bool
  sie :: bool      \<comment> \<open>the SIE bit of the hart's \<open>sstatus\<close>\<close>

record smp =
  locks :: "lockid \<Rightarrow> spinlock"
  cpus :: "nat \<Rightarrow> cpu"

definition upd_lock :: "lockid \<Rightarrow> (spinlock \<Rightarrow> spinlock) \<Rightarrow> 'x smp_scheme \<Rightarrow> 'x smp_scheme" where
  "upd_lock lk f s = s\<lparr>locks := (locks s)(lk := f (locks s lk))\<rparr>"

definition upd_cpu :: "nat \<Rightarrow> (cpu \<Rightarrow> cpu) \<Rightarrow> 'x smp_scheme \<Rightarrow> 'x smp_scheme" where
  "upd_cpu c f s = s\<lparr>cpus := (cpus s)(c := f (cpus s c))\<rparr>"

section \<open>The routines, run by CPU \<open>c\<close>\<close>

definition initlock :: "lockid \<Rightarrow> string \<Rightarrow> ('x smp_scheme, unit) kfun" where
  "initlock lk name = modify (upd_lock lk (\<lambda>l. l\<lparr>lname := name, locked := 0, lcpu := None\<rparr>))"

definition holding :: "nat \<Rightarrow> lockid \<Rightarrow> 'x smp_scheme \<Rightarrow> bool" where
  "holding c lk s \<longleftrightarrow> locked (locks s lk) \<noteq> 0 \<and> lcpu (locks s lk) = Some c"

definition push_off :: "nat \<Rightarrow> ('x smp_scheme, unit) kfun" where
  "push_off c = modify (upd_cpu c (\<lambda>p.
     let old = sie p; p = p\<lparr>sie := False\<rparr>;
         p = (if noff p = 0 then p\<lparr>intena := old\<rparr> else p)
     in p\<lparr>noff := noff p + 1\<rparr>))"

definition pop_off :: "nat \<Rightarrow> ('x smp_scheme, unit) kfun" where
  "pop_off c =
     bind (gets (\<lambda>s. cpus s c)) (\<lambda>p.
     if sie p then panic ''pop_off - interruptible''
     else if noff p < 1 then panic ''pop_off''
     else modify (upd_cpu c (\<lambda>p.
       let p = p\<lparr>noff := noff p - 1\<rparr>
       in if noff p = 0 \<and> intena p then p\<lparr>sie := True\<rparr> else p)))"

text \<open>
  The spin loop of \<open>acquire\<close>: while the atomic exchange returns non-zero nothing changes, so on
  one CPU alone a taken lock spins for ever.
\<close>

definition acquire_smp :: "nat \<Rightarrow> lockid \<Rightarrow> ('x smp_scheme, unit) kfun" where
  "acquire_smp c lk =
     bind (push_off c) (\<lambda>_.
     bind (gets (holding c lk)) (\<lambda>h.
     if h then panic ''acquire'' else
     bind (gets (\<lambda>s. locked (locks s lk))) (\<lambda>old.
     if old \<noteq> 0 then hang else
     bind (modify (upd_lock lk (\<lambda>l. l\<lparr>locked := 1\<rparr>))) (\<lambda>_.
     modify (upd_lock lk (\<lambda>l. l\<lparr>lcpu := Some c\<rparr>))))))"

definition release_smp :: "nat \<Rightarrow> lockid \<Rightarrow> ('x smp_scheme, unit) kfun" where
  "release_smp c lk =
     bind (gets (holding c lk)) (\<lambda>h.
     if \<not> h then panic ''release'' else
     bind (modify (upd_lock lk (\<lambda>l. l\<lparr>lcpu := None\<rparr>))) (\<lambda>_.
     bind (modify (upd_lock lk (\<lambda>l. l\<lparr>locked := 0\<rparr>))) (\<lambda>_.
     pop_off c)))"

section \<open>All CPUs at once\<close>

text \<open>
  Where a CPU is inside \<open>acquire\<close> or \<open>release\<close>: spinning on the exchange, past the exchange but
  before \<open>lk->cpu\<close> is set, or past clearing \<open>lk->cpu\<close> but before the store that frees the lock.
  \<open>crit\<close> records, for each CPU, the locks whose \<open>acquire\<close> has returned and whose \<open>release\<close> has not
  been called: the critical sections it is in.
\<close>

datatype lock_pc = Running | Spinning lockid | Swapped lockid | Clearing lockid

record smp_run = smp +
  pc :: "nat \<Rightarrow> lock_pc"
  crit :: "nat \<Rightarrow> lockid set"

inductive smp_step :: "smp_run \<Rightarrow> smp_run \<Rightarrow> bool" where
  acquire_enter:
    "pc s c = Running \<Longrightarrow> push_off c s = Done () t \<Longrightarrow> \<not> holding c lk t \<Longrightarrow>
     smp_step s (t\<lparr>pc := (pc t)(c := Spinning lk)\<rparr>)"
| acquire_spin:
    "pc s c = Spinning lk \<Longrightarrow> locked (locks s lk) \<noteq> 0 \<Longrightarrow>
     smp_step s (upd_lock lk (\<lambda>l. l\<lparr>locked := 1\<rparr>) s)"
| acquire_swap:
    "pc s c = Spinning lk \<Longrightarrow> locked (locks s lk) = 0 \<Longrightarrow>
     smp_step s ((upd_lock lk (\<lambda>l. l\<lparr>locked := 1\<rparr>) s)\<lparr>pc := (pc s)(c := Swapped lk)\<rparr>)"
| acquire_return:
    "pc s c = Swapped lk \<Longrightarrow>
     smp_step s ((upd_lock lk (\<lambda>l. l\<lparr>lcpu := Some c\<rparr>) s)
       \<lparr>pc := (pc s)(c := Running), crit := (crit s)(c := insert lk (crit s c))\<rparr>)"
| release_enter:
    "pc s c = Running \<Longrightarrow> holding c lk s \<Longrightarrow>
     smp_step s ((upd_lock lk (\<lambda>l. l\<lparr>lcpu := None\<rparr>) s)
       \<lparr>pc := (pc s)(c := Clearing lk), crit := (crit s)(c := crit s c - {lk})\<rparr>)"
| release_return:
    "pc s c = Clearing lk \<Longrightarrow> pop_off c (upd_lock lk (\<lambda>l. l\<lparr>locked := 0\<rparr>) s) = Done () t \<Longrightarrow>
     smp_step s (t\<lparr>pc := (pc t)(c := Running)\<rparr>)"

definition smp_init :: "smp_run \<Rightarrow> bool" where
  "smp_init s \<longleftrightarrow>
     (\<forall>lk. locked (locks s lk) = 0 \<and> lcpu (locks s lk) = None) \<and>
     (\<forall>c. pc s c = Running \<and> crit s c = {} \<and> noff (cpus s c) = 0)"

inductive smp_reachable :: "smp_run \<Rightarrow> bool" where
  start: "smp_init s \<Longrightarrow> smp_reachable s"
| step: "smp_reachable s \<Longrightarrow> smp_step s t \<Longrightarrow> smp_reachable t"

text \<open>A CPU owns a lock from the exchange that took it to the store that frees it.\<close>

definition owns :: "smp_run \<Rightarrow> nat \<Rightarrow> lockid \<Rightarrow> bool" where
  "owns s c lk \<longleftrightarrow> lk \<in> crit s c \<or> pc s c = Swapped lk \<or> pc s c = Clearing lk"

fun in_lock_code :: "lock_pc \<Rightarrow> int" where
  "in_lock_code Running = 0"
| "in_lock_code _ = 1"

text \<open>
  The invariant: a lock has at most one owner; the lock word says whether it has one; \<open>lk->cpu\<close>
  names the CPU in the critical section, and is clear in the two windows where a CPU owns the lock
  outside it; \<open>noff\<close> counts the locks held plus the call in progress; interrupts are off while
  \<open>noff\<close> is positive.
\<close>

definition own_excl :: "smp_run \<Rightarrow> bool" where
  "own_excl s \<longleftrightarrow> (\<forall>lk c d. owns s c lk \<longrightarrow> owns s d lk \<longrightarrow> c = d)"

definition own_locked :: "smp_run \<Rightarrow> bool" where
  "own_locked s \<longleftrightarrow> (\<forall>lk. locked (locks s lk) \<noteq> 0 \<longleftrightarrow> (\<exists>c. owns s c lk))"

definition crit_cpu :: "smp_run \<Rightarrow> bool" where
  "crit_cpu s \<longleftrightarrow> (\<forall>lk c. lk \<in> crit s c \<longleftrightarrow> lcpu (locks s lk) = Some c) \<and>
     (\<forall>lk c. pc s c = Swapped lk \<or> pc s c = Clearing lk \<longrightarrow> lcpu (locks s lk) = None)"

definition noff_count :: "smp_run \<Rightarrow> bool" where
  "noff_count s \<longleftrightarrow>
     (\<forall>c. finite (crit s c) \<and> noff (cpus s c) = int (card (crit s c)) + in_lock_code (pc s c))"

definition noff_sie :: "smp_run \<Rightarrow> bool" where
  "noff_sie s \<longleftrightarrow> (\<forall>c. 0 < noff (cpus s c) \<longrightarrow> \<not> sie (cpus s c))"

definition smp_inv :: "smp_run \<Rightarrow> bool" where
  "smp_inv s \<longleftrightarrow> own_excl s \<and> own_locked s \<and> crit_cpu s \<and> noff_count s \<and> noff_sie s"

section \<open>The invariant of the interleaved runs\<close>

lemma push_off_Done:
  "push_off c s = Done () t \<longleftrightarrow>
     t = upd_cpu c (\<lambda>p. p\<lparr>sie := False, intena := (if noff p = 0 then sie p else intena p),
           noff := noff p + 1\<rparr>) s"
  by (auto simp: push_off_def upd_cpu_def Let_def)

lemma pop_off_Done:
  "pop_off c s = Done () t \<longleftrightarrow>
     \<not> sie (cpus s c) \<and> 1 \<le> noff (cpus s c) \<and>
     t = upd_cpu c (\<lambda>p. if noff p = 1 \<and> intena p then p\<lparr>noff := noff p - 1, sie := True\<rparr>
           else p\<lparr>noff := noff p - 1\<rparr>) s"
  by (auto simp: pop_off_def bind_def upd_cpu_def Let_def)

lemma upd_cpu_frame [simp]:
  "locks (upd_cpu c f s) = locks s" "pc (upd_cpu c f s') = pc s'" "crit (upd_cpu c f s') = crit s'"
  "cpus (upd_cpu c f s) = (cpus s)(c := f (cpus s c))"
  by (simp_all add: upd_cpu_def)

lemma upd_lock_frame [simp]:
  "cpus (upd_lock lk g s) = cpus s" "pc (upd_lock lk g s') = pc s'"
  "crit (upd_lock lk g s') = crit s'"
  "locks (upd_lock lk g s) = (locks s)(lk := g (locks s lk))"
  by (simp_all add: upd_lock_def)

text \<open>How each step changes the owners.\<close>

lemma owns_move:
  "pc t = (pc s)(c := q) \<Longrightarrow> crit t = (crit s)(c := K) \<Longrightarrow>
   owns t d lk \<longleftrightarrow> (if d = c then lk \<in> K \<or> q = Swapped lk \<or> q = Clearing lk else owns s d lk)"
  by (simp add: owns_def)

lemma smp_step_own:
  "smp_step s t \<Longrightarrow> own_excl s \<Longrightarrow> own_locked s \<Longrightarrow> crit_cpu s \<Longrightarrow>
   own_excl t \<and> own_locked t \<and> crit_cpu t"
proof (induction rule: smp_step.induct)
  case (acquire_enter s c t lk)
  let ?t = "t\<lparr>pc := (pc t)(c := Spinning lk)\<rparr>"
  have "owns ?t d k = owns s d k" for d k
    using acquire_enter by (simp add: owns_def push_off_Done)
  with acquire_enter show ?case
    by (simp add: own_excl_def own_locked_def crit_cpu_def push_off_Done)
next
  case (acquire_spin s c lk)
  have "owns (upd_lock lk (\<lambda>l. l\<lparr>locked := 1\<rparr>) s) d k = owns s d k" for d k
    by (simp add: owns_def)
  with acquire_spin show ?case
    by (simp add: own_excl_def own_locked_def crit_cpu_def)
next
  case (acquire_swap s c lk)
  let ?t = "(upd_lock lk (\<lambda>l. l\<lparr>locked := 1\<rparr>) s)\<lparr>pc := (pc s)(c := Swapped lk)\<rparr>"
  from acquire_swap have free: "\<not> owns s d lk" for d
    unfolding own_locked_def by blast
  then have "lcpu (locks s lk) = None"
    using acquire_swap.prems(3) by (cases "lcpu (locks s lk)") (auto simp: crit_cpu_def owns_def)
  moreover have "owns ?t d k \<longleftrightarrow> owns s d k \<or> d = c \<and> k = lk" for d k
    using acquire_swap.hyps by (auto simp: owns_def)
  ultimately show ?case
    using acquire_swap.prems free by (auto simp: own_excl_def own_locked_def crit_cpu_def)
next
  case (acquire_return s c lk)
  let ?t = "(upd_lock lk (\<lambda>l. l\<lparr>lcpu := Some c\<rparr>) s)
       \<lparr>pc := (pc s)(c := Running), crit := (crit s)(c := insert lk (crit s c))\<rparr>"
  have own: "owns s c lk" using acquire_return.hyps by (simp add: owns_def)
  then have other: "d = c" if "owns s d lk" for d
    using that acquire_return.prems(1) by (auto simp: own_excl_def)
  have "owns ?t d k \<longleftrightarrow> owns s d k" for d k
    using acquire_return.hyps by (auto simp: owns_def)
  moreover have "lk \<notin> crit s d" for d
    using acquire_return by (auto simp: crit_cpu_def)
  ultimately show ?case
    using acquire_return.prems acquire_return.hyps other
    by (auto simp: own_excl_def own_locked_def crit_cpu_def owns_def)
next
  case (release_enter s c lk)
  let ?t = "(upd_lock lk (\<lambda>l. l\<lparr>lcpu := None\<rparr>) s)
       \<lparr>pc := (pc s)(c := Clearing lk), crit := (crit s)(c := crit s c - {lk})\<rparr>"
  have lk: "lk \<in> crit s c" using release_enter by (simp add: crit_cpu_def holding_def)
  then have "owns ?t d k \<longleftrightarrow> owns s d k" for d k
    using release_enter.hyps by (auto simp: owns_def)
  then show ?case
    using release_enter.prems lk by (auto simp: own_excl_def own_locked_def crit_cpu_def)
next
  case (release_return s c lk t)
  let ?t = "t\<lparr>pc := (pc t)(c := Running)\<rparr>"
  have own: "owns s c lk" using release_return.hyps by (simp add: owns_def)
  then have other: "d = c" if "owns s d lk" for d
    using that release_return.prems(1) by (auto simp: own_excl_def)
  have "lk \<notin> crit s c"
    using release_return by (auto simp: crit_cpu_def)
  then have "owns ?t d k \<longleftrightarrow> owns s d k \<and> k \<noteq> lk" for d k
    using release_return.hyps other by (auto simp: owns_def pop_off_Done)
  then show ?case
    using release_return.prems release_return.hyps other
    by (auto simp: own_excl_def own_locked_def crit_cpu_def pop_off_Done)
qed

lemma smp_step_noff:
  "smp_step s t \<Longrightarrow> crit_cpu s \<Longrightarrow> noff_count s \<Longrightarrow> noff_count t"
proof (induction rule: smp_step.induct)
  case (acquire_return s c lk)
  then have "lk \<notin> crit s c" by (auto simp: crit_cpu_def)
  with acquire_return show ?case by (auto simp: noff_count_def)
next
  case (release_enter s c lk)
  then have lk: "lk \<in> crit s c" by (simp add: crit_cpu_def holding_def)
  moreover have "finite (crit s c)" using release_enter by (simp add: noff_count_def)
  ultimately have "card (crit s c) = Suc (card (crit s c - {lk}))"
    by (metis card_Suc_Diff1)
  with release_enter show ?case by (auto simp: noff_count_def)
qed (auto simp: noff_count_def push_off_Done pop_off_Done)

lemma smp_step_sie:
  "smp_step s t \<Longrightarrow> noff_count s \<Longrightarrow> noff_sie s \<Longrightarrow> noff_sie t"
proof (induction rule: smp_step.induct)
  case (release_return s c lk t)
  then show ?case
    by (auto simp: noff_sie_def pop_off_Done noff_count_def)
qed (auto simp: noff_sie_def push_off_Done)

lemma smp_step_inv: "smp_step s t \<Longrightarrow> smp_inv s \<Longrightarrow> smp_inv t"
  using smp_step_own smp_step_noff smp_step_sie unfolding smp_inv_def by blast

lemma smp_init_inv: "smp_init s \<Longrightarrow> smp_inv s"
  by (auto simp: smp_init_def smp_inv_def own_excl_def own_locked_def crit_cpu_def noff_count_def
      noff_sie_def owns_def)

lemma smp_reachable_inv: "smp_reachable s \<Longrightarrow> smp_inv s"
  by (induction rule: smp_reachable.induct) (auto intro: smp_init_inv smp_step_inv)

section \<open>What the rest of the kernel relies on\<close>

text \<open>
  The kernel functions of the other theories run on one CPU and see of the spin locks only which
  ones that CPU holds.
\<close>

record klock =
  held :: "lockid set"

definition acquire :: "lockid \<Rightarrow> ('x klock_scheme, unit) kfun" where
  "acquire lk = (\<lambda>s. if lk \<in> held s then Panic ''acquire''
      else Done () (s\<lparr>held := insert lk (held s)\<rparr>))"

definition release :: "lockid \<Rightarrow> ('x klock_scheme, unit) kfun" where
  "release lk = (\<lambda>s. if lk \<notin> held s then Panic ''release''
      else Done () (s\<lparr>held := held s - {lk}\<rparr>))"

locale lock_set =
  fixes acq :: "lockid \<Rightarrow> ('s, unit) kfun"
    and rel :: "lockid \<Rightarrow> ('s, unit) kfun"
    and hold :: "'s \<Rightarrow> lockid set"
    and free :: "'s \<Rightarrow> lockid \<Rightarrow> bool"
    and lock_inv :: "'s \<Rightarrow> bool"
  assumes acq_free: "lock_inv s \<Longrightarrow> lk \<notin> hold s \<Longrightarrow> free s lk \<Longrightarrow>
      \<exists>t. acq lk s = Done () t \<and> hold t = insert lk (hold s) \<and> lock_inv t"
    and acq_held: "lock_inv s \<Longrightarrow> lk \<in> hold s \<Longrightarrow> acq lk s = Panic ''acquire''"
    and rel_held: "lock_inv s \<Longrightarrow> lk \<in> hold s \<Longrightarrow>
      \<exists>t. rel lk s = Done () t \<and> hold t = hold s - {lk} \<and> lock_inv t"
    and rel_not_held: "lock_inv s \<Longrightarrow> lk \<notin> hold s \<Longrightarrow> rel lk s = Panic ''release''"
begin

lemma with_lock:
  assumes "lock_inv s" and "lk \<notin> hold s" and "free s lk"
    and "\<And>t. lock_inv t \<Longrightarrow> hold t = insert lk (hold s) \<Longrightarrow>
           wp body (\<lambda>a u. lock_inv u \<and> hold u = hold t) t"
  shows "wp (bind (acq lk) (\<lambda>_. bind body (\<lambda>_. rel lk))) (\<lambda>_ u. lock_inv u \<and> hold u = hold s) s"
proof -
  obtain t where t: "acq lk s = Done () t" "hold t = insert lk (hold s)" "lock_inv t"
    using acq_free[OF assms(1-3)] by blast
  obtain a u where u: "body t = Done a u" "lock_inv u" "hold u = insert lk (hold s)"
    using assms(4)[OF t(3,2)] t(2) by (auto simp: wp_iff)
  obtain v where "rel lk u = Done () v" "hold v = hold u - {lk}" "lock_inv v"
    using rel_held[OF u(2), of lk] u(3) by blast
  with t u assms(2) show ?thesis
    by (simp add: wp_def)
qed

lemma acquire_twice:
  assumes "lock_inv s" and "lk \<notin> hold s" and "free s lk"
  shows "bind (acq lk) (\<lambda>_. acq lk) s = Panic ''acquire''"
  using acq_free[OF assms] acq_held by auto

end

interpretation kl: lock_set acquire release held "\<lambda>_ _. True" "\<lambda>_. True"
  by unfold_locales (auto simp: acquire_def release_def)

text \<open>The routines of the file, run by CPU \<open>c\<close>, on the state of all CPUs.\<close>

definition cpu_locks :: "nat \<Rightarrow> 'x smp_scheme \<Rightarrow> lockid set" where
  "cpu_locks c s = {lk. holding c lk s}"

definition cpu_inv :: "nat \<Rightarrow> 'x smp_scheme \<Rightarrow> bool" where
  "cpu_inv c s \<longleftrightarrow> finite (cpu_locks c s) \<and> int (card (cpu_locks c s)) \<le> noff (cpus s c) \<and>
     (0 < noff (cpus s c) \<longrightarrow> \<not> sie (cpus s c))"

lemma acquire_smp_free:
  assumes "cpu_inv c s" and "locked (locks s lk) = 0"
  shows "\<exists>t. acquire_smp c lk s = Done () t \<and> cpu_locks c t = insert lk (cpu_locks c s) \<and> cpu_inv c t"
proof -
  let ?t = "upd_lock lk (\<lambda>l. l\<lparr>lcpu := Some c\<rparr>) (upd_lock lk (\<lambda>l. l\<lparr>locked := 1\<rparr>)
    (upd_cpu c (\<lambda>p. p\<lparr>sie := False, intena := (if noff p = 0 then sie p else intena p),
           noff := noff p + 1\<rparr>) s))"
  have "acquire_smp c lk s = Done () ?t"
    using assms(2) push_off_Done[of c s, THEN iffD2, OF refl]
    by (simp add: acquire_smp_def holding_def)
  moreover have eq: "cpu_locks c ?t = insert lk (cpu_locks c s)"
    by (auto simp: cpu_locks_def holding_def)
  moreover have "lk \<notin> cpu_locks c s"
    using assms(2) by (simp add: cpu_locks_def holding_def)
  then have "cpu_inv c ?t"
    using assms(1) eq by (auto simp: cpu_inv_def)
  ultimately show ?thesis by blast
qed

lemma release_smp_held:
  assumes "cpu_inv c s" and "lk \<in> cpu_locks c s"
  shows "\<exists>t. release_smp c lk s = Done () t \<and> cpu_locks c t = cpu_locks c s - {lk} \<and> cpu_inv c t"
proof -
  let ?s = "upd_lock lk (\<lambda>l. l\<lparr>locked := 0\<rparr>) (upd_lock lk (\<lambda>l. l\<lparr>lcpu := None\<rparr>) s)"
  have "0 < card (cpu_locks c s)"
    using assms by (auto simp: cpu_inv_def card_gt_0_iff)
  then have off: "1 \<le> noff (cpus s c)" "\<not> sie (cpus s c)"
    using assms(1) by (auto simp: cpu_inv_def)
  then obtain t where t: "pop_off c ?s = Done () t"
    using pop_off_Done[of c ?s] by simp
  have "release_smp c lk s = Done () t"
    using assms(2) t by (simp add: release_smp_def cpu_locks_def)
  moreover have eq: "cpu_locks c t = cpu_locks c s - {lk}"
    using t by (auto simp: cpu_locks_def holding_def pop_off_Done)
  moreover have "card (cpu_locks c s) = Suc (card (cpu_locks c s - {lk}))"
    using assms card_Suc_Diff1[of "cpu_locks c s" lk] unfolding cpu_inv_def by simp
  then have "cpu_inv c t"
    using assms(1) off t[unfolded pop_off_Done] unfolding cpu_inv_def eq by (auto split: if_splits)
  ultimately show ?thesis by blast
qed

lemma acquire_smp_held: "holding c lk s \<Longrightarrow> acquire_smp c lk s = Panic ''acquire''"
  by (simp add: acquire_smp_def push_off_def holding_def)

lemma release_smp_not_held: "\<not> holding c lk s \<Longrightarrow> release_smp c lk s = Panic ''release''"
  by (simp add: release_smp_def)

interpretation hw: lock_set "acquire_smp c" "release_smp c" "cpu_locks c"
    "\<lambda>s lk. locked (locks s lk) = 0" "cpu_inv c"
proof unfold_locales
  show "\<exists>t. acquire_smp c lk s = Done () t \<and> cpu_locks c t = insert lk (cpu_locks c s) \<and> cpu_inv c t"
    if "cpu_inv c s" "locked (locks s lk) = 0" for s :: "'a smp_scheme" and lk
    using that by (rule acquire_smp_free)
  show "acquire_smp c lk s = Panic ''acquire''" if "lk \<in> cpu_locks c s" for s :: "'a smp_scheme" and lk
    using that by (simp add: cpu_locks_def acquire_smp_held)
  show "\<exists>t. release_smp c lk s = Done () t \<and> cpu_locks c t = cpu_locks c s - {lk} \<and> cpu_inv c t"
    if "cpu_inv c s" "lk \<in> cpu_locks c s" for s :: "'a smp_scheme" and lk
    using that by (rule release_smp_held)
  show "release_smp c lk s = Panic ''release''" if "lk \<notin> cpu_locks c s" for s :: "'a smp_scheme" and lk
    using that by (simp add: cpu_locks_def release_smp_not_held)
qed

lemma wp_acquire [wp_rules]:
  "wp (acquire lk) Q s = (lk \<notin> held s \<and> Q () (s\<lparr>held := insert lk (held s)\<rparr>))"
  by (simp add: wp_def acquire_def)

lemma wp_release [wp_rules]:
  "wp (release lk) Q s = (lk \<in> held s \<and> Q () (s\<lparr>held := held s - {lk}\<rparr>))"
  by (simp add: wp_def release_def)

lemma wlp_acquire [wlp_rules]:
  "wlp (acquire lk) Q s = (lk \<notin> held s \<longrightarrow> Q () (s\<lparr>held := insert lk (held s)\<rparr>))"
  and wlp_release [wlp_rules]:
  "wlp (release lk) Q s = (lk \<in> held s \<longrightarrow> Q () (s\<lparr>held := held s - {lk}\<rparr>))"
  by (simp_all add: wlp_def acquire_def release_def)

lemma keeps_acquire [keeps_intros]: "(\<And>s h. v (s\<lparr>held := h\<rparr>) = v s) \<Longrightarrow> keeps v (acquire lk)"
  and keeps_release [keeps_intros]: "(\<And>s h. v (s\<lparr>held := h\<rparr>) = v s) \<Longrightarrow> keeps v (release lk)"
  by (simp_all add: keeps_def acquire_def release_def)

section \<open>Properties\<close>

text \<open>The view the other theories take of CPU \<open>c\<close>.\<close>

definition lock_view :: "nat \<Rightarrow> 'x smp_scheme \<Rightarrow> klock" where
  "lock_view c s = \<lparr>held = cpu_locks c s\<rparr>"

lemma push_offs:
  "noff (cpus s c) = 0 \<Longrightarrow> foreach (replicate (Suc n) ()) (\<lambda>_. push_off c) s =
     Done () (upd_cpu c (\<lambda>p. p\<lparr>sie := False, intena := sie p, noff := int (Suc n)\<rparr>) s)"
proof (induction n)
  case 0
  then show ?case
    by (simp add: push_off_Done upd_cpu_def)
next
  case (Suc n)
  have "replicate (Suc (Suc n)) () = replicate (Suc n) () @ [()]"
    by (simp add: replicate_append_same)
  then have "foreach (replicate (Suc (Suc n)) ()) (\<lambda>_. push_off c) s =
      bind (foreach (replicate (Suc n) ()) (\<lambda>_. push_off c)) (\<lambda>_. push_off c) s"
    by (simp only: foreach_snoc)
  also have "\<dots> = push_off c (upd_cpu c (\<lambda>p. p\<lparr>sie := False, intena := sie p, noff := int (Suc n)\<rparr>) s)"
    using Suc by (intro bind_Done) simp
  also have "\<dots> = Done () (upd_cpu c (\<lambda>p. p\<lparr>sie := False, intena := sie p, noff := int (Suc (Suc n))\<rparr>) s)"
    by (cases "cpus s c") (simp add: push_off_def upd_cpu_def Let_def)
  finally show ?case .
qed

lemma pop_offs:
  "noff (cpus s c) = int (Suc n) \<Longrightarrow> \<not> sie (cpus s c) \<Longrightarrow>
   foreach (replicate (Suc n) ()) (\<lambda>_. pop_off c) s =
     Done () (upd_cpu c (\<lambda>p. p\<lparr>noff := 0, sie := intena p\<rparr>) s)"
proof (induction n arbitrary: s)
  case 0
  then show ?case
    by (cases "cpus s c") (auto simp: pop_off_def upd_cpu_def Let_def)
next
  case (Suc n)
  let ?t = "upd_cpu c (\<lambda>p. p\<lparr>noff := noff p - 1\<rparr>) s"
  have "pop_off c s = Done () ?t"
    using Suc.prems by (auto simp: pop_off_def upd_cpu_def Let_def)
  moreover have "foreach (replicate (Suc n) ()) (\<lambda>_. pop_off c) ?t =
      Done () (upd_cpu c (\<lambda>p. p\<lparr>noff := 0, sie := intena p\<rparr>) ?t)"
    using Suc.prems by (intro Suc.IH) simp_all
  ultimately show ?case
    by (simp add: upd_cpu_def)
qed

text \<open>C2: mutual exclusion. In every interleaving of \<open>acquire\<close> and \<open>release\<close> on any number of CPUs,
  one memory access at a time, two CPUs are never inside the critical section of the same lock, and a CPU
  inside one runs with interrupts off and passes its own \<open>holding\<close> test, so that its \<open>release\<close>
  does not panic.\<close>

theorem spinlock_mutual_exclusion:
  assumes "smp_reachable s" and "lk \<in> crit s c"
  shows "(\<forall>d. lk \<in> crit s d \<longrightarrow> d = c) \<and> \<not> sie (cpus s c) \<and> holding c lk s"
proof -
  note inv = smp_reachable_inv[OF assms(1), unfolded smp_inv_def]
  then have own: "\<And>d. lk \<in> crit s d \<Longrightarrow> d = c"
    using assms(2) by (auto simp: own_excl_def owns_def)
  have "finite (crit s c)" and "noff (cpus s c) = int (card (crit s c)) + in_lock_code (pc s c)"
    using inv by (auto simp: noff_count_def)
  moreover have "0 \<le> in_lock_code (pc s c)"
    by (cases "pc s c") simp_all
  ultimately have "0 < noff (cpus s c)"
    using assms(2) card_gt_0_iff[of "crit s c"] by fastforce
  then have "\<not> sie (cpus s c)"
    using inv by (simp add: noff_sie_def)
  moreover have "lcpu (locks s lk) = Some c" "locked (locks s lk) \<noteq> 0"
    using inv assms(2) by (auto simp: crit_cpu_def own_locked_def owns_def)
  ultimately show ?thesis
    using own by (simp add: holding_def)
qed

definition smp_boot :: smp_run where
  "smp_boot = \<lparr>locks = \<lambda>_. \<lparr>locked = 0, lname = [], lcpu = None\<rparr>,
     cpus = \<lambda>_. \<lparr>noff = 0, intena = False, sie = True\<rparr>, pc = \<lambda>_. Running, crit = \<lambda>_. {}\<rparr>"

lemma smp_boot_acquire: "\<exists>s. smp_reachable s \<and> KmemLock \<in> crit s 0"
proof -
  let ?s1 = "(upd_cpu 0 (\<lambda>p. p\<lparr>sie := False, intena := (if noff p = 0 then sie p else intena p),
           noff := noff p + 1\<rparr>) smp_boot)"
  let ?s2 = "?s1\<lparr>pc := (pc ?s1)(0 := Spinning KmemLock)\<rparr>"
  let ?s3 = "(upd_lock KmemLock (\<lambda>l. l\<lparr>locked := 1\<rparr>) ?s2)\<lparr>pc := (pc ?s2)(0 := Swapped KmemLock)\<rparr>"
  let ?s4 = "(upd_lock KmemLock (\<lambda>l. l\<lparr>lcpu := Some 0\<rparr>) ?s3)
       \<lparr>pc := (pc ?s3)(0 := Running), crit := (crit ?s3)(0 := insert KmemLock (crit ?s3 0))\<rparr>"
  have "smp_reachable smp_boot"
    by (rule smp_reachable.start) (simp add: smp_init_def smp_boot_def)
  moreover have "smp_step smp_boot ?s2"
    by (rule smp_step.acquire_enter) (simp_all add: smp_boot_def push_off_Done holding_def)
  moreover have "smp_step ?s2 ?s3"
    by (rule smp_step.acquire_swap) (simp_all add: smp_boot_def)
  moreover have "smp_step ?s3 ?s4"
    by (rule smp_step.acquire_return) (simp_all add: smp_boot_def)
  ultimately have "smp_reachable ?s4"
    by (blast intro: smp_reachable.step)
  then show ?thesis
    by (intro exI[of _ ?s4]) simp
qed

theorem spinlock_mutual_exclusion_witness:
  "\<exists>s. smp_reachable s \<and> KmemLock \<in> crit s 0 \<and> KmemLock \<notin> crit s 1 \<and> holding 0 KmemLock s"
proof -
  obtain s where s: "smp_reachable s" "KmemLock \<in> crit s 0"
    using smp_boot_acquire by blast
  show ?thesis
    using s spinlock_mutual_exclusion[OF s] by (intro exI[of _ s]) (auto dest: spec[of _ 1])
qed

text \<open>C3: the routines of the file refine the view the rest of the kernel has. For a lock that is
  free or held by the calling CPU, \<open>acquire\<close> and \<open>release\<close> with their lock words, owner fields
  and interrupt nesting do to the set of locks the CPU holds what the abstract operations do,
  panics included; a lock another CPU holds is spun on.\<close>

theorem spinlock_refines_held_set:
  assumes "cpu_inv c s"
  shows "(locked (locks s lk) = 0 \<or> holding c lk s \<longrightarrow>
            map_outcome id (lock_view c) (acquire_smp c lk s) = acquire lk (lock_view c s)) \<and>
         (locked (locks s lk) \<noteq> 0 \<and> \<not> holding c lk s \<longrightarrow> acquire_smp c lk s = Hang) \<and>
         map_outcome id (lock_view c) (release_smp c lk s) = release lk (lock_view c s)"
proof (intro conjI impI)
  have in_iff: "lk \<in> cpu_locks c s \<longleftrightarrow> holding c lk s"
    by (simp add: cpu_locks_def)
  show "map_outcome id (lock_view c) (acquire_smp c lk s) = acquire lk (lock_view c s)"
    if "locked (locks s lk) = 0 \<or> holding c lk s"
  proof (cases "holding c lk s")
    case True
    then show ?thesis
      by (simp add: acquire_smp_held acquire_def lock_view_def in_iff)
  next
    case False
    with that hw.acq_free[OF assms, of lk] show ?thesis
      by (auto simp: acquire_def lock_view_def in_iff)
  qed
  show "acquire_smp c lk s = Hang" if "locked (locks s lk) \<noteq> 0 \<and> \<not> holding c lk s"
  proof -
    have "locked (locks s lk) \<noteq> 0" "lcpu (locks s lk) \<noteq> Some c"
      using that by (auto simp: holding_def)
    then show ?thesis
      using push_off_Done[of c s, THEN iffD2, OF refl] by (simp add: acquire_smp_def holding_def)
  qed
  show "map_outcome id (lock_view c) (release_smp c lk s) = release lk (lock_view c s)"
  proof (cases "holding c lk s")
    case True
    then obtain t where "release_smp c lk s = Done () t" "cpu_locks c t = cpu_locks c s - {lk}"
      using hw.rel_held[OF assms] in_iff by blast
    with True show ?thesis
      by (simp add: release_def lock_view_def in_iff)
  next
    case False
    then show ?thesis
      by (simp add: release_smp_not_held release_def lock_view_def in_iff)
  qed
qed

theorem spinlock_refines_held_set_witness:
  "cpu_inv 0 smp_boot \<and>
   map_outcome id (lock_view 0) (acquire_smp 0 KmemLock smp_boot) = Done () \<lparr>held = {KmemLock}\<rparr>"
proof -
  have none: "cpu_locks 0 smp_boot = {}"
    by (simp add: cpu_locks_def holding_def smp_boot_def)
  then have inv: "cpu_inv 0 smp_boot"
    by (simp add: cpu_inv_def smp_boot_def)
  have "locked (locks smp_boot KmemLock) = 0"
    by (simp add: smp_boot_def)
  then show ?thesis
    using inv spinlock_refines_held_set[OF inv, of KmemLock]
    by (simp add: acquire_def lock_view_def none)
qed



end
