(* ===== verification/Kalloc.thy ===== *)
theory Kalloc
  imports Strings Spinlock "HOL-Library.Multiset"
begin

text \<open>
  \<^verbatim>\<open>kernel/kalloc.c\<close>. Free pages are chained through their own first eight bytes in physical
  memory (\<open>struct run\<close>), starting at \<open>kmem.freelist\<close>. The invariant relates the chain to a list of
  distinct, aligned pages between the end of the kernel and \<open>PHYSTOP\<close>; the locale \<open>page_alloc\<close> is
  the contract the virtual memory code relies on.
\<close>

section \<open>State and operations \<close>

text \<open>\<open>kend\<close> is the linker symbol \<open>end\<close>, which no function changes.\<close>

record kmach = klock +
  mem :: mem
  freelist :: u64
  kend :: u64

definition kfree :: "u64 \<Rightarrow> ('x kmach_scheme, unit) kfun" where
  "kfree pa =
     bind (gets kend) (\<lambda>e.
     if pa mod PGSIZE \<noteq> 0 \<or> pa < e \<or> PHYSTOP \<le> pa then panic ''kfree'' else
     bind (modify (\<lambda>s. s\<lparr>mem := memset (mem s) pa 1 4096\<rparr>)) (\<lambda>_.
     bind (acquire KmemLock) (\<lambda>_.
     bind (modify (\<lambda>s. s\<lparr>mem := st64 (mem s) pa (freelist s)\<rparr>)) (\<lambda>_.
     bind (modify (\<lambda>s. s\<lparr>freelist := pa\<rparr>)) (\<lambda>_.
     release KmemLock)))))"

definition kalloc :: "('x kmach_scheme, u64) kfun" where
  "kalloc =
     bind (acquire KmemLock) (\<lambda>_.
     bind (gets freelist) (\<lambda>r.
     bind (if r \<noteq> 0 then modify (\<lambda>s. s\<lparr>freelist := ld64 (mem s) r\<rparr>) else ret ()) (\<lambda>_.
     bind (release KmemLock) (\<lambda>_.
     bind (if r \<noteq> 0 then modify (\<lambda>s. s\<lparr>mem := memset (mem s) r 5 4096\<rparr>) else ret ()) (\<lambda>_.
     ret r)))))"

lemma kfree_DoneD: "kfree pa s = Done a t \<Longrightarrow> pa < PHYSTOP"
  by (auto simp: kfree_def split: if_splits)

text \<open>
  The loop of \<open>freerange\<close>. It ends on every input: \<open>kfree\<close> panics once \<open>p\<close> has reached
  \<open>PHYSTOP\<close>, so \<open>p + PGSIZE\<close> never wraps around.
\<close>

function freerange_loop :: "u64 \<Rightarrow> u64 \<Rightarrow> ('x kmach_scheme, unit) kfun" where
  "freerange_loop p pa_end s =
     (if p + PGSIZE \<le> pa_end
      then bind (kfree p) (\<lambda>_. freerange_loop (p + PGSIZE) pa_end) s
      else Done () s)"
  by pat_completeness auto

termination freerange_loop
proof (relation "measure (\<lambda>(p, pa_end, s). unat pa_end - unat p)", goal_cases)
  case (2 p pa_end s u t)
  have p: "unat p < 0x88000000"
    using kfree_DoneD[OF 2(2)] by (simp add: word_less_nat_alt)
  then have "unat (p + PGSIZE) = unat p + 4096"
    using unat_add_of_nat[of p 4096] by simp
  moreover have "unat (p + PGSIZE) \<le> unat pa_end"
    using 2(1) by (simp only: word_le_nat_alt)
  ultimately show ?case
    by (simp add: in_measure)
qed simp

definition freerange :: "u64 \<Rightarrow> u64 \<Rightarrow> ('x kmach_scheme, unit) kfun" where
  "freerange pa_start pa_end = freerange_loop (PGROUNDUP pa_start) pa_end"

text \<open>
  \<open>kinit\<close>: \<open>initlock\<close> on \<open>kmem.lock\<close> leaves it free, so in the view of the locks held it has no
  effect; \<open>end\<close> is the first address after the kernel.
\<close>

definition kinit :: "('x kmach_scheme, unit) kfun" where
  "kinit = bind (gets kend) (\<lambda>e. freerange e PHYSTOP)"

section \<open>The free list\<close>

fun fl_rep :: "mem \<Rightarrow> u64 \<Rightarrow> u64 list \<Rightarrow> bool" where
  "fl_rep m h [] = (h = 0)"
| "fl_rep m h (x # xs) = (h = x \<and> x \<noteq> 0 \<and> fl_rep m (ld64 m x) xs)"

definition page_ok :: "u64 \<Rightarrow> u64 \<Rightarrow> bool" where
  "page_ok e p \<longleftrightarrow> page_aligned p \<and> e \<le> p \<and> p < PHYSTOP"

definition kmem_inv :: "'x kmach_scheme \<Rightarrow> u64 list \<Rightarrow> bool" where
  "kmem_inv s xs \<longleftrightarrow> 0 < kend s \<and> fl_rep (mem s) (freelist s) xs \<and> distinct xs \<and>
     (\<forall>x\<in>set xs. page_ok (kend s) x)"

lemma page_okD: "page_ok e p \<Longrightarrow> page_aligned p"
  by (simp add: page_ok_def)

lemma page_ok_nonzero: "page_ok e p \<Longrightarrow> 0 < e \<Longrightarrow> p \<noteq> 0"
  by (auto simp: page_ok_def)

lemma page_ok_kfree: "page_ok e p \<Longrightarrow> \<not> (p mod PGSIZE \<noteq> 0 \<or> p < e \<or> PHYSTOP \<le> p)"
  using page_aligned_mod[of p] by (auto simp: page_ok_def)

lemma page_ok_aligned: "\<forall>x\<in>P. page_ok e x \<Longrightarrow> \<forall>x\<in>P. page_aligned x"
  by (simp add: page_ok_def)

lemma fl_rep_unique: "fl_rep m h xs \<Longrightarrow> fl_rep m h ys \<Longrightarrow> xs = ys"
proof (induction xs arbitrary: h ys)
  case Nil
  then show ?case by (cases ys) auto
next
  case (Cons x xs)
  then show ?case by (cases ys) auto
qed

lemma fl_rep_frame:
  assumes "only_pages P m m'" and "\<forall>p\<in>P. page_aligned p" and "\<forall>x\<in>set xs. page_aligned x"
    and "P \<inter> set xs = {}"
  shows "fl_rep m' h xs = fl_rep m h xs"
  using assms(3,4)
proof (induction xs arbitrary: h)
  case (Cons x xs)
  then have "ld64 m' x = ld64 m x"
    by (intro only_pages_ld64_0[OF assms(1,2)]) auto
  with Cons show ?case by auto
qed simp

lemma kmem_inv_frame:
  assumes "kmem_inv s xs" and "only_pages P (mem s) m'" and "\<forall>p\<in>P. page_aligned p"
    and "P \<inter> set xs = {}"
  shows "kmem_inv (s\<lparr>mem := m'\<rparr>) xs"
proof -
  have "\<forall>x\<in>set xs. page_aligned x"
    using assms(1) by (auto simp: kmem_inv_def page_ok_def)
  from fl_rep_frame[OF assms(2,3) this assms(4)] assms(1) show ?thesis
    by (simp add: kmem_inv_def)
qed

lemma memset_page: "memset m p c 4096 = st_bytes m p (replicate 4096 (ucast c))"
  by (simp add: memset_eq)

lemma memset_page_at: "in_page p x \<Longrightarrow> memset m p c 4096 x = ucast c"
  by (simp add: memset_page st_bytes_def in_range_def)

lemma only_pages_memset: "only_pages {p} m (memset m p c 4096)"
  using only_pages_st_bytes[of 0 "replicate 4096 (ucast c)" p m] by (simp add: memset_page)

section \<open>What the operations do\<close>

abbreviation kfree_mem :: "'x kmach_scheme \<Rightarrow> u64 \<Rightarrow> mem" where
  "kfree_mem s pa \<equiv> st64 (memset (mem s) pa 1 4096) pa (freelist s)"

lemma kfree_eq:
  assumes "page_ok (kend s) pa" and "KmemLock \<notin> held s"
  shows "kfree pa s = Done () (s\<lparr>mem := kfree_mem s pa, freelist := pa\<rparr>)"
  using assms page_ok_kfree[OF assms(1)] by (simp add: kfree_def acquire_def release_def)

lemma kfree_bad: "\<not> page_ok (kend s) pa \<Longrightarrow> kfree pa s = Panic ''kfree''"
  using page_aligned_mod[of pa] by (auto simp: kfree_def page_ok_def)

lemma only_pages_kfree_mem: "only_pages {pa} (mem s) (kfree_mem s pa)"
  by (rule only_pages_trans[OF only_pages_memset only_pages_st64_0])

lemma kfree_inv:
  assumes "kmem_inv s xs" and "page_ok (kend s) pa" and "pa \<notin> set xs"
  shows "kmem_inv (s\<lparr>mem := kfree_mem s pa, freelist := pa\<rparr>) (pa # xs)"
proof -
  have "fl_rep (kfree_mem s pa) (freelist s) xs"
    using kmem_inv_frame[OF assms(1) only_pages_kfree_mem] page_okD[OF assms(2)] assms(3)
    by (simp add: kmem_inv_def)
  with assms show ?thesis
    by (simp add: kmem_inv_def page_ok_nonzero)
qed

lemma kalloc_Nil:
  assumes "kmem_inv s []" and "KmemLock \<notin> held s"
  shows "kalloc s = Done 0 s"
  using assms by (simp add: kalloc_def kmem_inv_def acquire_def release_def)

lemma kalloc_Cons:
  assumes "kmem_inv s (x # xs)" and "KmemLock \<notin> held s"
  shows "kalloc s = Done x (s\<lparr>freelist := ld64 (mem s) x, mem := memset (mem s) x 5 4096\<rparr>)"
  using assms by (simp add: kalloc_def kmem_inv_def acquire_def release_def)

lemma kalloc_inv:
  assumes "kmem_inv s (x # xs)"
  shows "kmem_inv (s\<lparr>freelist := ld64 (mem s) x, mem := memset (mem s) x 5 4096\<rparr>) xs"
proof -
  have "kmem_inv (s\<lparr>freelist := ld64 (mem s) x\<rparr>) xs"
    using assms by (simp add: kmem_inv_def)
  from kmem_inv_frame[OF this, of "{x}"] only_pages_memset assms show ?thesis
    by (simp add: kmem_inv_def page_ok_def)
qed

section \<open>The contract of the allocator\<close>

datatype page_op = AllocPage | FreePage nat

text \<open>
  A client that allocates and frees: \<open>FreePage i\<close> frees the \<open>i\<close>th page it owns (and does nothing
  when it owns fewer).
\<close>

fun run_page_ops ::
  "('s, u64) kfun \<Rightarrow> (u64 \<Rightarrow> ('s, unit) kfun) \<Rightarrow> page_op list \<Rightarrow> u64 list \<Rightarrow> ('s, u64 list) kfun" where
  "run_page_ops alloc free [] own = ret own"
| "run_page_ops alloc free (AllocPage # ops) own =
     bind alloc (\<lambda>p. run_page_ops alloc free ops (if p = 0 then own else p # own))"
| "run_page_ops alloc free (FreePage i # ops) own =
     (if i < length own
      then bind (free (own ! i)) (\<lambda>_. run_page_ops alloc free ops (take i own @ drop (Suc i) own))
      else run_page_ops alloc free ops own)"

locale page_alloc =
  fixes alloc :: "('s, u64) kfun"
    and free :: "u64 \<Rightarrow> ('s, unit) kfun"
    and pool :: "'s \<Rightarrow> u64 list \<Rightarrow> bool"
    and usable :: "'s \<Rightarrow> u64 \<Rightarrow> bool"
    and pmem :: "'s \<Rightarrow> mem"
  assumes alloc_empty: "pool s [] \<Longrightarrow> alloc s = Done 0 s"
    and alloc_page: "pool s (x # xs) \<Longrightarrow>
      \<exists>t. alloc s = Done x t \<and> pool t xs \<and> usable t = usable s \<and> only_pages {x} (pmem s) (pmem t)"
    and free_page: "pool s xs \<Longrightarrow> usable s p \<Longrightarrow> p \<notin> set xs \<Longrightarrow>
      \<exists>t. free p s = Done () t \<and> pool t (p # xs) \<and> usable t = usable s \<and> only_pages {p} (pmem s) (pmem t)"
    and pool_distinct: "pool s xs \<Longrightarrow> distinct xs"
    and pool_usable: "pool s xs \<Longrightarrow> x \<in> set xs \<Longrightarrow> usable s x"
    and usable_nonzero: "pool s xs \<Longrightarrow> usable s x \<Longrightarrow> x \<noteq> 0"
begin

text \<open>Freeing the page just allocated brings the pool back.\<close>

lemma alloc_free:
  assumes "pool s (x # xs)"
  shows "\<exists>t. bind alloc free s = Done () t \<and> pool t (x # xs) \<and> only_pages {x} (pmem s) (pmem t)"
proof -
  obtain t where t: "alloc s = Done x t" "pool t xs" "usable t = usable s" "only_pages {x} (pmem s) (pmem t)"
    using alloc_page[OF assms] by blast
  have "usable t x" "x \<notin> set xs"
    using t(3) pool_usable[OF assms] pool_distinct[OF assms] by auto
  from free_page[OF t(2) this] obtain u where
    "free x t = Done () u" "pool u (x # xs)" "only_pages {x} (pmem t) (pmem u)"
    by blast
  with t only_pages_trans[of "{x}" "pmem s" "pmem t" "pmem u"] show ?thesis
    by simp
qed

definition conserved :: "('s, u64 list) kfun \<Rightarrow> u64 list \<Rightarrow> 's \<Rightarrow> u64 list \<Rightarrow> bool" where
  "conserved run own s xs \<longleftrightarrow> (\<exists>own' xs' t. run s = Done own' t \<and> pool t xs' \<and>
     mset (own' @ xs') = mset (own @ xs) \<and> only_pages (set own \<union> set xs) (pmem s) (pmem t))"

lemma conserved_step:
  assumes "f s = Done a t" and "only_pages P (pmem s) (pmem t)" and "P \<subseteq> set own \<union> set xs"
    and "mset (own1 @ xs1) = mset (own @ xs)" and "conserved (g a) own1 t xs1"
  shows "conserved (bind f g) own s xs"
proof -
  obtain own' xs' u where u: "g a t = Done own' u" "pool u xs'"
      "mset (own' @ xs') = mset (own1 @ xs1)" "only_pages (set own1 \<union> set xs1) (pmem t) (pmem u)"
    using assms(5) by (auto simp: conserved_def)
  have "set own1 \<union> set xs1 = set own \<union> set xs"
    using mset_eq_setD[OF assms(4)] by simp
  then have "only_pages (set own \<union> set xs) (pmem s) (pmem u)"
    using only_pages_trans[OF only_pages_mono[OF assms(2,3)]] u(4) by simp
  with u assms(1,4) show ?thesis
    by (auto simp: conserved_def)
qed

text \<open>
  However a client allocates and frees, no call fails, no page is lost or handed out twice, and
  memory outside the pages it owns and the pool is untouched.
\<close>

lemma run_page_ops_conserves:
  assumes "pool s xs" and "distinct (own @ xs)" and "\<forall>p\<in>set own. usable s p"
  shows "conserved (run_page_ops alloc free ops own) own s xs"
  using assms
proof (induction ops arbitrary: s xs own)
  case Nil
  then show ?case by (auto simp: conserved_def)
next
  case (Cons op ops)
  show ?case
  proof (cases op)
    case AllocPage
    show ?thesis
    proof (cases xs)
      case Nil
      then have "alloc s = Done 0 s" using Cons.prems(1) alloc_empty by simp
      then show ?thesis using Cons.IH[OF Cons.prems] AllocPage by (simp add: conserved_def)
    next
      case xs: (Cons x ys)
      obtain t where t: "alloc s = Done x t" "pool t ys" "usable t = usable s"
          "only_pages {x} (pmem s) (pmem t)"
        using alloc_page Cons.prems(1) xs by blast
      have x: "x \<noteq> 0" "usable s x"
        using Cons.prems(1) xs usable_nonzero pool_usable by auto
      have "conserved (run_page_ops alloc free ops (x # own)) (x # own) t ys"
        using Cons.prems xs t x by (intro Cons.IH) auto
      then show ?thesis
        using conserved_step[of alloc, OF t(1,4), of own xs "x # own" ys] AllocPage xs x by simp
    qed
  next
    case (FreePage i)
    show ?thesis
    proof (cases "i < length own")
      case False
      then show ?thesis using Cons.IH[OF Cons.prems] FreePage by simp
    next
      case True
      let ?p = "own ! i" and ?own = "take i own @ drop (Suc i) own"
      have own: "mset own = add_mset ?p (mset ?own)"
        using arg_cong[OF id_take_nth_drop[OF True], of mset] by simp
      have sets: "set own = insert ?p (set ?own)"
        using arg_cong[OF own, of set_mset] by simp
      have dist: "distinct ((?p # ?own) @ xs)"
        using Cons.prems(2) own mset_eq_imp_distinct_iff[of "own @ xs" "(?p # ?own) @ xs"] by simp
      obtain t where t: "free ?p s = Done () t" "pool t (?p # xs)" "usable t = usable s"
          "only_pages {?p} (pmem s) (pmem t)"
        using free_page[OF Cons.prems(1), of ?p] dist Cons.prems(3) True by auto
      have "conserved (run_page_ops alloc free ops ?own) ?own t (?p # xs)"
        using Cons.prems(3) dist t sets by (intro Cons.IH) auto
      then show ?thesis
        using conserved_step[of "free ?p", OF t(1,4), of own xs ?own "?p # xs"] True FreePage own by simp
    qed
  qed
qed

end

interpretation km: page_alloc kalloc kfree
    "\<lambda>s xs. kmem_inv s xs \<and> KmemLock \<notin> held s" "\<lambda>s. page_ok (kend s)" mem
proof (unfold_locales, goal_cases)
  case (1 s)
  then show ?case by (simp add: kalloc_Nil)
next
  case (2 s x xs)
  then have "kalloc s = Done x (s\<lparr>freelist := ld64 (mem s) x, mem := memset (mem s) x 5 4096\<rparr>)"
    using kalloc_Cons by blast
  with 2 kalloc_inv[of s x xs] only_pages_memset[of x "mem s" 5] show ?case
    by simp
next
  case (3 s xs p)
  then have "kfree p s = Done () (s\<lparr>mem := kfree_mem s p, freelist := p\<rparr>)"
    using kfree_eq by blast
  with 3 kfree_inv[of s xs p] only_pages_kfree_mem[of p s] show ?case
    by simp
next
  case (6 s xs x)
  then show ?case by (auto simp: kmem_inv_def page_ok_nonzero)
qed (auto simp: kmem_inv_def)

section \<open>Filling the free list at boot\<close>

lemma page_below:
  assumes "page_aligned p" and "page_aligned q"
  shows "unat q < unat p + 4096 \<longleftrightarrow> unat q \<le> unat p"
proof -
  obtain a where a: "unat p = 4096 * a" using assms(1) by (rule page_alignedE)
  obtain b where b: "unat q = 4096 * b" using assms(2) by (rule page_alignedE)
  show ?thesis unfolding a b by auto
qed

lemma page_aligned_next:
  assumes "page_aligned p" and "unat p + 4096 < 2 ^ 64"
  shows "unat (p + 4096) = unat p + 4096" and "page_aligned (p + 4096)"
proof -
  show u: "unat (p + 4096) = unat p + 4096"
    using unat_add_of_nat[of p 4096] assms(2) by simp
  show "page_aligned (p + 4096)"
    using assms(1) unfolding page_aligned_def u by simp
qed

lemma page_ok_next:
  assumes "page_aligned p" and "e \<le> p" and "unat p + 4096 < 2 ^ 64" and "p < PHYSTOP"
  shows "{q. page_ok e q \<and> q < p + 4096} = insert p {q. page_ok e q \<and> q < p}"
proof -
  have "q < p + 4096 \<longleftrightarrow> q \<le> p" if "page_aligned q" for q
    using page_below[OF assms(1) that] page_aligned_next(1)[OF assms(1,3)]
    by (simp add: word_less_nat_alt word_le_nat_alt)
  with assms show ?thesis
    by (auto simp: page_ok_def)
qed

lemma freerange_loop_fills:
  assumes "kmem_inv s xs" and "KmemLock \<notin> held s" and "page_aligned p" and "kend s \<le> p"
    and "unat p + 4096 * n = 0x88000000" and "set xs = {q. page_ok (kend s) q \<and> q < p}"
  shows "\<exists>t ys. freerange_loop p PHYSTOP s = Done () t \<and> kmem_inv t ys \<and> held t = held s \<and>
           kend t = kend s \<and> set ys = {q. page_ok (kend s) q}"
  using assms
proof (induction n arbitrary: s xs p)
  case 0
  then have p: "p = PHYSTOP"
    by (simp add: word_unat_eq_iff)
  moreover have "{q. page_ok (kend s) q \<and> q < p} = {q. page_ok (kend s) q}"
    using p by (auto simp: page_ok_def)
  ultimately show ?case
    using 0 by (subst freerange_loop.simps) auto
next
  case (Suc n)
  then have le: "unat p + 4096 \<le> 0x88000000" by simp
  then have nxt: "unat (p + 4096) = unat p + 4096" "page_aligned (p + 4096)"
    using Suc.prems(3) page_aligned_next[of p] by simp_all
  have lt: "p < PHYSTOP" "p + PGSIZE \<le> PHYSTOP" "kend s \<le> p + 4096"
    using le nxt Suc.prems(4) by (simp_all add: word_less_nat_alt word_le_nat_alt)
  then have ok: "page_ok (kend s) p" "p \<notin> set xs"
    using Suc.prems by (auto simp: page_ok_def)
  let ?t = "s\<lparr>mem := kfree_mem s p, freelist := p\<rparr>"
  have step: "kfree p s = Done () ?t" "kmem_inv ?t (p # xs)"
    using kfree_eq[OF ok(1) Suc.prems(2)] kfree_inv[OF Suc.prems(1) ok] by simp_all
  have "set (p # xs) = {q. page_ok (kend ?t) q \<and> q < p + 4096}"
    using page_ok_next[of p "kend s"] Suc.prems le lt by simp
  then have "\<exists>t ys. freerange_loop (p + 4096) PHYSTOP ?t = Done () t \<and> kmem_inv t ys \<and>
      held t = held ?t \<and> kend t = kend ?t \<and> set ys = {q. page_ok (kend ?t) q}"
    using Suc.prems step lt nxt by (intro Suc.IH[of ?t "p # xs" "p + 4096"]) simp_all
  then show ?case
    using lt step(1) by (subst freerange_loop.simps) simp
qed

lemma kinit_fills:
  assumes "freelist s = 0" and "0 < kend s" and "kend s \<le> PHYSTOP" and "KmemLock \<notin> held s"
  shows "\<exists>t ys. kinit s = Done () t \<and> kmem_inv t ys \<and> held t = held s \<and> kend t = kend s \<and>
           set ys = {q. page_ok (kend s) q}"
proof -
  let ?p = "PGROUNDUP (kend s)"
  have e: "unat (kend s) \<le> 0x88000000"
    using assms(3) by (simp add: word_le_nat_alt)
  then have p: "unat ?p = (unat (kend s) + 4095) div 4096 * 4096"
    by (intro unat_PGROUNDUP) simp
  have ge: "unat (kend s) \<le> unat ?p" "unat ?p < unat (kend s) + 4096"
    unfolding p by linarith+
  have none: "{q. page_ok (kend s) q \<and> q < ?p} = {}"
  proof -
    have "\<not> (page_aligned q \<and> kend s \<le> q \<and> q < ?p)" for q
    proof
      assume q: "page_aligned q \<and> kend s \<le> q \<and> q < ?p"
      then have "unat ?p < unat q + 4096" "unat q < unat ?p"
        using ge by (simp_all add: word_le_nat_alt word_less_nat_alt)
      then show False
        using page_below[of q ?p] q page_aligned_PGROUNDUP by simp
    qed
    then show ?thesis by (auto simp: page_ok_def)
  qed
  obtain k where k: "unat ?p = 4096 * k"
    using p by simp
  have "unat ?p < 0x88000000 + 4096" using ge e by simp
  then have "k \<le> 0x88000" using k by simp
  then have n: "unat ?p + 4096 * (0x88000 - k) = 0x88000000" using k by simp
  have "kmem_inv s []" using assms by (simp add: kmem_inv_def)
  from freerange_loop_fills[OF this assms(4) page_aligned_PGROUNDUP _ n] none ge(1)
  show ?thesis
    by (simp add: kinit_def freerange_def word_le_nat_alt)
qed

text \<open>The two calls as the virtual memory code uses them, for the weakest-precondition calculus.\<close>

lemma wp_kalloc:
  assumes "kmem_inv s xs" and "KmemLock \<notin> held s" and "xs = [] \<Longrightarrow> Q 0 s"
    and "\<And>x ys m f. xs = x # ys \<Longrightarrow> kmem_inv (s\<lparr>freelist := f, mem := m\<rparr>) ys \<Longrightarrow> page_ok (kend s) x \<Longrightarrow>
           x \<noteq> 0 \<Longrightarrow> only_pages {x} (mem s) m \<Longrightarrow> Q x (s\<lparr>freelist := f, mem := m\<rparr>)"
  shows "wp kalloc Q s"
proof (cases xs)
  case Nil
  then show ?thesis using assms(1-3) by (simp add: wpI kalloc_Nil)
next
  case (Cons x ys)
  have "page_ok (kend s) x" "0 < kend s"
    using assms(1) Cons by (simp_all add: kmem_inv_def)
  then show ?thesis
    using assms(4)[OF Cons kalloc_inv[OF assms(1)[unfolded Cons]] _ _ only_pages_memset]
    by (simp add: wp_def kalloc_Cons[OF assms(1)[unfolded Cons] assms(2)] page_ok_nonzero)
qed

lemma wp_kfree:
  assumes "kmem_inv s xs" and "KmemLock \<notin> held s" and "page_ok (kend s) pa" and "pa \<notin> set xs"
    and "\<And>m. kmem_inv (s\<lparr>mem := m, freelist := pa\<rparr>) (pa # xs) \<Longrightarrow> only_pages {pa} (mem s) m \<Longrightarrow>
           Q () (s\<lparr>mem := m, freelist := pa\<rparr>)"
  shows "wp (kfree pa) Q s"
  using assms(5)[OF kfree_inv[OF assms(1,3,4)] only_pages_kfree_mem]
  by (simp add: wp_def kfree_eq[OF assms(3,2)])

section \<open>Properties\<close>

text \<open>C12: at boot \<open>kinit\<close> puts every page-aligned page between the end of the kernel and
  \<open>PHYSTOP\<close> on the free list, each exactly once, and returns with the lock released.\<close>

theorem kinit_frees_every_page:
  assumes "freelist s = 0" and "0 < kend s" and "kend s \<le> PHYSTOP" and "KmemLock \<notin> held s"
  shows "\<exists>t ys. kinit s = Done () t \<and> fl_rep (mem t) (freelist t) ys \<and> distinct ys \<and>
           set ys = {p. page_aligned p \<and> kend s \<le> p \<and> p < PHYSTOP} \<and> held t = held s"
  using kinit_fills[OF assms] by (auto simp: kmem_inv_def page_ok_def)

definition kmach_boot :: "u64 \<Rightarrow> kmach" where
  "kmach_boot e = \<lparr>held = {}, mem = \<lambda>_. 0, freelist = 0, kend = e\<rparr>"

theorem kinit_frees_every_page_witness:
  "\<exists>t ys. kinit (kmach_boot 0x80021000) = Done () t \<and> fl_rep (mem t) (freelist t) ys \<and>
     0x80021000 \<in> set ys \<and> held t = {}"
proof -
  have "page_aligned 0x80021000"
    by (simp add: page_aligned_def)
  moreover obtain t ys where "kinit (kmach_boot 0x80021000) = Done () t" "held t = {}"
      "fl_rep (mem t) (freelist t) ys" "set ys = {p. page_aligned p \<and> 0x80021000 \<le> p \<and> p < PHYSTOP}"
    using kinit_frees_every_page[of "kmach_boot 0x80021000"] by (auto simp: kmach_boot_def)
  ultimately show ?thesis
    by (intro exI[of _ t] exI[of _ ys]) simp
qed





end
