(* ===== verification/Pgtbl.thy ===== *)
theory Pgtbl
  imports Kalloc
begin

text \<open>
  \<^verbatim>\<open>kernel/vm.c\<close>, the page-table half: \<open>walk\<close>, \<open>walkaddr\<close>, \<open>mappages\<close>, \<open>kvmmap\<close>, \<open>uvmcreate\<close>, \<open>uvmclear\<close>
  and \<open>freewalk\<close> on Sv39 page tables that lie in physical memory, with the table pages they take
  from and give back to the allocator. \<open>lkup\<close> is the translation a table stands for; \<open>tree\<close> is the
  well-formedness of a table (its pages are proper pages and form a tree).
\<close>

section \<open>Operations\<close>

fun walk_loop :: "nat \<Rightarrow> u64 \<Rightarrow> u64 \<Rightarrow> bool \<Rightarrow> ('x kmach_scheme, u64) kfun" where
  "walk_loop 0 pagetable va alloc = ret (pagetable + 8 * PX 0 va)"
| "walk_loop (Suc level) pagetable va alloc =
     bind (gets (\<lambda>s. ld64 (mem s) (pagetable + 8 * PX (Suc level) va))) (\<lambda>pte.
     if pte AND PTE_V \<noteq> 0 then walk_loop level (PTE2PA pte) va alloc
     else if \<not> alloc then ret 0 else
     bind kalloc (\<lambda>p.
     if p = 0 then ret 0 else
     bind (modify (\<lambda>s. s\<lparr>mem := memset (mem s) p 0 4096\<rparr>)) (\<lambda>_.
     bind (modify (\<lambda>s. s\<lparr>mem := st64 (mem s) (pagetable + 8 * PX (Suc level) va)
             (PA2PTE p OR PTE_V)\<rparr>)) (\<lambda>_.
     walk_loop level p va alloc))))"

definition walk :: "u64 \<Rightarrow> u64 \<Rightarrow> bool \<Rightarrow> ('x kmach_scheme, u64) kfun" where
  "walk pagetable va alloc =
     (if MAXVA \<le> va then panic ''walk'' else walk_loop 2 pagetable va alloc)"

definition walkaddr :: "u64 \<Rightarrow> u64 \<Rightarrow> ('x kmach_scheme, u64) kfun" where
  "walkaddr pagetable va =
     (if MAXVA \<le> va then ret 0 else
      bind (walk pagetable va False) (\<lambda>pte.
      if pte = 0 then ret 0 else
      bind (gets (\<lambda>s. ld64 (mem s) pte)) (\<lambda>e.
      if e AND PTE_V = 0 \<or> e AND PTE_U = 0 then ret 0 else ret (PTE2PA e))))"

text \<open>
  The \<open>for (;;)\<close> of \<open>mappages\<close> leaves when \<open>a\<close> reaches \<open>last\<close>; the first argument is the number of
  pages, which bounds the iterations. Running out of it is \<open>Hang\<close>; \<open>mappages\<close> starts it at
  \<open>size / PGSIZE\<close>, and never runs out.
\<close>

fun mappages_loop :: "nat \<Rightarrow> u64 \<Rightarrow> u64 \<Rightarrow> u64 \<Rightarrow> u64 \<Rightarrow> u64 \<Rightarrow> ('x kmach_scheme, int) kfun" where
  "mappages_loop 0 pagetable a lastva pa perm = hang"
| "mappages_loop (Suc n) pagetable a lastva pa perm =
     bind (walk pagetable a True) (\<lambda>pte.
     if pte = 0 then ret (- 1) else
     bind (gets (\<lambda>s. ld64 (mem s) pte)) (\<lambda>e.
     if e AND PTE_V \<noteq> 0 then panic ''mappages: remap'' else
     bind (modify (\<lambda>s. s\<lparr>mem := st64 (mem s) pte (PA2PTE pa OR perm OR PTE_V)\<rparr>)) (\<lambda>_.
     if a = lastva then ret 0
     else mappages_loop n pagetable (a + PGSIZE) lastva (pa + PGSIZE) perm)))"

declare mappages_loop.simps(2) [simp del]

definition mappages :: "u64 \<Rightarrow> u64 \<Rightarrow> u64 \<Rightarrow> u64 \<Rightarrow> u64 \<Rightarrow> ('x kmach_scheme, int) kfun" where
  "mappages pagetable va sz pa perm =
     (if va mod PGSIZE \<noteq> 0 then panic ''mappages: va not aligned''
      else if sz mod PGSIZE \<noteq> 0 then panic ''mappages: size not aligned''
      else if sz = 0 then panic ''mappages: size''
      else mappages_loop (unat sz div 4096) pagetable va (va + sz - PGSIZE) pa perm)"

definition kvmmap :: "u64 \<Rightarrow> u64 \<Rightarrow> u64 \<Rightarrow> u64 \<Rightarrow> u64 \<Rightarrow> ('x kmach_scheme, unit) kfun" where
  "kvmmap kpgtbl va pa sz perm =
     bind (mappages kpgtbl va sz pa perm) (\<lambda>r. if r \<noteq> 0 then panic ''kvmmap'' else ret ())"

definition uvmcreate :: "('x kmach_scheme, u64) kfun" where
  "uvmcreate =
     bind kalloc (\<lambda>pagetable.
     if pagetable = 0 then ret 0 else
     bind (modify (\<lambda>s. s\<lparr>mem := memset (mem s) pagetable 0 4096\<rparr>)) (\<lambda>_.
     ret pagetable))"

definition uvmclear :: "u64 \<Rightarrow> u64 \<Rightarrow> ('x kmach_scheme, unit) kfun" where
  "uvmclear pagetable va =
     bind (walk pagetable va False) (\<lambda>pte.
     if pte = 0 then panic ''uvmclear'' else
     modify (\<lambda>s. s\<lparr>mem := st64 (mem s) pte (ld64 (mem s) pte AND NOT PTE_U)\<rparr>))"

text \<open>
  \<open>freewalk\<close> recurses with no bound in the source; on a table with more than three levels, or a
  cycle, it would not stop. The first argument is the level of the table it is called on; a valid
  non-leaf entry in a table of level 0 is \<open>Hang\<close>. \<open>freewalk_entry\<close> is the body of its loop, with the
  recursive call as an argument.
\<close>

definition freewalk_entry ::
  "(u64 \<Rightarrow> ('x kmach_scheme, unit) kfun) \<Rightarrow> u64 \<Rightarrow> nat \<Rightarrow> ('x kmach_scheme, unit) kfun" where
  "freewalk_entry rec pagetable i =
     bind (gets (\<lambda>s. ld64 (mem s) (pagetable + of_nat (8 * i)))) (\<lambda>pte.
     if pte AND PTE_V \<noteq> 0 \<and> pte AND (PTE_R OR PTE_W OR PTE_X) = 0 then
       bind (rec (PTE2PA pte)) (\<lambda>_.
       modify (\<lambda>s. s\<lparr>mem := st64 (mem s) (pagetable + of_nat (8 * i)) 0\<rparr>))
     else if pte AND PTE_V \<noteq> 0 then panic ''freewalk: leaf''
     else ret ())"

fun freewalk :: "nat \<Rightarrow> u64 \<Rightarrow> ('x kmach_scheme, unit) kfun" where
  "freewalk 0 pagetable =
     bind (foreach [0..<512] (freewalk_entry (\<lambda>_. hang) pagetable)) (\<lambda>_. kfree pagetable)"
| "freewalk (Suc level) pagetable =
     bind (foreach [0..<512] (freewalk_entry (\<lambda>p. freewalk level p) pagetable)) (\<lambda>_. kfree pagetable)"

section \<open>Page-table entries and indices\<close>

definition vld :: "u64 \<Rightarrow> bool" where
  "vld e \<longleftrightarrow> e AND PTE_V \<noteq> 0"

lemma and_1_iff: "(e :: u64) AND 1 = 0 \<longleftrightarrow> \<not> bit e 0"
  by (simp add: bit_0 and_one_eq even_iff_mod_2_eq_zero)

lemma vld_iff_bit: "vld e \<longleftrightarrow> bit e 0"
  using and_1_iff[of e] by (simp add: vld_def PTE_V_def)

lemma vld_0 [simp]: "\<not> vld 0"
  by (simp add: vld_def)

lemma vld_OR_V [simp]: "vld (e OR PTE_V)" "vld (e OR f OR PTE_V)"
  by (simp_all add: vld_iff_bit PTE_V_def bit_or_iff)

lemma push_drop_aligned:
  assumes "page_aligned p"
  shows "push_bit 12 (drop_bit 12 p) = p"
proof -
  have "unat (take_bit 12 p) = unat p mod 4096"
    by (simp only: unsigned_take_bit_eq) (simp add: take_bit_eq_mod)
  then have "take_bit 12 p = 0"
    using assms by (simp add: page_aligned_def word_unat_eq_iff)
  then show ?thesis
    using bits_ident[of 12 p] by simp
qed

lemma PTE2PA_PA2PTE:
  assumes "page_aligned p" and "f < 1024"
  shows "PTE2PA (PA2PTE p OR f) = p"
proof -
  have "unat (drop_bit 10 f) = unat f div 1024"
    by (simp only: unat_drop_bit_eq) (simp add: drop_bit_eq_div)
  then have f: "drop_bit 10 f = 0"
    using assms(2) by (simp only: word_unat_eq_iff word_less_nat_alt) simp
  have "drop_bit 10 (push_bit 10 (drop_bit 12 p)) = drop_bit 12 p"
    by (rule bit_eqI) (auto simp: bit_drop_bit_eq bit_push_bit_iff dest: bit_imp_possible_bit)
  then have "PTE2PA (PA2PTE p OR f) = push_bit 12 (drop_bit 12 p)"
    by (simp only: PTE2PA_def PA2PTE_def drop_bit_or f or.right_neutral)
  with push_drop_aligned[OF assms(1)] show ?thesis by simp
qed

lemma PTE2PA_PA2PTE_V: "page_aligned p \<Longrightarrow> PTE2PA (PA2PTE p OR PTE_V) = p"
  by (rule PTE2PA_PA2PTE) (simp_all add: PTE_V_def)

text \<open>An entry that points to a table, which \<open>freewalk\<close> recognises by its clear permission bits.\<close>

definition ptr_pte :: "u64 \<Rightarrow> bool" where
  "ptr_pte e \<longleftrightarrow> e AND (PTE_R OR PTE_W OR PTE_X) = 0"

lemma ptr_pte_PA2PTE: "ptr_pte (PA2PTE p OR PTE_V)"
proof -
  have m: "PTE_R OR PTE_W OR PTE_X = (14 :: u64)"
    by (simp add: PTE_R_def PTE_W_def PTE_X_def)
  have "PA2PTE p AND 14 = take_bit 10 (PA2PTE p) AND 14"
    by (rule bit_eqI) (auto simp: bit_and_iff bit_take_bit_iff bit_numeral_rec bit_1_iff split: nat.splits)
  also have "take_bit 10 (PA2PTE p) = 0"
    by (simp add: PA2PTE_def take_bit_push_bit)
  finally have "PA2PTE p AND 14 = 0" by simp
  moreover have "PTE_V AND 14 = 0"
    by (simp add: PTE_V_def)
  ultimately show ?thesis
    unfolding ptr_pte_def m by (simp add: bit.conj_disj_distrib2)
qed

abbreviation vpn :: "nat \<Rightarrow> u64 \<Rightarrow> nat" where
  "vpn level va \<equiv> unat (PX level va)"

lemma vpn_eq: "vpn l va = unat va div 2 ^ (12 + 9 * l) mod 512"
proof -
  have "(0x1FF :: u64) = mask 9" by (simp add: mask_eq_exp_minus_1)
  then have "PX l va = take_bit 9 (drop_bit (12 + 9 * l) va)"
    by (simp only: PX_def PXSHIFT_def take_bit_eq_mask)
  then show ?thesis
    by (simp only: unsigned_take_bit_eq unat_drop_bit_eq) (simp add: take_bit_eq_mod drop_bit_eq_div)
qed

lemma vpn_less [simp]: "vpn l va < 512"
  by (simp add: vpn_eq)

text \<open>The address of the \<open>i\<close>th entry of a table.\<close>

definition pte_addr :: "u64 \<Rightarrow> nat \<Rightarrow> u64" where
  "pte_addr pg i = pg + of_nat (8 * i)"

lemma PX_addr: "pg + 8 * PX l va = pte_addr pg (vpn l va)"
  by (simp add: pte_addr_def word_of_unat)

section \<open>Page tables as trees\<close>

definition pte_at :: "mem \<Rightarrow> u64 \<Rightarrow> nat \<Rightarrow> u64" where
  "pte_at m pg i = ld64 m (pte_addr pg i)"

lemma pte_at_st_same [simp]: "pte_at (st64 m (pte_addr pg i) v) pg i = v"
  by (simp add: pte_at_def)

lemma pte_at_st_other:
  assumes "page_aligned pg" and "i < 512" and "j < 512" and "i \<noteq> j"
  shows "pte_at (st64 m (pte_addr pg i) v) pg j = pte_at m pg j"
  unfolding pte_at_def
proof (rule ld64_st64_other)
  fix n :: nat assume "n < 8"
  have "unat (pte_addr pg i) = unat pg + 8 * i"
    unfolding pte_addr_def using assms by (intro page_add_unat) simp_all
  moreover have "unat (pte_addr pg j + of_nat n) = unat pg + (8 * j + n)"
    unfolding pte_addr_def using assms \<open>n < 8\<close> page_add_unat[of pg "8 * j + n"]
    by (simp add: add.assoc)
  ultimately show "\<not> in_range (pte_addr pg i) 8 (pte_addr pg j + of_nat n)"
    using assms \<open>n < 8\<close> page_aligned_add_le[OF assms(1)] by (subst in_range_unat) auto
qed

lemma only_pages_st_pte: "i < 512 \<Longrightarrow> only_pages {pg} m (st64 m (pte_addr pg i) v)"
  unfolding pte_addr_def by (rule only_pages_st64) simp

definition kid :: "mem \<Rightarrow> u64 \<Rightarrow> nat \<Rightarrow> u64 option" where
  "kid m pg i = (if vld (pte_at m pg i) then Some (PTE2PA (pte_at m pg i)) else None)"

text \<open>The pages of a table, and what it takes for them to form a tree.\<close>

fun tset :: "mem \<Rightarrow> nat \<Rightarrow> u64 \<Rightarrow> u64 set" where
  "tset m 0 pg = {pg}"
| "tset m (Suc l) pg = insert pg (\<Union>i<512. case kid m pg i of None \<Rightarrow> {} | Some c \<Rightarrow> tset m l c)"

fun tree :: "u64 \<Rightarrow> mem \<Rightarrow> nat \<Rightarrow> u64 \<Rightarrow> bool" where
  "tree e m 0 pg = page_ok e pg"
| "tree e m (Suc l) pg = (page_ok e pg \<and> (\<forall>i<512. \<forall>c. kid m pg i = Some c \<longrightarrow>
     ptr_pte (pte_at m pg i) \<and> tree e m l c \<and> pg \<notin> tset m l c \<and>
     (\<forall>j<512. \<forall>d. j \<noteq> i \<longrightarrow> kid m pg j = Some d \<longrightarrow> tset m l c \<inter> tset m l d = {})))"

text \<open>Where the leaf entry of an address is, and the entry itself (0 when a table is missing).\<close>

fun leaf_addr :: "mem \<Rightarrow> nat \<Rightarrow> u64 \<Rightarrow> u64 \<Rightarrow> u64 option" where
  "leaf_addr m 0 pg va = Some (pte_addr pg (vpn 0 va))"
| "leaf_addr m (Suc l) pg va =
     (case kid m pg (vpn (Suc l) va) of None \<Rightarrow> None | Some c \<Rightarrow> leaf_addr m l c va)"

definition lkup :: "mem \<Rightarrow> nat \<Rightarrow> u64 \<Rightarrow> u64 \<Rightarrow> u64" where
  "lkup m l pg va = (case leaf_addr m l pg va of None \<Rightarrow> 0 | Some a \<Rightarrow> ld64 m a)"

lemma lkup_leaf: "leaf_addr m l pg va = Some a \<Longrightarrow> lkup m l pg va = ld64 m a"
  by (simp add: lkup_def)

lemma lkup_0: "lkup m 0 pg va = pte_at m pg (vpn 0 va)"
  by (simp add: lkup_def pte_at_def)

lemma lkup_Suc:
  "lkup m (Suc l) pg va = (case kid m pg (vpn (Suc l) va) of None \<Rightarrow> 0 | Some c \<Rightarrow> lkup m l c va)"
  by (simp add: lkup_def split: option.splits)

lemma tset_Suc_iff:
  "x \<in> tset m (Suc l) pg \<longleftrightarrow> x = pg \<or> (\<exists>i<512. \<exists>c. kid m pg i = Some c \<and> x \<in> tset m l c)"
  by (force split: option.splits)

lemma tree_SucI:
  assumes "page_ok e pg"
    and "\<And>i c. i < 512 \<Longrightarrow> kid m pg i = Some c \<Longrightarrow>
           ptr_pte (pte_at m pg i) \<and> tree e m l c \<and> pg \<notin> tset m l c"
    and "\<And>i j c d. i < 512 \<Longrightarrow> j < 512 \<Longrightarrow> i \<noteq> j \<Longrightarrow> kid m pg i = Some c \<Longrightarrow> kid m pg j = Some d \<Longrightarrow>
           tset m l c \<inter> tset m l d = {}"
  shows "tree e m (Suc l) pg"
  using assms by simp

lemma tree_kid: "tree e m (Suc l) pg \<Longrightarrow> i < 512 \<Longrightarrow> kid m pg i = Some c \<Longrightarrow> tree e m l c"
  by simp

lemma tree_kid_ptr: "tree e m (Suc l) pg \<Longrightarrow> i < 512 \<Longrightarrow> kid m pg i = Some c \<Longrightarrow> ptr_pte (pte_at m pg i)"
  by simp

lemma tree_kid_root: "tree e m (Suc l) pg \<Longrightarrow> i < 512 \<Longrightarrow> kid m pg i = Some c \<Longrightarrow> pg \<notin> tset m l c"
  by simp

lemma tree_kids_disjoint:
  "tree e m (Suc l) pg \<Longrightarrow> i < 512 \<Longrightarrow> j < 512 \<Longrightarrow> i \<noteq> j \<Longrightarrow>
   kid m pg i = Some c \<Longrightarrow> kid m pg j = Some d \<Longrightarrow> tset m l c \<inter> tset m l d = {}"
  by simp

lemma tree_root: "tree e m l pg \<Longrightarrow> page_ok e pg"
  by (cases l) simp_all

lemma tset_root: "pg \<in> tset m l pg"
  by (cases l) simp_all

declare tset.simps(2) [simp del] and tree.simps(2) [simp del]

lemma tset_kid: "i < 512 \<Longrightarrow> kid m pg i = Some c \<Longrightarrow> tset m l c \<subseteq> tset m (Suc l) pg"
  unfolding subset_iff tset_Suc_iff by blast

lemma tree_tset: "tree e m l pg \<Longrightarrow> p \<in> tset m l pg \<Longrightarrow> page_ok e p"
proof (induction l arbitrary: pg)
  case (Suc l)
  then show ?case
    unfolding tset_Suc_iff using tree_root tree_kid by blast
qed simp

lemma tree_aligned: "tree e m l pg \<Longrightarrow> \<forall>p\<in>tset m l pg. page_aligned p"
  using tree_tset page_okD by blast

lemma pte_at_frame:
  assumes "only_pages P m m'" and "\<forall>p\<in>P. page_aligned p" and "page_aligned pg" and "pg \<notin> P" and "i < 512"
  shows "pte_at m' pg i = pte_at m pg i"
  unfolding pte_at_def pte_addr_def using assms(5) by (intro only_pages_ld64[OF assms(1-4)]) simp

lemma kid_frame:
  assumes "only_pages P m m'" and "\<forall>p\<in>P. page_aligned p" and "page_aligned pg" and "pg \<notin> P" and "i < 512"
  shows "kid m' pg i = kid m pg i"
  by (simp add: kid_def pte_at_frame[OF assms])

text \<open>A change of memory outside the pages of a table leaves the table as it was.\<close>

lemma table_frame:
  assumes "only_pages P m m'" and "\<forall>p\<in>P. page_aligned p"
    and "tree e m l pg" and "tset m l pg \<inter> P = {}"
  shows "tset m' l pg = tset m l pg" and "tree e m' l pg"
    and "leaf_addr m' l pg va = leaf_addr m l pg va" and "lkup m' l pg va = lkup m l pg va"
proof -
  have "tset m' l pg = tset m l pg \<and> tree e m' l pg \<and>
        leaf_addr m' l pg va = leaf_addr m l pg va \<and> lkup m' l pg va = lkup m l pg va"
    using assms(3,4)
  proof (induction l arbitrary: pg)
    case 0
    then have "pte_at m' pg (vpn 0 va) = pte_at m pg (vpn 0 va)"
      by (intro pte_at_frame[OF assms(1,2)]) (auto simp: page_ok_def)
    with 0 show ?case by (simp add: lkup_0)
  next
    case (Suc l)
    note root = tree_root[OF Suc.prems(1)]
    have ptes: "pte_at m' pg i = pte_at m pg i" if "i < 512" for i
      using that root Suc.prems(2) tset_root[of pg m "Suc l"]
      by (intro pte_at_frame[OF assms(1,2)]) (auto simp: page_ok_def)
    then have kids: "kid m' pg i = kid m pg i" if "i < 512" for i
      using that by (simp add: kid_def)
    have IH: "tset m' l c = tset m l c \<and> tree e m' l c \<and>
        leaf_addr m' l c va = leaf_addr m l c va \<and> lkup m' l c va = lkup m l c va"
      if "i < 512" "kid m pg i = Some c" for i c
      using Suc.prems(2) tree_kid[OF Suc.prems(1) that] tset_kid[OF that, of l]
      by (intro Suc.IH) blast+
    have "x \<in> tset m' (Suc l) pg \<longleftrightarrow> x \<in> tset m (Suc l) pg" for x
      unfolding tset_Suc_iff using IH kids by metis
    moreover have "tree e m' (Suc l) pg"
    proof (rule tree_SucI[OF root])
      show "ptr_pte (pte_at m' pg i) \<and> tree e m' l c \<and> pg \<notin> tset m' l c"
        if "i < 512" "kid m' pg i = Some c" for i c
        using that IH kids ptes tree_kid_ptr[OF Suc.prems(1)] tree_kid_root[OF Suc.prems(1)] by simp
      show "tset m' l c \<inter> tset m' l d = {}"
        if "i < 512" "j < 512" "i \<noteq> j" "kid m' pg i = Some c" "kid m' pg j = Some d" for i j c d
        using that IH kids tree_kids_disjoint[OF Suc.prems(1)] by simp
    qed
    moreover have "leaf_addr m' (Suc l) pg va = leaf_addr m (Suc l) pg va"
      using IH[of "vpn (Suc l) va"] by (simp add: kids split: option.splits)
    moreover have "lkup m' (Suc l) pg va = lkup m (Suc l) pg va"
      using IH[of "vpn (Suc l) va"] by (simp add: lkup_Suc kids split: option.splits)
    ultimately show ?case by blast
  qed
  then show "tset m' l pg = tset m l pg" "tree e m' l pg"
    "leaf_addr m' l pg va = leaf_addr m l pg va" "lkup m' l pg va = lkup m l pg va"
    by auto
qed

text \<open>
  Replacing the \<open>k\<close>th subtable of a table by one built from the old one and pages from outside
  the table.
\<close>

lemma tree_replace_kid:
  assumes "tree e m (Suc l) pg" and "k < 512"
    and old: "\<And>i c. i < 512 \<Longrightarrow> i \<noteq> k \<Longrightarrow> kid m pg i = Some c \<Longrightarrow> tree e m' l c \<and> tset m' l c = tset m l c"
    and ptes: "\<And>i. i < 512 \<Longrightarrow> i \<noteq> k \<Longrightarrow> pte_at m' pg i = pte_at m pg i"
    and new: "kid m' pg k = Some c'" "tree e m' l c'" "tset m' l c' = T \<union> N"
    and ptr: "ptr_pte (pte_at m' pg k)"
    and T: "T = (case kid m pg k of None \<Rightarrow> {} | Some c \<Rightarrow> tset m l c)"
    and N: "N \<inter> tset m (Suc l) pg = {}"
  shows "tree e m' (Suc l) pg" and "tset m' (Suc l) pg = tset m (Suc l) pg \<union> N"
proof -
  have kids: "kid m' pg i = kid m pg i" if "i < 512" "i \<noteq> k" for i
    using ptes[OF that] by (simp add: kid_def)
  have pg: "pg \<notin> T" "pg \<notin> N"
    using T N tset_root[of pg m "Suc l"] tree_kid_root[OF assms(1,2)] by (auto split: option.splits)
  have Tdisj: "T \<inter> tset m l c = {}" "N \<inter> tset m l c = {}"
    if "i < 512" "i \<noteq> k" "kid m pg i = Some c" for i c
  proof -
    show "T \<inter> tset m l c = {}"
    proof (cases "kid m pg k")
      case (Some d)
      then show ?thesis
        using T that tree_kids_disjoint[OF assms(1,2) that(1) _ Some that(3)] by simp
    qed (simp add: T)
    show "N \<inter> tset m l c = {}"
      using N tset_kid[OF that(1,3), of l] by blast
  qed
  show "tree e m' (Suc l) pg"
  proof (rule tree_SucI[OF tree_root[OF assms(1)]])
    show "ptr_pte (pte_at m' pg i) \<and> tree e m' l c \<and> pg \<notin> tset m' l c"
      if "i < 512" "kid m' pg i = Some c" for i c
    proof (cases "i = k")
      case True
      with that new pg ptr show ?thesis by simp
    next
      case False
      with that old kids ptes tree_kid_ptr[OF assms(1)] tree_kid_root[OF assms(1)] show ?thesis by simp
    qed
    show "tset m' l c \<inter> tset m' l d = {}"
      if "i < 512" "j < 512" "i \<noteq> j" "kid m' pg i = Some c" "kid m' pg j = Some d" for i j c d
    proof -
      have "tset m' l c' \<inter> tset m' l x = {}" if "h < 512" "h \<noteq> k" "kid m' pg h = Some x" for h x
        using that new(3) old[of h x] kids[of h] Tdisj[of h x] by (simp add: Int_Un_distrib2)
      moreover have "tset m' l c \<inter> tset m' l d = {}" if "i \<noteq> k" "j \<noteq> k"
        using that \<open>i < 512\<close> \<open>j < 512\<close> \<open>i \<noteq> j\<close> \<open>kid m' pg i = Some c\<close> \<open>kid m' pg j = Some d\<close>
          old kids tree_kids_disjoint[OF assms(1), of i j c d] by simp
      ultimately show ?thesis
        using that new(1) by (cases "i = k"; cases "j = k") (auto simp: Int_commute)
    qed
  qed
  have "x \<in> tset m' (Suc l) pg \<longleftrightarrow> x \<in> tset m (Suc l) pg \<union> N" for x
  proof -
    have "(\<exists>c. kid m' pg i = Some c \<and> x \<in> tset m' l c) \<longleftrightarrow> (\<exists>c. kid m pg i = Some c \<and> x \<in> tset m l c)"
      if "i < 512" "i \<noteq> k" for i
      using kids[OF that] old[OF that] by auto
    then have "(\<exists>i<512. \<exists>c. kid m' pg i = Some c \<and> x \<in> tset m' l c) \<longleftrightarrow>
        (\<exists>c. kid m' pg k = Some c \<and> x \<in> tset m' l c) \<or>
        (\<exists>i<512. i \<noteq> k \<and> (\<exists>c. kid m pg i = Some c \<and> x \<in> tset m l c))"
      using assms(2) by blast
    moreover have "(\<exists>c. kid m' pg k = Some c \<and> x \<in> tset m' l c) \<longleftrightarrow> x \<in> tset m' l c'"
      using new(1) by simp
    moreover have "(\<exists>i<512. \<exists>c. kid m pg i = Some c \<and> x \<in> tset m l c) \<longleftrightarrow>
        x \<in> T \<or> (\<exists>i<512. i \<noteq> k \<and> (\<exists>c. kid m pg i = Some c \<and> x \<in> tset m l c))"
      using assms(2) unfolding T by (auto split: option.splits)
    ultimately show ?thesis
      unfolding tset_Suc_iff Un_iff new(3) by blast
  qed
  then show "tset m' (Suc l) pg = tset m (Suc l) pg \<union> N" by blast
qed

text \<open>A page of zeros is an empty table at every level.\<close>

lemma zero_table:
  assumes "\<And>i. i < 512 \<Longrightarrow> pte_at m pg i = 0" and "page_ok e pg"
  shows "tset m l pg = {pg}" and "tree e m l pg" and "lkup m l pg va = 0"
proof -
  have k: "kid m pg i = None" if "i < 512" for i
    using assms(1)[OF that] by (simp add: kid_def)
  show "tset m l pg = {pg}"
  proof (cases l)
    case (Suc n)
    have "x \<in> tset m (Suc n) pg \<longleftrightarrow> x = pg" for x
      unfolding tset_Suc_iff using k by auto
    then show ?thesis unfolding Suc by blast
  qed simp
  show "tree e m l pg"
  proof (cases l)
    case (Suc n)
    show ?thesis unfolding Suc using assms(2) k by (intro tree_SucI) auto
  qed (use assms(2) in simp)
  show "lkup m l pg va = 0"
    by (cases l) (simp_all add: lkup_0 lkup_Suc assms(1) k)
qed

lemma le_val_zeros: "le_val (replicate n 0) = 0"
  by (induction n) simp_all

lemma ld64_zero:
  assumes "\<And>i. i < 8 \<Longrightarrow> m (a + of_nat i) = 0"
  shows "ld64 m a = 0"
proof -
  have "ld_bytes m a 8 = replicate 8 0"
    using assms by (intro nth_equalityI) simp_all
  then show ?thesis by (simp add: ld64_def le_val_zeros)
qed

lemma memset_zero_pte: "i < 512 \<Longrightarrow> pte_at (memset m pg 0 4096) pg i = 0"
  unfolding pte_at_def pte_addr_def
proof (rule ld64_zero)
  fix j :: nat assume "i < 512" "j < 8"
  then have "in_page pg (pg + of_nat (8 * i + j))"
    by (intro in_page_add) simp
  then show "memset m pg 0 4096 (pg + of_nat (8 * i) + of_nat j) = 0"
    by (simp add: memset_page_at add.assoc)
qed

section \<open>Walking a table\<close>

lemma walk_loop_noalloc:
  "walk_loop l pg va False s = Done (case leaf_addr (mem s) l pg va of None \<Rightarrow> 0 | Some a \<Rightarrow> a) s"
proof (induction l arbitrary: pg)
  case 0
  show ?case by (simp add: PX_addr)
next
  case (Suc l)
  show ?case
    using Suc.IH by (simp add: PX_addr kid_def pte_at_def vld_def)
qed

lemma walk_loop_present:
  "leaf_addr (mem s) l pg va = Some a \<Longrightarrow> walk_loop l pg va alloc s = Done a s"
proof (induction l arbitrary: pg)
  case 0
  then show ?case by (simp add: PX_addr)
next
  case (Suc l)
  then show ?case
    by (auto simp: PX_addr kid_def pte_at_def vld_def split: option.splits if_splits)
qed

lemma leaf_addr_page:
  "tree e m l pg \<Longrightarrow> leaf_addr m l pg va = Some a \<Longrightarrow>
   \<exists>q\<in>tset m l pg. page_ok e q \<and> a = pte_addr q (vpn 0 va)"
proof (induction l arbitrary: pg)
  case 0
  then show ?case by simp
next
  case (Suc l)
  then obtain c where "kid m pg (vpn (Suc l) va) = Some c" "leaf_addr m l c va = Some a"
    by (auto split: option.splits)
  with Suc.IH[of c] tree_kid[OF Suc.prems(1) vpn_less] tset_kid[OF vpn_less, of m pg "Suc l" va c l]
  show ?case by blast
qed

lemma leaf_addr_nonzero:
  assumes "tree e m l pg" and "0 < e" and "leaf_addr m l pg va = Some a"
  shows "a \<noteq> 0"
proof -
  obtain q where q: "page_ok e q" "a = pte_addr q (vpn 0 va)"
    using leaf_addr_page[OF assms(1,3)] by blast
  have "unat a = unat q + 8 * vpn 0 va"
    unfolding q(2) pte_addr_def using vpn_less[of 0 va] by (intro page_add_unat page_okD[OF q(1)]) simp
  moreover have "0 < unat q"
    using page_ok_nonzero[OF q(1) assms(2)] by (simp add: word_neq_0_iff_unat)
  ultimately show ?thesis
    by (simp add: word_neq_0_iff_unat)
qed

text \<open>The state in which a table and the free pages are disjoint, and what a walk may do to it.\<close>

definition vm_ok :: "'x kmach_scheme \<Rightarrow> u64 list \<Rightarrow> nat \<Rightarrow> u64 \<Rightarrow> bool" where
  "vm_ok s xs l pg \<longleftrightarrow> kmem_inv s xs \<and> KmemLock \<notin> held s \<and> tree (kend s) (mem s) l pg \<and>
     tset (mem s) l pg \<inter> set xs = {}"

definition same_regs :: "'x kmach_scheme \<Rightarrow> 'x kmach_scheme \<Rightarrow> bool" where
  "same_regs s t \<longleftrightarrow> (\<exists>m f. t = s\<lparr>mem := m, freelist := f\<rparr>)"

lemma same_regs_refl [simp]: "same_regs s s"
proof -
  have "s = s\<lparr>mem := mem s, freelist := freelist s\<rparr>" by simp
  then show ?thesis unfolding same_regs_def by blast
qed

lemma same_regs_upd [simp]:
  "same_regs s (s\<lparr>mem := m\<rparr>)" "same_regs s (s\<lparr>freelist := f, mem := m\<rparr>)"
  "same_regs s (s\<lparr>mem := m, freelist := f\<rparr>)"
proof -
  have "s\<lparr>mem := m\<rparr> = s\<lparr>mem := m, freelist := freelist s\<rparr>"
    "s\<lparr>freelist := f, mem := m\<rparr> = s\<lparr>mem := m, freelist := f\<rparr>" by simp_all
  then show "same_regs s (s\<lparr>mem := m\<rparr>)" "same_regs s (s\<lparr>freelist := f, mem := m\<rparr>)"
    "same_regs s (s\<lparr>mem := m, freelist := f\<rparr>)"
    unfolding same_regs_def by blast+
qed

lemma same_regs_trans:
  assumes "same_regs s t" and "same_regs t u"
  shows "same_regs s u"
proof -
  obtain m f where t: "t = s\<lparr>mem := m, freelist := f\<rparr>"
    using assms(1) by (auto simp: same_regs_def)
  obtain m' f' where "u = t\<lparr>mem := m', freelist := f'\<rparr>"
    using assms(2) by (auto simp: same_regs_def)
  then have "u = s\<lparr>mem := m', freelist := f'\<rparr>"
    unfolding t by simp
  then show ?thesis unfolding same_regs_def by blast
qed

lemma same_regsD: "same_regs s t \<Longrightarrow> held t = held s" "same_regs s t \<Longrightarrow> kend t = kend s"
  unfolding same_regs_def by auto

definition tbl_ext :: "'x kmach_scheme \<Rightarrow> u64 list \<Rightarrow> 'x kmach_scheme \<Rightarrow> u64 list \<Rightarrow> nat \<Rightarrow> u64 \<Rightarrow> bool" where
  "tbl_ext s xs t ys l pg \<longleftrightarrow> vm_ok t ys l pg \<and> same_regs s t \<and>
     (\<exists>new. xs = new @ ys \<and> tset (mem t) l pg = tset (mem s) l pg \<union> set new \<and>
        only_pages (tset (mem s) l pg \<union> set new) (mem s) (mem t))"

definition grown :: "'x kmach_scheme \<Rightarrow> u64 list \<Rightarrow> 'x kmach_scheme \<Rightarrow> u64 list \<Rightarrow> nat \<Rightarrow> u64 \<Rightarrow> bool" where
  "grown s xs t ys l pg \<longleftrightarrow> tbl_ext s xs t ys l pg \<and>
     (\<forall>va. lkup (mem t) l pg va = lkup (mem s) l pg va)"

lemma tbl_extI:
  assumes "vm_ok t ys l pg" and "same_regs s t" and "xs = new @ ys"
    and "tset (mem t) l pg = tset (mem s) l pg \<union> set new"
    and "only_pages (tset (mem s) l pg \<union> set new) (mem s) (mem t)"
  shows "tbl_ext s xs t ys l pg"
  unfolding tbl_ext_def using assms(1,2) by (intro conjI exI[of _ new] assms(3-5)) simp_all

lemma tbl_extE:
  assumes "tbl_ext s xs t ys l pg"
  obtains new where "vm_ok t ys l pg" "same_regs s t" "xs = new @ ys"
    "tset (mem t) l pg = tset (mem s) l pg \<union> set new"
    "only_pages (tset (mem s) l pg \<union> set new) (mem s) (mem t)"
  using assms unfolding tbl_ext_def by blast

lemma tbl_ext_ok: "tbl_ext s xs t ys l pg \<Longrightarrow> vm_ok t ys l pg"
  by (simp add: tbl_ext_def)

lemma tbl_ext_refl: "vm_ok s xs l pg \<Longrightarrow> tbl_ext s xs s xs l pg"
  by (simp add: tbl_ext_def)

lemma tbl_ext_trans:
  assumes "tbl_ext s xs t ys l pg" and "tbl_ext t ys u zs l pg"
  shows "tbl_ext s xs u zs l pg"
proof -
  obtain n1 where "vm_ok t ys l pg" and t1: "same_regs s t"
    and n1: "xs = n1 @ ys" "tset (mem t) l pg = tset (mem s) l pg \<union> set n1"
      "only_pages (tset (mem s) l pg \<union> set n1) (mem s) (mem t)"
    using assms(1) by (rule tbl_extE)
  obtain n2 where u: "vm_ok u zs l pg" "same_regs t u"
    and n2: "ys = n2 @ zs" "tset (mem u) l pg = tset (mem t) l pg \<union> set n2"
      "only_pages (tset (mem t) l pg \<union> set n2) (mem t) (mem u)"
    using assms(2) by (rule tbl_extE)
  have "only_pages (tset (mem s) l pg \<union> set (n1 @ n2)) (mem s) (mem u)"
    using only_pages_trans_Un[OF n1(3) n2(3)] unfolding n1(2) by (simp add: ac_simps)
  moreover have "xs = (n1 @ n2) @ zs" "tset (mem u) l pg = tset (mem s) l pg \<union> set (n1 @ n2)"
    using n1 n2 by auto
  ultimately show ?thesis
    using u same_regs_trans[OF t1 u(2)] by (intro tbl_extI[where new = "n1 @ n2"]) simp_all
qed

lemma grownI:
  assumes "vm_ok t ys l pg" and "same_regs s t" and "xs = new @ ys"
    and "tset (mem t) l pg = tset (mem s) l pg \<union> set new"
    and "only_pages (tset (mem s) l pg \<union> set new) (mem s) (mem t)"
    and "\<And>va. lkup (mem t) l pg va = lkup (mem s) l pg va"
  shows "grown s xs t ys l pg"
  unfolding grown_def using assms(6) by (intro conjI tbl_extI[OF assms(1-5)]) simp

lemma grownE:
  assumes "grown s xs t ys l pg"
  obtains new where "vm_ok t ys l pg" "same_regs s t" "xs = new @ ys"
    "tset (mem t) l pg = tset (mem s) l pg \<union> set new"
    "only_pages (tset (mem s) l pg \<union> set new) (mem s) (mem t)"
    "\<forall>va. lkup (mem t) l pg va = lkup (mem s) l pg va"
  using assms unfolding grown_def by (blast elim: tbl_extE)

lemma grown_ok: "grown s xs t ys l pg \<Longrightarrow> vm_ok t ys l pg"
  by (simp add: grown_def tbl_ext_def)

lemma grown_refl: "vm_ok s xs l pg \<Longrightarrow> grown s xs s xs l pg"
  by (simp add: grown_def tbl_ext_refl)

lemma grown_trans: "grown s xs t ys l pg \<Longrightarrow> grown t ys u zs l pg \<Longrightarrow> grown s xs u zs l pg"
  unfolding grown_def using tbl_ext_trans by fastforce

lemma vm_ok_aligned:
  assumes "vm_ok s xs l pg"
  shows "\<forall>p\<in>tset (mem s) l pg \<union> set xs. page_aligned p"
  using assms tree_aligned unfolding vm_ok_def kmem_inv_def page_ok_def by blast

lemma vm_ok_kid:
  assumes "vm_ok s xs (Suc l) pg" and "k < 512" and "kid (mem s) pg k = Some c"
  shows "vm_ok s xs l c"
  using assms tree_kid[OF _ assms(2,3)] tset_kid[OF assms(2,3), of l] unfolding vm_ok_def by blast

text \<open>What happens inside one subtable, seen from the table above it.\<close>

lemma grown_kid:
  assumes ok: "vm_ok s xs (Suc l) pg" and k: "k < 512" "kid (mem s) pg k = Some c"
    and "grown s xs t ys l c"
  shows "grown s xs t ys (Suc l) pg" and "kid (mem t) pg k = Some c"
proof -
  obtain new where t: "vm_ok t ys l c" "same_regs s t"
    and new: "xs = new @ ys" "tset (mem t) l c = tset (mem s) l c \<union> set new"
      "only_pages (tset (mem s) l c \<union> set new) (mem s) (mem t)"
    and tl: "\<forall>va. lkup (mem t) l c va = lkup (mem s) l c va"
    using assms(4) by (rule grownE)
  have tr: "tree (kend s) (mem s) (Suc l) pg" and dj: "tset (mem s) (Suc l) pg \<inter> set xs = {}"
    using ok by (auto simp: vm_ok_def)
  note kend = same_regsD[OF t(2)]
  let ?P = "tset (mem s) l c \<union> set new"
  have al: "\<forall>p\<in>?P. page_aligned p"
    using vm_ok_aligned[OF vm_ok_kid[OF ok k]] new(1) by auto
  have root: "page_aligned pg" "pg \<notin> ?P"
    using tree_root[OF tr] tree_kid_root[OF tr k] tset_root[of pg "mem s" "Suc l"] dj new(1)
    by (auto simp: page_ok_def)
  have ptes: "pte_at (mem t) pg i = pte_at (mem s) pg i" if "i < 512" for i
    by (rule pte_at_frame[OF new(3) al root that])
  then have kids: "kid (mem t) pg i = kid (mem s) pg i" if "i < 512" for i
    using that by (simp add: kid_def)
  then show kc: "kid (mem t) pg k = Some c" using k by simp
  have away: "tset (mem s) l d \<inter> ?P = {}" if "i < 512" "i \<noteq> k" "kid (mem s) pg i = Some d" for i d
    using tree_kids_disjoint[OF tr that(1) k(1) that(2,3) k(2)] tset_kid[OF that(1,3), of l] dj new(1)
    by auto
  have old: "tree (kend s) (mem t) l d \<and> tset (mem t) l d = tset (mem s) l d"
    if "i < 512" "i \<noteq> k" "kid (mem s) pg i = Some d" for i d
    using table_frame(1,2)[OF new(3) al tree_kid[OF tr that(1,3)] away[OF that]] by simp
  have tc: "tree (kend s) (mem t) l c"
    using t(1) kend by (simp add: vm_ok_def)
  have N: "set new \<inter> tset (mem s) (Suc l) pg = {}"
    using dj new(1) by auto
  have T: "tset (mem s) l c = (case kid (mem s) pg k of None \<Rightarrow> {} | Some c \<Rightarrow> tset (mem s) l c)"
    using k by simp
  have pk: "ptr_pte (pte_at (mem t) pg k)"
    using ptes[OF k(1)] tree_kid_ptr[OF tr k] by simp
  note rk = tree_replace_kid[OF tr k(1) old ptes kc tc new(2) pk T N]
  have sub: "?P \<subseteq> tset (mem s) (Suc l) pg \<union> set new"
    using tset_kid[OF k, of l] by blast
  have lk: "lkup (mem t) (Suc l) pg va = lkup (mem s) (Suc l) pg va" for va
  proof (cases "kid (mem s) pg (vpn (Suc l) va)")
    case (Some d)
    then have "lkup (mem t) l d va = lkup (mem s) l d va"
      using tl k away[OF vpn_less _ Some]
        table_frame(4)[OF new(3) al tree_kid[OF tr vpn_less Some]]
      by (cases "vpn (Suc l) va = k") auto
    with Some kids show ?thesis by (simp add: lkup_Suc)
  qed (simp add: lkup_Suc kids)
  have "vm_ok t ys (Suc l) pg"
    using t(1) rk kend dj new(1) ok unfolding vm_ok_def kmem_inv_def by auto
  then show "grown s xs t ys (Suc l) pg"
    using t(2) new(1) rk(2) only_pages_mono[OF new(3) sub] lk by (intro grownI)
qed

text \<open>Hanging a fresh page of zeros into an empty slot of a table.\<close>

lemma grown_new_table:
  assumes ok: "vm_ok s (x # ys) (Suc l) pg" and k: "k < 512" "kid (mem s) pg k = None"
    and m1: "only_pages {x} (mem s) m1" and inv1: "kmem_inv (s\<lparr>freelist := f, mem := m1\<rparr>) ys"
  defines "m3 \<equiv> st64 (memset m1 x 0 4096) (pte_addr pg k) (PA2PTE x OR PTE_V)"
  shows "grown s (x # ys) (s\<lparr>freelist := f, mem := m3\<rparr>) ys (Suc l) pg" and "kid m3 pg k = Some x"
proof -
  define m2 where "m2 = memset m1 x 0 4096"
  have tr: "tree (kend s) (mem s) (Suc l) pg" and dj: "tset (mem s) (Suc l) pg \<inter> set (x # ys) = {}"
    and x: "page_ok (kend s) x" "x \<notin> set ys"
    using ok by (auto simp: vm_ok_def kmem_inv_def)
  have pg: "page_ok (kend s) pg" "pg \<noteq> x" "pg \<notin> set ys"
    using tree_root[OF tr] tset_root[of pg "mem s" "Suc l"] dj by auto
  note al = page_okD[OF x(1)] page_okD[OF pg(1)]
  have o12: "only_pages {x} (mem s) m2"
    unfolding m2_def by (rule only_pages_trans[OF m1 only_pages_memset])
  have o23: "only_pages {pg} m2 m3"
    unfolding m3_def m2_def[symmetric] using k(1) by (rule only_pages_st_pte)
  have o13: "only_pages {pg, x} (mem s) m3"
    using only_pages_trans_Un[OF o12 o23] by (simp add: insert_commute)
  have al2: "\<forall>p\<in>{pg, x}. page_aligned p" using al by simp
  show kk: "kid m3 pg k = Some x"
    by (simp add: kid_def m3_def PTE2PA_PA2PTE_V[OF al(1)])
  have ptes: "pte_at m3 pg i = pte_at (mem s) pg i" if "i < 512" "i \<noteq> k" for i
  proof -
    have "pte_at m3 pg i = pte_at m2 pg i"
      unfolding m3_def m2_def using that k(1) al(2) by (intro pte_at_st_other) auto
    also have "\<dots> = pte_at (mem s) pg i"
      using pg al that by (intro pte_at_frame[OF o12]) auto
    finally show ?thesis .
  qed
  then have kids: "kid m3 pg i = kid (mem s) pg i" if "i < 512" "i \<noteq> k" for i
    using that by (simp add: kid_def)
  have pk: "ptr_pte (pte_at m3 pg k)"
    by (simp add: m3_def ptr_pte_PA2PTE)
  have away: "tset (mem s) l d \<inter> {pg, x} = {}" if "i < 512" "kid (mem s) pg i = Some d" for i d
    using tree_kid_root[OF tr that] tset_kid[OF that, of l] dj by auto
  have old: "tree (kend s) m3 l d \<and> tset m3 l d = tset (mem s) l d"
    if "i < 512" "i \<noteq> k" "kid (mem s) pg i = Some d" for i d
    using table_frame(1,2)[OF o13 al2 tree_kid[OF tr that(1,3)] away[OF that(1,3)]] by simp
  have z: "pte_at m3 x i = 0" if "i < 512" for i
  proof -
    have "pte_at m3 x i = pte_at m2 x i"
      using pg al that by (intro pte_at_frame[OF o23]) auto
    then show ?thesis using memset_zero_pte[OF that] by (simp add: m2_def)
  qed
  note zt = zero_table[OF z x(1), of l]
  have T: "{} = (case kid (mem s) pg k of None \<Rightarrow> {} | Some c \<Rightarrow> tset (mem s) l c)"
    using k by simp
  have N: "{x} \<inter> tset (mem s) (Suc l) pg = {}" using dj by auto
  have c': "tset m3 l x = {} \<union> {x}" using zt(1) by simp
  note rk = tree_replace_kid[OF tr k(1) old ptes kk zt(2) c' pk T N]
  have lk: "lkup m3 (Suc l) pg va = lkup (mem s) (Suc l) pg va" for va
  proof (cases "vpn (Suc l) va = k")
    case True
    then show ?thesis using k(2) kk zt(3) by (simp add: lkup_Suc)
  next
    case False
    then show ?thesis
      using kids[OF vpn_less False] table_frame(4)[OF o13 al2 tree_kid[OF tr vpn_less] away[OF vpn_less]]
      by (simp add: lkup_Suc split: option.splits)
  qed
  have o1: "only_pages {pg, x} m1 m3"
    using only_pages_trans_Un[OF only_pages_memset[of x m1 0, folded m2_def] o23]
    by (simp add: insert_commute)
  have "kmem_inv (s\<lparr>freelist := f, mem := m3\<rparr>) ys"
    using kmem_inv_frame[OF inv1, of "{pg, x}" m3] o1 al2 x(2) pg(3) by simp
  then have "vm_ok (s\<lparr>freelist := f, mem := m3\<rparr>) ys (Suc l) pg"
    using rk dj x(2) ok unfolding vm_ok_def by auto
  moreover have "only_pages (tset (mem s) (Suc l) pg \<union> set [x]) (mem s) m3"
    by (rule only_pages_mono[OF o13]) (use tset_root[of pg "mem s" "Suc l"] in auto)
  ultimately show "grown s (x # ys) (s\<lparr>freelist := f, mem := m3\<rparr>) ys (Suc l) pg"
    using rk(2) lk by (intro grownI[where new = "[x]"]) simp_all
qed

text \<open>
  An allocating walk keeps every translation, takes what it needs from the front of the free list,
  and fails only when the free list is exhausted.
\<close>

definition walk_post ::
  "'x kmach_scheme \<Rightarrow> u64 list \<Rightarrow> nat \<Rightarrow> u64 \<Rightarrow> u64 \<Rightarrow> u64 \<Rightarrow> 'x kmach_scheme \<Rightarrow> bool" where
  "walk_post s xs l pg va a t \<longleftrightarrow> (\<exists>ys. grown s xs t ys l pg \<and>
     (if a = 0 then ys = [] else leaf_addr (mem t) l pg va = Some a))"

lemma walk_post_kid:
  assumes "vm_ok s xs (Suc l) pg" and "kid (mem s) pg (vpn (Suc l) va) = Some c"
    and "walk_post s xs l c va a t"
  shows "walk_post s xs (Suc l) pg va a t"
proof -
  obtain ys where g: "grown s xs t ys l c" and a: "if a = 0 then ys = [] else leaf_addr (mem t) l c va = Some a"
    using assms(3) by (auto simp: walk_post_def)
  note gk = grown_kid[OF assms(1) vpn_less assms(2) g]
  then show ?thesis
    using a unfolding walk_post_def by (intro exI[of _ ys]) simp
qed

lemma walk_post_trans:
  assumes "grown s xs t ys l pg" and "walk_post t ys l pg va a u"
  shows "walk_post s xs l pg va a u"
  using assms grown_trans[OF assms(1)] unfolding walk_post_def by blast

lemma walk_loop_alloc:
  fixes s :: "'x kmach_scheme"
  assumes "vm_ok s xs l pg"
  shows "wp (walk_loop l pg va True) (walk_post s xs l pg va) s"
  using assms
proof (induction l arbitrary: s xs pg)
  case 0
  have "pte_addr pg (vpn 0 va) \<noteq> 0"
    using leaf_addr_nonzero[of "kend s" "mem s" 0 pg va] "0.prems"
    by (auto simp: vm_ok_def kmem_inv_def)
  with 0 show ?case
    unfolding walk_post_def by (auto simp: wp_rules PX_addr intro!: exI[of _ xs] grown_refl)
next
  case (Suc l)
  let ?k = "vpn (Suc l) va"
  have kid_case: "wp (walk_loop l c va True) (walk_post s xs (Suc l) pg va) s"
    if "vm_ok s xs (Suc l) pg" "kid (mem s) pg ?k = Some c" for s :: "'x kmach_scheme" and xs c
    by (rule wp_mono[OF Suc.IH[OF vm_ok_kid[OF that(1) vpn_less that(2)]]])
       (rule walk_post_kid[OF that])
  show ?case
  proof (cases "kid (mem s) pg ?k")
    case (Some c)
    then have "vld (pte_at (mem s) pg ?k)" "c = PTE2PA (pte_at (mem s) pg ?k)"
      by (auto simp: kid_def split: if_splits)
    then show ?thesis
      using kid_case[OF Suc.prems Some] unfolding walk_loop.simps PX_addr wp_bind wp_gets by (simp add: wp_if wp_bind pte_at_def vld_def)
  next
    case None
    then have inv: "\<not> vld (pte_at (mem s) pg ?k)"
      by (auto simp: kid_def split: if_splits)
    let ?rest = "\<lambda>p. if p = 0 then ret 0 else
         bind (modify (\<lambda>s. s\<lparr>mem := memset (mem s) p 0 4096\<rparr>)) (\<lambda>_.
         bind (modify (\<lambda>s. s\<lparr>mem := st64 (mem s) (pte_addr pg ?k) (PA2PTE p OR PTE_V)\<rparr>)) (\<lambda>_.
         walk_loop l p va True))"
    have "wp kalloc (\<lambda>p. wp (?rest p) (walk_post s xs (Suc l) pg va)) s"
    proof (rule wp_kalloc[of s xs])
      show "kmem_inv s xs" "KmemLock \<notin> held s"
        using Suc.prems by (auto simp: vm_ok_def)
      show "wp (?rest 0) (walk_post s xs (Suc l) pg va) s" if "xs = []"
        using grown_refl[OF Suc.prems] that by (auto simp: wp_rules walk_post_def)
      fix x ys m f
      assume A: "xs = x # ys" "kmem_inv (s\<lparr>freelist := f, mem := m\<rparr>) ys" "page_ok (kend s) x"
        "x \<noteq> 0" "only_pages {x} (mem s) m"
      let ?m3 = "st64 (memset m x 0 4096) (pte_addr pg ?k) (PA2PTE x OR PTE_V)"
      let ?t = "s\<lparr>freelist := f, mem := ?m3\<rparr>"
      note g = grown_new_table[OF Suc.prems[unfolded A(1)] vpn_less None A(5,2)]
      have "wp (walk_loop l x va True) (walk_post ?t ys (Suc l) pg va) ?t"
        using g by (intro kid_case grown_ok[OF g(1)]) simp
      then have "wp (walk_loop l x va True) (walk_post s xs (Suc l) pg va) ?t"
        unfolding A(1) by (rule wp_mono) (rule walk_post_trans[OF g(1)])
      then show "wp (?rest x) (walk_post s xs (Suc l) pg va) (s\<lparr>freelist := f, mem := m\<rparr>)"
        using A(4) by (simp only: wp_rules) simp
    qed
    then show ?thesis using inv
      unfolding walk_loop.simps PX_addr wp_bind wp_gets by (simp add: wp_if wp_bind pte_at_def vld_def)
  qed
qed

section \<open>Storing a leaf entry\<close>

definition same_vpns :: "nat \<Rightarrow> u64 \<Rightarrow> u64 \<Rightarrow> bool" where
  "same_vpns l va va' \<longleftrightarrow> (\<forall>k\<le>l. vpn k va = vpn k va')"

lemma same_vpns_0 [simp]: "same_vpns 0 va va' \<longleftrightarrow> vpn 0 va = vpn 0 va'"
  by (simp add: same_vpns_def)

lemma same_vpns_Suc [simp]:
  "same_vpns (Suc l) va va' \<longleftrightarrow> same_vpns l va va' \<and> vpn (Suc l) va = vpn (Suc l) va'"
  by (auto simp: same_vpns_def le_Suc_eq)

lemma leaf_store_only:
  assumes "tree e m l pg" and "leaf_addr m l pg va = Some a"
  shows "only_pages (tset m l pg) m (st64 m a v)"
proof -
  obtain q where q: "q \<in> tset m l pg" "a = pte_addr q (vpn 0 va)"
    using leaf_addr_page[OF assms] by blast
  show ?thesis
    unfolding q(2) by (rule only_pages_mono[OF only_pages_st_pte[OF vpn_less]]) (use q(1) in simp)
qed

lemma leaf_store:
  assumes "tree e m l pg" and "leaf_addr m l pg va = Some a"
  shows "tree e (st64 m a v) l pg \<and> tset (st64 m a v) l pg = tset m l pg \<and>
         leaf_addr (st64 m a v) l pg va' = leaf_addr m l pg va' \<and>
         lkup (st64 m a v) l pg va' = (if same_vpns l va va' then v else lkup m l pg va')"
  using assms
proof (induction l arbitrary: pg)
  case 0
  then have "page_aligned pg" "a = pte_addr pg (vpn 0 va)" by (simp_all add: page_ok_def)
  then show ?case
    using 0 pte_at_st_other[OF _ vpn_less vpn_less, of pg 0 va 0 va' m v] by (auto simp: lkup_0)
next
  case (Suc l)
  let ?m = "st64 m a v" and ?k = "vpn (Suc l) va"
  note tr = Suc.prems(1)
  obtain c where c: "kid m pg ?k = Some c" "leaf_addr m l c va = Some a"
    using Suc.prems(2) by (auto split: option.splits)
  note tc = tree_kid[OF tr vpn_less c(1)]
  note IH = Suc.IH[OF tc c(2)]
  note o = leaf_store_only[OF tc c(2), of v] and al = tree_aligned[OF tc]
  have ptes: "pte_at ?m pg i = pte_at m pg i" if "i < 512" for i
    using tree_kid_root[OF tr vpn_less c(1)] tree_root[OF tr] that
    by (intro pte_at_frame[OF o al]) (auto simp: page_ok_def)
  then have kids: "kid ?m pg i = kid m pg i" if "i < 512" for i
    using that by (simp add: kid_def)
  have pk: "ptr_pte (pte_at ?m pg ?k)"
    using ptes[OF vpn_less] tree_kid_ptr[OF tr vpn_less c(1)] by simp
  have away: "tset m l d \<inter> tset m l c = {}" if "i < 512" "i \<noteq> ?k" "kid m pg i = Some d" for i d
    by (rule tree_kids_disjoint[OF tr that(1) vpn_less that(2,3) c(1)])
  have old: "tree e ?m l d \<and> tset ?m l d = tset m l d"
    if "i < 512" "i \<noteq> ?k" "kid m pg i = Some d" for i d
    using table_frame(1,2)[OF o al tree_kid[OF tr that(1,3)] away[OF that]] by simp
  have kc: "kid ?m pg ?k = Some c" using kids[OF vpn_less] c(1) by simp
  have "tset ?m l c = tset m l c \<union> {}" "{} \<inter> tset m (Suc l) pg = {}"
    "tset m l c = (case kid m pg ?k of None \<Rightarrow> {} | Some c \<Rightarrow> tset m l c)"
    using IH c(1) by simp_all
  note rk = tree_replace_kid[OF tr vpn_less old ptes kc conjunct1[OF IH] this(1) pk this(3,2)]
  show ?case
  proof (cases "vpn (Suc l) va' = ?k")
    case True
    then show ?thesis
      using rk IH kc c(1) by (simp add: lkup_Suc)
  next
    case False
    have "leaf_addr ?m l d va' = leaf_addr m l d va'" "lkup ?m l d va' = lkup m l d va'"
      if "kid m pg (vpn (Suc l) va') = Some d" for d
      using table_frame(3,4)[OF o al tree_kid[OF tr vpn_less that] away[OF vpn_less False that]]
      by simp_all
    then show ?thesis
      using rk False kids[OF vpn_less, of "Suc l" va'] by (auto simp: lkup_Suc split: option.splits)
  qed
qed

lemma vm_ok_leaf_store:
  assumes "vm_ok s xs l pg" and "leaf_addr (mem s) l pg va = Some a"
  shows "vm_ok (s\<lparr>mem := st64 (mem s) a v\<rparr>) xs l pg"
proof -
  have tr: "tree (kend s) (mem s) l pg" and dj: "tset (mem s) l pg \<inter> set xs = {}"
    using assms(1) by (auto simp: vm_ok_def)
  have "kmem_inv (s\<lparr>mem := st64 (mem s) a v\<rparr>) xs"
    using kmem_inv_frame[OF _ leaf_store_only[OF tr assms(2)] tree_aligned[OF tr] dj] assms(1)
    by (simp add: vm_ok_def)
  then show ?thesis
    using leaf_store[OF tr assms(2)] assms(1) by (simp add: vm_ok_def)
qed

text \<open>On the 39-bit addresses of a three-level table the three indices are the page number.\<close>

definition sv39 :: "u64 \<Rightarrow> bool" where
  "sv39 va \<longleftrightarrow> unat va < 2 ^ 39"

lemma MAXVA_sv39: "va < MAXVA \<Longrightarrow> sv39 va"
  by (simp add: sv39_def word_less_nat_alt)

lemma div_mod_split: "(n :: nat) div d mod 512 + 512 * (n div (d * 512)) = n div d"
  by (simp add: div_mult2_eq)

lemma same_vpns_page:
  assumes "sv39 va" and "sv39 va'"
  shows "same_vpns 2 va va' \<longleftrightarrow> unat va div 4096 = unat va' div 4096"
proof -
  have split: "unat v div 4096 = vpn 0 v + 512 * (vpn 1 v + 512 * vpn 2 v)" if "sv39 v" for v
  proof -
    have "unat v div 2 ^ 30 < 512"
      using that by (simp add: sv39_def less_mult_imp_div_less)
    then have "vpn 2 v = unat v div 2 ^ 30" "vpn 1 v = unat v div 2 ^ 21 mod 512" "vpn 0 v = unat v div 2 ^ 12 mod 512"
      by (simp_all add: vpn_eq)
    then show ?thesis
      using div_mod_split[of "unat v" "2 ^ 12"] div_mod_split[of "unat v" "2 ^ 21"] by simp
  qed
  have "same_vpns 2 va va' \<longleftrightarrow> vpn 0 va = vpn 0 va' \<and> vpn 1 va = vpn 1 va' \<and> vpn 2 va = vpn 2 va'"
    by (auto simp: numeral_2_eq_2)
  also have "\<dots> \<longleftrightarrow> unat va div 4096 = unat va' div 4096"
  proof
    assume "unat va div 4096 = unat va' div 4096"
    then have eq: "vpn 0 va + 512 * (vpn 1 va + 512 * vpn 2 va) = vpn 0 va' + 512 * (vpn 1 va' + 512 * vpn 2 va')"
      using split assms by simp
    have digit: "a = c \<and> b = d" if "a + 512 * b = c + 512 * d" "a < 512" "c < 512" for a b c d :: nat
    proof -
      have "(a + 512 * b) mod 512 = a" "(c + 512 * d) mod 512 = c"
        using that(2,3) by simp_all
      then have "a = c" using that(1) by metis
      then show ?thesis using that(1) by simp
    qed
    from digit[OF eq] have "vpn 0 va = vpn 0 va'" "vpn 1 va + 512 * vpn 2 va = vpn 1 va' + 512 * vpn 2 va'"
      by simp_all
    with digit[of "vpn 1 va" "vpn 2 va" "vpn 1 va'" "vpn 2 va'"]
    show "vpn 0 va = vpn 0 va' \<and> vpn 1 va = vpn 1 va' \<and> vpn 2 va = vpn 2 va'" by simp
  qed (use split[OF assms(1)] split[OF assms(2)] in simp)
  finally show ?thesis .
qed

section \<open>Mapping ranges\<close>

lemma tbl_ext_leaf_store:
  assumes "vm_ok s xs l pg" and "leaf_addr (mem s) l pg va = Some a"
  shows "tbl_ext s xs (s\<lparr>mem := st64 (mem s) a v\<rparr>) xs l pg"
proof -
  have tr: "tree (kend s) (mem s) l pg"
    using assms(1) by (simp add: vm_ok_def)
  show ?thesis
    using vm_ok_leaf_store[OF assms] leaf_store[OF tr assms(2)] leaf_store_only[OF tr assms(2)]
    by (intro tbl_extI[where new = "[]"]) simp_all
qed

text \<open>The translation after \<open>k\<close> pages from \<open>a\<close> on have been mapped to \<open>pa\<close> with permissions \<open>perm\<close>.\<close>

definition pno :: "u64 \<Rightarrow> nat" where
  "pno va = unat va div 4096"

definition map_range :: "(u64 \<Rightarrow> u64) \<Rightarrow> u64 \<Rightarrow> nat \<Rightarrow> u64 \<Rightarrow> u64 \<Rightarrow> u64 \<Rightarrow> u64" where
  "map_range f a k pa perm va =
     (if pno a \<le> pno va \<and> pno va < pno a + k
      then PA2PTE (pa + of_nat (4096 * (pno va - pno a))) OR perm OR PTE_V else f va)"

lemma map_range_0 [simp]: "map_range f a 0 pa perm = f"
  by (auto simp: map_range_def fun_eq_iff)

lemma map_range_cong: "f va = g va \<Longrightarrow> map_range f a k pa perm va = map_range g a k pa perm va"
  by (simp add: map_range_def)

lemma pno_next:
  assumes "page_aligned a" and "unat a + 4096 < 2 ^ 64"
  shows "pno (a + 4096) = Suc (pno a)"
  using page_aligned_next(1)[OF assms] by (simp add: pno_def)

lemma map_range_Suc:
  assumes "page_aligned a" and "unat a + 4096 < 2 ^ 64"
  shows "map_range (map_range f a 1 pa perm) (a + 4096) k (pa + 4096) perm = map_range f a (Suc k) pa perm"
proof
  fix va
  have eq: "pa + 4096 + of_nat (4096 * (pno va - Suc (pno a))) = pa + of_nat (4096 * (pno va - pno a))"
    if "Suc (pno a) \<le> pno va"
  proof -
    have "4096 * (pno va - pno a) = 4096 + 4096 * (pno va - Suc (pno a))"
      using that by simp
    then show ?thesis by (simp add: add.assoc)
  qed
  show "map_range (map_range f a 1 pa perm) (a + 4096) k (pa + 4096) perm va
      = map_range f a (Suc k) pa perm va"
  proof (cases "Suc (pno a) \<le> pno va")
    case True
    then show ?thesis
      unfolding map_range_def pno_next[OF assms] by (simp add: eq[OF True] del: of_nat_mult of_nat_diff)
  next
    case False
    then show ?thesis
      unfolding map_range_def pno_next[OF assms] by (cases "pno va = pno a") simp_all
  qed
qed

lemma walk_alloc:
  fixes s :: "'x kmach_scheme"
  assumes "vm_ok s xs 2 pg" and "va < MAXVA"
  shows "wp (walk pg va True) (walk_post s xs 2 pg va) s"
proof -
  have "\<not> MAXVA \<le> va" using assms(2) by (simp add: not_le)
  then show ?thesis
    unfolding walk_def using walk_loop_alloc[OF assms(1)] by simp
qed

lemma walk_noalloc:
  assumes "va < MAXVA"
  shows "walk pg va False s = Done (case leaf_addr (mem s) 2 pg va of None \<Rightarrow> 0 | Some a \<Rightarrow> a) s"
proof -
  have "\<not> MAXVA \<le> va" using assms by (simp add: not_le)
  then show ?thesis
    unfolding walk_def using walk_loop_noalloc by simp
qed

lemma page_below_MAXVA:
  assumes "page_aligned a" and "unat a + 4096 * Suc n \<le> 0x4000000000"
  shows "a < MAXVA" and "unat a + 4096 < 2 ^ 64"
  using assms by (simp_all add: word_less_nat_alt)

lemma store_mapping:
  assumes "vm_ok s xs 2 pg" and "va < MAXVA" and "leaf_addr (mem s) 2 pg va = Some a" and "sv39 va'"
  shows "lkup (st64 (mem s) a v) 2 pg va' = (if pno va' = pno va then v else lkup (mem s) 2 pg va')"
proof -
  have "tree (kend s) (mem s) 2 pg"
    using assms(1) by (simp add: vm_ok_def)
  from leaf_store[OF this assms(3), of v va'] same_vpns_page[OF MAXVA_sv39[OF assms(2)] assms(4)] show ?thesis
    by (auto simp: pno_def)
qed

text \<open>
  \<open>mappages\<close> on pages none of which is mapped: either all of them are mapped and 0 is returned,
  or memory ran out after the first \<open>k\<close> and -1 is returned.
\<close>

definition map_post ::
  "'x kmach_scheme \<Rightarrow> u64 list \<Rightarrow> u64 \<Rightarrow> u64 \<Rightarrow> nat \<Rightarrow> u64 \<Rightarrow> u64 \<Rightarrow> int \<Rightarrow> 'x kmach_scheme \<Rightarrow> bool" where
  "map_post s xs pg a n pa perm r t \<longleftrightarrow> (\<exists>k ys. tbl_ext s xs t ys 2 pg \<and>
     (r = 0 \<and> k = n \<or> r = - 1 \<and> k < n \<and> ys = []) \<and>
     (\<forall>va. sv39 va \<longrightarrow> lkup (mem t) 2 pg va = map_range (lkup (mem s) 2 pg) a k pa perm va))"

lemma map_postI:
  assumes "tbl_ext s xs t ys 2 pg" and "r = 0 \<and> k = n \<or> r = - 1 \<and> k < n \<and> ys = []"
    and "\<forall>va. sv39 va \<longrightarrow> lkup (mem t) 2 pg va = map_range (lkup (mem s) 2 pg) a k pa perm va"
  shows "map_post s xs pg a n pa perm r t"
  unfolding map_post_def using assms by (intro exI[of _ k] exI[of _ ys]) simp

lemma map_postE:
  assumes "map_post s xs pg a n pa perm r t"
  obtains k ys where "tbl_ext s xs t ys 2 pg" "r = 0 \<and> k = n \<or> r = - 1 \<and> k < n \<and> ys = []"
    "\<forall>va. sv39 va \<longrightarrow> lkup (mem t) 2 pg va = map_range (lkup (mem s) 2 pg) a k pa perm va"
  using assms unfolding map_post_def by (elim exE conjE) (rule that)

lemma mappages_step:
  fixes s :: "'x kmach_scheme"
  assumes "vm_ok s xs 2 pg" and "a < MAXVA" and "\<not> vld (lkup (mem s) 2 pg a)"
    and fail: "\<And>t. tbl_ext s xs t [] 2 pg \<Longrightarrow> \<forall>va. lkup (mem t) 2 pg va = lkup (mem s) 2 pg va \<Longrightarrow> Q (- 1) t"
    and step: "\<And>t ys. tbl_ext s xs t ys 2 pg \<Longrightarrow>
        \<forall>va. sv39 va \<longrightarrow> lkup (mem t) 2 pg va = map_range (lkup (mem s) 2 pg) a 1 pa perm va \<Longrightarrow>
        wp (if a = lastva then ret 0 else mappages_loop n pg (a + PGSIZE) lastva (pa + PGSIZE) perm) Q t"
  shows "wp (mappages_loop (Suc n) pg a lastva pa perm) Q s"
  unfolding mappages_loop.simps wp_bind
proof (rule wp_mono[OF walk_alloc[OF assms(1,2)]])
  fix pte t
  assume "walk_post s xs 2 pg a pte t"
  then obtain ys where g: "tbl_ext s xs t ys 2 pg" "\<forall>va. lkup (mem t) 2 pg va = lkup (mem s) 2 pg va"
    and pte: "if pte = 0 then ys = [] else leaf_addr (mem t) 2 pg a = Some pte"
    by (auto simp: walk_post_def grown_def)
  show "wp (if pte = 0 then ret (- 1) else
      bind (gets (\<lambda>s. ld64 (mem s) pte)) (\<lambda>e.
      if e AND PTE_V \<noteq> 0 then panic ''mappages: remap'' else
      bind (modify (\<lambda>s. s\<lparr>mem := st64 (mem s) pte (PA2PTE pa OR perm OR PTE_V)\<rparr>)) (\<lambda>_.
      if a = lastva then ret 0
      else mappages_loop n pg (a + PGSIZE) lastva (pa + PGSIZE) perm))) Q t"
  proof (cases "pte = 0")
    case True
    then show ?thesis
      using fail[of t] g pte by (simp add: wp_ret)
  next
    case False
    with pte have leaf: "leaf_addr (mem t) 2 pg a = Some pte" by simp
    let ?u = "t\<lparr>mem := st64 (mem t) pte (PA2PTE pa OR perm OR PTE_V)\<rparr>"
    have "ld64 (mem t) pte = lkup (mem s) 2 pg a"
      using g(2)[rule_format, of a] lkup_leaf[OF leaf] by simp
    then have "ld64 (mem t) pte AND PTE_V = 0"
      using assms(3) by (simp add: vld_def)
    moreover have "tbl_ext s xs ?u ys 2 pg"
      by (rule tbl_ext_trans[OF g(1) tbl_ext_leaf_store[OF tbl_ext_ok[OF g(1)] leaf]])
    moreover have "\<forall>va. sv39 va \<longrightarrow> lkup (mem ?u) 2 pg va = map_range (lkup (mem s) 2 pg) a 1 pa perm va"
      using store_mapping[OF tbl_ext_ok[OF g(1)] assms(2) leaf] g(2) by (auto simp: map_range_def)
    ultimately show ?thesis
      using False step[of ?u ys] by (simp add: wp_if wp_bind wp_gets wp_modify)
  qed
qed

lemma mappages_loop_maps:
  fixes s :: "'x kmach_scheme"
  assumes "vm_ok s xs 2 pg" and "page_aligned a" and "unat a + 4096 * Suc n \<le> 0x4000000000"
    and "\<And>va. sv39 va \<Longrightarrow> pno a \<le> pno va \<Longrightarrow> pno va < pno a + Suc n \<Longrightarrow> \<not> vld (lkup (mem s) 2 pg va)"
  shows "wp (mappages_loop (Suc n) pg a (a + of_nat (4096 * n)) pa perm) (map_post s xs pg a (Suc n) pa perm) s"
  using assms
proof (induction n arbitrary: s xs a pa)
  case (0 s xs a pa)
  show ?case
  proof (rule mappages_step[OF "0.prems"(1) page_below_MAXVA(1)[OF "0.prems"(2,3)]])
    show "\<not> vld (lkup (mem s) 2 pg a)"
      by (intro "0.prems"(4) MAXVA_sv39 page_below_MAXVA(1)[OF "0.prems"(2,3)]) simp_all
  next
    fix t :: "'x kmach_scheme"
    assume "tbl_ext s xs t [] 2 pg" "\<forall>va. lkup (mem t) 2 pg va = lkup (mem s) 2 pg va"
    then show "map_post s xs pg a (Suc 0) pa perm (- 1) t"
      by (intro map_postI[where k = 0 and ys = "[]"]) simp_all
  next
    fix t :: "'x kmach_scheme" and ys
    assume "tbl_ext s xs t ys 2 pg"
      "\<forall>va. sv39 va \<longrightarrow> lkup (mem t) 2 pg va = map_range (lkup (mem s) 2 pg) a 1 pa perm va"
    then show "wp (if a = a + of_nat (4096 * 0) then ret 0 else
        mappages_loop 0 pg (a + PGSIZE) (a + of_nat (4096 * 0)) (pa + PGSIZE) perm)
        (map_post s xs pg a (Suc 0) pa perm) t"
      by (simp add: wp_ret map_postI[where k = "Suc 0" and ys = ys])
  qed
next
  case (Suc n s xs a pa)
  note bd = page_below_MAXVA[OF Suc.prems(2,3)]
  note nx = page_aligned_next[OF Suc.prems(2) bd(2)]
  have lt: "unat a + 4096 * Suc n < 2 ^ 64" using Suc.prems(3) by simp
  have ne: "a \<noteq> a + of_nat (4096 * Suc n)"
  proof
    assume "a = a + of_nat (4096 * Suc n)"
    then have "unat a = unat a + 4096 * Suc n" using unat_add_of_nat[OF lt] by simp
    then show False by simp
  qed
  have last: "a + of_nat (4096 * Suc n) = (a + 4096) + of_nat (4096 * n)"
    by simp
  show ?case
  proof (rule mappages_step[OF Suc.prems(1) bd(1)])
    show "\<not> vld (lkup (mem s) 2 pg a)"
      by (intro Suc.prems(4) MAXVA_sv39 bd(1)) simp_all
  next
    fix t :: "'x kmach_scheme"
    assume "tbl_ext s xs t [] 2 pg" "\<forall>va. lkup (mem t) 2 pg va = lkup (mem s) 2 pg va"
    then show "map_post s xs pg a (Suc (Suc n)) pa perm (- 1) t"
      by (intro map_postI[where k = 0 and ys = "[]"]) simp_all
  next
    fix t :: "'x kmach_scheme" and ys
    assume t: "tbl_ext s xs t ys 2 pg"
      "\<forall>va. sv39 va \<longrightarrow> lkup (mem t) 2 pg va = map_range (lkup (mem s) 2 pg) a 1 pa perm va"
    have un: "\<not> vld (lkup (mem t) 2 pg va)"
      if "sv39 va" "pno (a + 4096) \<le> pno va" "pno va < pno (a + 4096) + Suc n" for va
      using that t(2) Suc.prems(4)[of va] pno_next[OF Suc.prems(2) bd(2)]
      by (simp add: map_range_def)
    have w: "wp (mappages_loop (Suc n) pg (a + 4096) ((a + 4096) + of_nat (4096 * n)) (pa + 4096) perm)
        (map_post t ys pg (a + 4096) (Suc n) (pa + 4096) perm) t"
      using Suc.prems(3) nx un by (intro Suc.IH[OF tbl_ext_ok[OF t(1)]]) simp_all
    have m: "map_post s xs pg a (Suc (Suc n)) pa perm r u"
      if mp: "map_post t ys pg (a + 4096) (Suc n) (pa + 4096) perm r u" for r u
    proof -
      obtain k zs where k: "tbl_ext t ys u zs 2 pg" "r = 0 \<and> k = Suc n \<or> r = - 1 \<and> k < Suc n \<and> zs = []"
        "\<forall>va. sv39 va \<longrightarrow> lkup (mem u) 2 pg va = map_range (lkup (mem t) 2 pg) (a + 4096) k (pa + 4096) perm va"
        using mp by (rule map_postE)
      have "lkup (mem u) 2 pg va = map_range (lkup (mem s) 2 pg) a (Suc k) pa perm va" if "sv39 va" for va
        unfolding map_range_Suc[OF Suc.prems(2) bd(2), symmetric]
        unfolding k(3)[rule_format, OF that] by (rule map_range_cong) (rule t(2)[rule_format, OF that])
      then show ?thesis
        using k(2) by (intro map_postI[OF tbl_ext_trans[OF t(1) k(1)], of _ "Suc k"]) auto
    qed
    show "wp (if a = a + of_nat (4096 * Suc n) then ret 0 else
        mappages_loop (Suc n) pg (a + PGSIZE) (a + of_nat (4096 * Suc n)) (pa + PGSIZE) perm)
        (map_post s xs pg a (Suc (Suc n)) pa perm) t"
      unfolding if_not_P[OF ne] PGSIZE_def unfolding last by (rule wp_mono[OF w m])
  qed
qed

lemma mappages_maps:
  fixes s :: "'x kmach_scheme"
  assumes "vm_ok s xs 2 pg" and "page_aligned va" and "0 < n" and "unat va + 4096 * n \<le> 0x4000000000"
    and "\<And>v. sv39 v \<Longrightarrow> pno va \<le> pno v \<Longrightarrow> pno v < pno va + n \<Longrightarrow> \<not> vld (lkup (mem s) 2 pg v)"
  shows "wp (mappages pg va (of_nat (4096 * n)) pa perm) (map_post s xs pg va n pa perm) s"
proof -
  obtain k where k: "n = Suc k" using assms(3) by (cases n) auto
  have sz: "unat (of_nat (4096 * n) :: u64) = 4096 * n"
    using assms(4) by (intro unat_of_nat_small) simp
  have "(of_nat (4096 * n) :: u64) mod PGSIZE = 0"
    unfolding page_aligned_mod page_aligned_def sz by simp
  moreover have "(of_nat (4096 * n) :: u64) \<noteq> 0"
    unfolding word_neq_0_iff_unat sz using assms(3) by simp
  moreover have "va mod PGSIZE = 0"
    using assms(2) by (simp only: page_aligned_mod)
  moreover have last: "va + of_nat (4096 * n) - PGSIZE = va + of_nat (4096 * k)"
    by (simp add: k)
  ultimately have "mappages pg va (of_nat (4096 * n)) pa perm =
      mappages_loop n pg va (va + of_nat (4096 * k)) pa perm"
    unfolding mappages_def sz last by simp
  then show ?thesis
    using mappages_loop_maps[OF assms(1,2), of k pa perm] assms(4,5) unfolding k by metis
qed

lemma mappages_remap:
  assumes "page_aligned va" and "va < MAXVA" and "vld (lkup (mem s) 2 pg va)"
    and "tree (kend s) (mem s) 2 pg" and "0 < kend s"
  shows "mappages pg va 4096 pa perm s = Panic ''mappages: remap''"
proof -
  obtain a where a: "leaf_addr (mem s) 2 pg va = Some a"
    using assms(3) by (auto simp: lkup_def split: option.splits)
  have "walk pg va True s = Done a s"
    using walk_loop_present[OF a] assms(2) unfolding walk_def by (simp add: not_le)
  moreover have "a \<noteq> 0"
    by (rule leaf_addr_nonzero[OF assms(4,5) a])
  moreover have "ld64 (mem s) a AND PTE_V \<noteq> 0"
    using assms(3) lkup_leaf[OF a] by (simp add: vld_def)
  moreover have "va mod PGSIZE = 0"
    using assms(1) by (simp only: page_aligned_mod)
  then have "mappages pg va 4096 pa perm s = mappages_loop (Suc 0) pg va va pa perm s"
    by (simp add: mappages_def)
  ultimately show ?thesis
    by (simp add: mappages_loop.simps(2))
qed

lemma walkaddr_eq:
  assumes "va < MAXVA" and "tree (kend s) (mem s) 2 pg" and "0 < kend s"
  shows "walkaddr pg va s = Done (let e = lkup (mem s) 2 pg va in
           if vld e \<and> e AND PTE_U \<noteq> 0 then PTE2PA e else 0) s"
proof (cases "leaf_addr (mem s) 2 pg va")
  case None
  then show ?thesis
    using assms(1) walk_noalloc[OF assms(1), of pg s] by (simp add: walkaddr_def lkup_def not_le)
next
  case (Some a)
  then show ?thesis
    using assms(1) walk_noalloc[OF assms(1), of pg s] leaf_addr_nonzero[OF assms(2,3) Some]
    by (auto simp: walkaddr_def lkup_def not_le vld_def)
qed

lemma walkaddr_beyond: "MAXVA \<le> va \<Longrightarrow> walkaddr pg va s = Done 0 s"
  by (simp add: walkaddr_def)

section \<open>Giving a table back\<close>

text \<open>A table in which no address is mapped any more.\<close>

fun no_leaves :: "mem \<Rightarrow> nat \<Rightarrow> u64 \<Rightarrow> bool" where
  "no_leaves m 0 pg = (\<forall>i<512. \<not> vld (pte_at m pg i))"
| "no_leaves m (Suc l) pg = (\<forall>i<512. \<forall>c. kid m pg i = Some c \<longrightarrow> no_leaves m l c)"

lemma no_leaves_frame:
  assumes "only_pages P m m'" and "\<forall>p\<in>P. page_aligned p"
    and "tree e m l pg" and "tset m l pg \<inter> P = {}"
  shows "no_leaves m' l pg = no_leaves m l pg"
  using assms(3,4)
proof (induction l arbitrary: pg)
  case 0
  then have "pte_at m' pg i = pte_at m pg i" if "i < 512" for i
    using that by (intro pte_at_frame[OF assms(1,2)]) (auto simp: page_ok_def)
  then show ?case by simp
next
  case (Suc l)
  have "kid m' pg i = kid m pg i" if "i < 512" for i
    using Suc.prems(2) tree_root[OF Suc.prems(1)] tset_root[of pg m "Suc l"] that
    by (intro kid_frame[OF assms(1,2)]) (auto simp: page_ok_def)
  moreover have "no_leaves m' l c = no_leaves m l c" if "i < 512" "kid m pg i = Some c" for i c
    using Suc.prems(2) tset_kid[OF that, of l] by (intro Suc.IH tree_kid[OF Suc.prems(1) that]) blast
  ultimately show ?case by auto
qed

definition ksets :: "mem \<Rightarrow> nat \<Rightarrow> u64 \<Rightarrow> nat \<Rightarrow> u64 set" where
  "ksets m l pg i = (case kid m pg i of None \<Rightarrow> {} | Some c \<Rightarrow> tset m l c)"

lemma tset_Suc_ksets: "tset m (Suc l) pg = insert pg (\<Union>i<512. ksets m l pg i)"
  by (simp add: tset.simps(2) ksets_def)

definition freed :: "'x kmach_scheme \<Rightarrow> u64 list \<Rightarrow> u64 set \<Rightarrow> 'x kmach_scheme \<Rightarrow> bool" where
  "freed s xs T t \<longleftrightarrow> same_regs s t \<and> (\<exists>ys. kmem_inv t ys \<and> set ys = set xs \<union> T) \<and>
     only_pages T (mem s) (mem t)"

text \<open>The state of \<open>freewalk\<close> on a table at level \<open>Suc l\<close> after the first \<open>n\<close> entries.\<close>

abbreviation kids_below :: "mem \<Rightarrow> nat \<Rightarrow> u64 \<Rightarrow> nat \<Rightarrow> u64 set" where
  "kids_below m l pg n \<equiv> \<Union>i<n. ksets m l pg i"

definition freewalk_inv :: "'x kmach_scheme \<Rightarrow> u64 list \<Rightarrow> nat \<Rightarrow> u64 \<Rightarrow> nat \<Rightarrow> 'x kmach_scheme \<Rightarrow> bool" where
  "freewalk_inv s xs l pg n t \<longleftrightarrow> same_regs s t \<and>
     (\<exists>ys. kmem_inv t ys \<and> set ys = set xs \<union> kids_below (mem s) l pg n) \<and>
     only_pages (insert pg (kids_below (mem s) l pg n)) (mem s) (mem t) \<and>
     (\<forall>i<512. n \<le> i \<longrightarrow> pte_at (mem t) pg i = pte_at (mem s) pg i)"

lemma ksets_away:
  assumes "tree e m (Suc l) pg" and "k < 512" and "kid m pg k = Some c" and "i < 512" and "i \<noteq> k"
  shows "tset m l c \<inter> ksets m l pg i = {}"
  using tree_kids_disjoint[OF assms(1,2,4) _ assms(3)] assms(5) by (simp add: ksets_def split: option.splits)

lemma ksets_tset: "i < 512 \<Longrightarrow> ksets m l pg i \<subseteq> tset m (Suc l) pg"
  unfolding tset_Suc_ksets by blast

lemma freewalk_inv_kid:
  assumes ok: "vm_ok s xs (Suc l) pg" and k: "k < 512" "kid (mem s) pg k = Some c"
    and inv: "freewalk_inv s xs l pg k t" and nl: "no_leaves (mem s) l c"
  obtains ys where "vm_ok t ys l c" "no_leaves (mem t) l c" "tset (mem t) l c = tset (mem s) l c"
    "set ys = set xs \<union> kids_below (mem s) l pg k"
proof -
  obtain ys where ys: "same_regs s t" "kmem_inv t ys" "set ys = set xs \<union> kids_below (mem s) l pg k"
    and o: "only_pages (insert pg (kids_below (mem s) l pg k)) (mem s) (mem t)"
    using inv unfolding freewalk_inv_def by blast
  have tr: "tree (kend s) (mem s) (Suc l) pg" and dj: "tset (mem s) (Suc l) pg \<inter> set xs = {}"
    using ok by (auto simp: vm_ok_def)
  have K: "kids_below (mem s) l pg k \<subseteq> tset (mem s) (Suc l) pg"
    using ksets_tset k(1) less_trans by blast
  have al: "\<forall>p\<in>insert pg (kids_below (mem s) l pg k). page_aligned p"
    using K tset_root[of pg "mem s" "Suc l"] tree_aligned[OF tr] by blast
  have "tset (mem s) l c \<inter> ksets (mem s) l pg i = {}" if "i < k" for i
    using ksets_away[OF tr k, of i] that k(1) by simp
  then have Kc: "tset (mem s) l c \<inter> kids_below (mem s) l pg k = {}"
    by blast
  then have away: "tset (mem s) l c \<inter> insert pg (kids_below (mem s) l pg k) = {}"
    using tree_kid_root[OF tr k] by blast
  note tk = tree_kid[OF tr k]
  note fr = table_frame(1,2)[OF o al tk away] no_leaves_frame[OF o al tk away]
  have "tset (mem s) l c \<inter> set ys = {}"
    unfolding ys(3) using Kc dj tset_kid[OF k, of l] by blast
  then have "vm_ok t ys l c"
    using ys fr ok same_regsD[OF ys(1)] by (simp add: vm_ok_def)
  then show ?thesis
    using that fr nl ys(3) by simp
qed

lemma freewalk_inv_step:
  assumes ok: "vm_ok s xs (Suc l) pg" and k: "k < 512" "kid (mem s) pg k = Some c"
    and inv: "freewalk_inv s xs l pg k t"
    and ys: "set ys = set xs \<union> kids_below (mem s) l pg k"
    and u: "freed t ys (tset (mem s) l c) u"
  shows "freewalk_inv s xs l pg (Suc k) (u\<lparr>mem := st64 (mem u) (pte_addr pg k) 0\<rparr>)"
proof -
  let ?m = "st64 (mem u) (pte_addr pg k) 0"
  obtain zs where zs: "kmem_inv u zs" "set zs = set ys \<union> tset (mem s) l c"
    and r: "same_regs t u" and ou: "only_pages (tset (mem s) l c) (mem t) (mem u)"
    using u by (auto simp: freed_def)
  have it: "same_regs s t" "only_pages (insert pg (kids_below (mem s) l pg k)) (mem s) (mem t)"
    "\<And>i. i < 512 \<Longrightarrow> k \<le> i \<Longrightarrow> pte_at (mem t) pg i = pte_at (mem s) pg i"
    using inv unfolding freewalk_inv_def by blast+
  have tr: "tree (kend s) (mem s) (Suc l) pg" and dj: "tset (mem s) (Suc l) pg \<inter> set xs = {}"
    using ok by (auto simp: vm_ok_def)
  have pg: "page_aligned pg" "pg \<notin> tset (mem s) l c"
    using tree_root[OF tr] tree_kid_root[OF tr k] by (auto simp: page_ok_def)
  have root: "pg \<notin> ksets (mem s) l pg i" if "i < 512" for i
    using tree_kid_root[OF tr that] by (simp add: ksets_def split: option.splits)
  have Kk: "kids_below (mem s) l pg (Suc k) = kids_below (mem s) l pg k \<union> tset (mem s) l c"
    using k(2) by (simp add: lessThan_Suc ksets_def Un_commute)
  have "pg \<notin> kids_below (mem s) l pg k"
    using root k(1) less_trans by blast
  then have pgz: "pg \<notin> set zs"
    unfolding zs(2) ys using pg(2) dj tset_root[of pg "mem s" "Suc l"] by blast
  have om: "only_pages {pg} (mem u) ?m"
    by (rule only_pages_st_pte[OF k(1)])
  have "kmem_inv (u\<lparr>mem := ?m\<rparr>) zs"
    using pg pgz by (intro kmem_inv_frame[OF zs(1) om]) auto
  moreover have "set zs = set xs \<union> kids_below (mem s) l pg (Suc k)"
    unfolding zs(2) ys Kk by blast
  moreover have "only_pages (insert pg (kids_below (mem s) l pg (Suc k))) (mem s) ?m"
    unfolding Kk
    by (rule only_pages_mono[OF only_pages_trans_Un[OF only_pages_trans_Un[OF it(2) ou] om]]) blast
  moreover have "pte_at ?m pg i = pte_at (mem s) pg i" if "i < 512" "Suc k \<le> i" for i
  proof -
    have "pte_at ?m pg i = pte_at (mem u) pg i"
      using pg that k(1) by (intro pte_at_st_other) auto
    also have "\<dots> = pte_at (mem t) pg i"
      using tree_aligned[OF tree_kid[OF tr k]] pg that by (intro pte_at_frame[OF ou]) auto
    finally show ?thesis using it(3) that by simp
  qed
  moreover have "same_regs s (u\<lparr>mem := ?m\<rparr>)"
    by (rule same_regs_trans[OF same_regs_trans[OF it(1) r]]) simp
  ultimately show ?thesis
    unfolding freewalk_inv_def by auto
qed

lemma freewalk_inv_skip:
  assumes "freewalk_inv s xs l pg k t" and "k < 512" and "kid (mem s) pg k = None"
  shows "freewalk_inv s xs l pg (Suc k) t"
proof -
  have "kids_below (mem s) l pg (Suc k) = kids_below (mem s) l pg k"
    using assms(3) by (simp add: lessThan_Suc ksets_def)
  then show ?thesis
    using assms(1) by (simp add: freewalk_inv_def)
qed

lemma freewalk_root:
  assumes ok: "vm_ok s xs (Suc l) pg" and inv: "freewalk_inv s xs l pg 512 t"
  shows "wp (kfree pg) (\<lambda>_. freed s xs (tset (mem s) (Suc l) pg)) t"
proof -
  obtain ys where ys: "same_regs s t" "kmem_inv t ys" "set ys = set xs \<union> kids_below (mem s) l pg 512"
    and o: "only_pages (insert pg (kids_below (mem s) l pg 512)) (mem s) (mem t)"
    using inv unfolding freewalk_inv_def by blast
  have tr: "tree (kend s) (mem s) (Suc l) pg" and dj: "tset (mem s) (Suc l) pg \<inter> set xs = {}"
    using ok by (auto simp: vm_ok_def)
  have "pg \<notin> ksets (mem s) l pg i" if "i < 512" for i
    using tree_kid_root[OF tr that] by (simp add: ksets_def split: option.splits)
  then have pg: "pg \<notin> set ys"
    unfolding ys(3) using dj tset_root[of pg "mem s" "Suc l"] by blast
  note T = tset_Suc_ksets[of "mem s" l pg]
  show ?thesis
  proof (rule wp_kfree[OF ys(2) _ _ pg])
    show "KmemLock \<notin> held t" "page_ok (kend t) pg"
      using same_regsD[OF ys(1)] ok tree_root[OF tr] by (simp_all add: vm_ok_def)
    fix m assume m: "kmem_inv (t\<lparr>mem := m, freelist := pg\<rparr>) (pg # ys)" "only_pages {pg} (mem t) m"
    have "only_pages (tset (mem s) (Suc l) pg) (mem s) m"
      unfolding T by (rule only_pages_mono[OF only_pages_trans_Un[OF o m(2)]]) blast
    moreover have "set (pg # ys) = set xs \<union> tset (mem s) (Suc l) pg"
      unfolding T using ys(3) by auto
    moreover have "same_regs s (t\<lparr>mem := m, freelist := pg\<rparr>)"
      by (rule same_regs_trans[OF ys(1)]) simp
    ultimately show "freed s xs (tset (mem s) (Suc l) pg) (t\<lparr>mem := m, freelist := pg\<rparr>)"
      unfolding freed_def using m(1) by auto
  qed
qed

lemma wp_freewalk_entry:
  "wp (freewalk_entry rec pg i) Q s =
     (let e = pte_at (mem s) pg i in
      if vld e \<and> ptr_pte e
      then wp (rec (PTE2PA e)) (\<lambda>_ t. Q () (t\<lparr>mem := st64 (mem t) (pte_addr pg i) 0\<rparr>)) s
      else \<not> vld e \<and> Q () s)"
  unfolding freewalk_entry_def pte_addr_def[symmetric]
  by (simp add: wp_bind wp_gets wp_if wp_modify_fun wp_ret wp_panic vld_def ptr_pte_def pte_at_def Let_def)

lemma freewalk_frees:
  fixes s :: "'x kmach_scheme"
  assumes "vm_ok s xs l pg" and "no_leaves (mem s) l pg"
  shows "wp (freewalk l pg) (\<lambda>_. freed s xs (tset (mem s) l pg)) s"
  using assms
proof (induction l arbitrary: s xs pg)
  case 0
  have "wp (foreach [0..<512] (freewalk_entry (\<lambda>_. hang) pg)) (\<lambda>_ t. t = s) s"
    using "0.prems"(2) by (intro wp_foreach[where I = "\<lambda>_ t. t = s"]) (simp_all add: wp_freewalk_entry)
  moreover have "wp (kfree pg) (\<lambda>_. freed s xs {pg}) s"
  proof (rule wp_kfree[of s xs])
    fix m assume "kmem_inv (s\<lparr>mem := m, freelist := pg\<rparr>) (pg # xs)" "only_pages {pg} (mem s) m"
    then show "freed s xs {pg} (s\<lparr>mem := m, freelist := pg\<rparr>)"
      unfolding freed_def by (auto intro!: exI[of _ "pg # xs"])
  qed (use "0.prems"(1) in \<open>auto simp: vm_ok_def\<close>)
  ultimately show ?case
    unfolding freewalk.simps wp_bind tset.simps by (elim wp_mono) simp
next
  case (Suc l)
  have tr: "tree (kend s) (mem s) (Suc l) pg"
    using Suc.prems(1) by (simp add: vm_ok_def)
  have step: "wp (freewalk_entry (freewalk l) pg k) (\<lambda>_. freewalk_inv s xs l pg (Suc k)) t"
    if k: "k < 512" and inv: "freewalk_inv s xs l pg k t" for k t
  proof -
    have e: "pte_at (mem t) pg k = pte_at (mem s) pg k"
      using inv k unfolding freewalk_inv_def by blast
    show ?thesis
    proof (cases "kid (mem s) pg k")
      case None
      then have "\<not> vld (pte_at (mem s) pg k)"
        by (auto simp: kid_def)
      then show ?thesis
        using freewalk_inv_skip[OF inv k None] by (simp add: wp_freewalk_entry e)
    next
      case (Some c)
      then have v: "vld (pte_at (mem s) pg k)" "PTE2PA (pte_at (mem s) pg k) = c"
        by (auto simp: kid_def split: if_splits)
      have p: "ptr_pte (pte_at (mem s) pg k)"
        using tree_kid_ptr[OF tr k Some] .
      have nl: "no_leaves (mem s) l c" using Suc.prems(2) k Some by simp
      obtain ys where ys: "vm_ok t ys l c" "no_leaves (mem t) l c" "tset (mem t) l c = tset (mem s) l c"
        "set ys = set xs \<union> kids_below (mem s) l pg k"
        by (rule freewalk_inv_kid[OF Suc.prems(1) k Some inv nl])
      have "wp (freewalk l c) (\<lambda>_. freed t ys (tset (mem s) l c)) t"
        using Suc.IH[OF ys(1,2)] ys(3) by simp
      then have "wp (freewalk l c) (\<lambda>_ u. freewalk_inv s xs l pg (Suc k)
          (u\<lparr>mem := st64 (mem u) (pte_addr pg k) 0\<rparr>)) t"
        by (rule wp_mono) (rule freewalk_inv_step[OF Suc.prems(1) k Some inv ys(4)])
      with v p show ?thesis
        by (simp add: wp_freewalk_entry e)
    qed
  qed
  have "freewalk_inv s xs l pg 0 s"
    using Suc.prems(1) by (auto simp: freewalk_inv_def vm_ok_def)
  then have "wp (foreach [0..<512] (freewalk_entry (freewalk l) pg))
      (\<lambda>_. freewalk_inv s xs l pg (length [0..<512])) s"
    by (intro wp_foreach) (simp_all add: step)
  then show ?case
    unfolding freewalk.simps wp_bind
    by (rule wp_mono) (use freewalk_root[OF Suc.prems(1)] in simp)
qed

text \<open>A table that maps no address has no leaf entries.\<close>

lemma leaf_addr_cong: "same_vpns l va va' \<Longrightarrow> leaf_addr m l pg va = leaf_addr m l pg va'"
  by (induction l arbitrary: pg) (auto split: option.splits)

lemma lkup_cong: "same_vpns l va va' \<Longrightarrow> lkup m l pg va = lkup m l pg va'"
  by (simp add: lkup_def leaf_addr_cong)

lemma vpn_add_high:
  assumes "unat va = x + i * 2 ^ (21 + 9 * l)" and "k \<le> l"
  shows "vpn k va = x div 2 ^ (12 + 9 * k) mod 512"
proof -
  have "21 + 9 * l = (12 + 9 * k) + 9 + 9 * (l - k)"
    using assms(2) by simp
  then have "(2 :: nat) ^ (21 + 9 * l) = 2 ^ (12 + 9 * k) * (512 * 2 ^ (9 * (l - k)))"
    by (simp only: power_add mult.assoc) simp
  then have "i * 2 ^ (21 + 9 * l) = 2 ^ (12 + 9 * k) * (512 * (i * 2 ^ (9 * (l - k))))"
    by simp
  then have "unat va = x + 2 ^ (12 + 9 * k) * (512 * (i * 2 ^ (9 * (l - k))))"
    unfolding assms(1) by metis
  then have "unat va div 2 ^ (12 + 9 * k) = x div 2 ^ (12 + 9 * k) + 512 * (i * 2 ^ (9 * (l - k)))"
    by simp
  then show ?thesis by (simp add: vpn_eq)
qed

lemma vpn_high:
  assumes "unat va = x + i * 2 ^ (21 + 9 * l)" and "x < 2 ^ (21 + 9 * l)" and "i < 512"
  shows "vpn (Suc l) va = i"
proof -
  have "12 + 9 * Suc l = 21 + 9 * l" by simp
  then show ?thesis
    unfolding vpn_eq assms(1) using assms(2,3) by simp
qed

lemma no_leavesI:
  assumes "l \<le> 2" and "\<forall>va. unat va < 2 ^ (21 + 9 * l) \<longrightarrow> \<not> vld (lkup m l pg va)"
  shows "no_leaves m l pg"
  using assms
proof (induction l arbitrary: pg)
  case 0
  have "\<not> vld (pte_at m pg i)" if "i < 512" for i
  proof -
    have u: "unat (of_nat (4096 * i) :: u64) = 4096 * i"
      using that by (intro unat_of_nat_small) simp
    then have "vpn 0 (of_nat (4096 * i)) = i"
      unfolding vpn_eq using that by simp
    moreover have "\<not> vld (lkup m 0 pg (of_nat (4096 * i)))"
      using "0.prems"(2)[rule_format, of "of_nat (4096 * i)"] that unfolding u by simp
    ultimately show ?thesis unfolding lkup_0 by metis
  qed
  then show ?case by simp
next
  case (Suc l)
  have "no_leaves m l c" if "i < 512" "kid m pg i = Some c" for i c
  proof (rule Suc.IH)
    show "l \<le> 2" using Suc.prems(1) by simp
    show "\<forall>va. unat va < 2 ^ (21 + 9 * l) \<longrightarrow> \<not> vld (lkup m l c va)"
    proof (intro allI impI)
      fix x :: u64 assume x: "unat x < 2 ^ (21 + 9 * l)"
      let ?n = "unat x + i * 2 ^ (21 + 9 * l)"
      define va :: u64 where "va = of_nat ?n"
      have "?n < (Suc i) * 2 ^ (21 + 9 * l)" using x by simp
      also have "\<dots> \<le> 512 * 2 ^ (21 + 9 * l)" using that(1) by (intro mult_right_mono) simp_all
      also have "\<dots> = 2 ^ (21 + 9 * Suc l)" by (simp add: power_add)
      finally have lt: "?n < 2 ^ (21 + 9 * Suc l)" .
      moreover have "(2 :: nat) ^ (21 + 9 * Suc l) \<le> 2 ^ 39"
        using Suc.prems(1) by (intro power_increasing) simp_all
      ultimately have va: "unat va = ?n"
        unfolding va_def by (intro unat_of_nat_small) simp
      have "\<not> vld (lkup m (Suc l) pg va)"
        using Suc.prems(2)[rule_format, of va] lt unfolding va .
      moreover have "lkup m (Suc l) pg va = lkup m l c va"
        using that(2) vpn_high[OF va x that(1)] by (simp add: lkup_Suc)
      moreover have "same_vpns l va x"
        using vpn_add_high[OF va] by (simp add: same_vpns_def vpn_eq)
      ultimately show "\<not> vld (lkup m l c x)"
        using lkup_cong by metis
    qed
  qed
  then show ?case by simp
qed

lemma no_leaves_sv39: "\<forall>va. sv39 va \<longrightarrow> \<not> vld (lkup m 2 pg va) \<Longrightarrow> no_leaves m 2 pg"
  by (rule no_leavesI) (simp_all add: sv39_def)

lemma uvmcreate_empty:
  assumes "kmem_inv s xs" and "KmemLock \<notin> held s"
  shows "wp uvmcreate (\<lambda>pg t. if pg = 0 then xs = [] \<and> t = s
           else \<exists>ys. xs = pg # ys \<and> vm_ok t ys 2 pg \<and> tset (mem t) 2 pg = {pg} \<and> same_regs s t \<and>
             only_pages {pg} (mem s) (mem t) \<and> (\<forall>va. lkup (mem t) 2 pg va = 0)) s"
  unfolding uvmcreate_def wp_bind
proof (rule wp_kalloc[OF assms])
  assume "xs = []"
  then show "wp (if (0::u64) = 0 then ret 0 else bind (modify (\<lambda>s. s\<lparr>mem := memset (mem s) 0 0 4096\<rparr>)) (\<lambda>_. ret 0))
      (\<lambda>pg t. if pg = 0 then xs = [] \<and> t = s
           else \<exists>ys. xs = pg # ys \<and> vm_ok t ys 2 pg \<and> tset (mem t) 2 pg = {pg} \<and> same_regs s t \<and>
             only_pages {pg} (mem s) (mem t) \<and> (\<forall>va. lkup (mem t) 2 pg va = 0)) s"
    by (simp add: wp_ret)
next
  fix x ys m f
  assume A: "xs = x # ys" "kmem_inv (s\<lparr>freelist := f, mem := m\<rparr>) ys" "page_ok (kend s) x"
    "x \<noteq> 0" "only_pages {x} (mem s) m"
  let ?m = "memset m x 0 4096"
  have nin: "x \<notin> set ys" using assms(1) A(1) by (simp add: kmem_inv_def)
  have "kmem_inv (s\<lparr>freelist := f, mem := ?m\<rparr>) ys"
    using kmem_inv_frame[OF A(2), of "{x}" ?m] only_pages_memset page_okD[OF A(3)] nin by simp
  moreover note z = zero_table[OF memset_zero_pte A(3), of m 2]
  ultimately have "vm_ok (s\<lparr>freelist := f, mem := ?m\<rparr>) ys 2 x"
    using assms(2) nin by (simp add: vm_ok_def)
  then show "wp (if x = 0 then ret 0 else bind (modify (\<lambda>s. s\<lparr>mem := memset (mem s) x 0 4096\<rparr>)) (\<lambda>_. ret x))
      (\<lambda>pg t. if pg = 0 then xs = [] \<and> t = s
           else \<exists>ys. xs = pg # ys \<and> vm_ok t ys 2 pg \<and> tset (mem t) 2 pg = {pg} \<and> same_regs s t \<and>
             only_pages {pg} (mem s) (mem t) \<and> (\<forall>va. lkup (mem t) 2 pg va = 0)) (s\<lparr>freelist := f, mem := m\<rparr>)"
    using A(1,4) z only_pages_trans[OF A(5) only_pages_memset] by (simp add: wp_bind wp_modify wp_ret)
qed

lemma uvmclear_clears:
  assumes "vm_ok s xs 2 pg" and "va < MAXVA" and "leaf_addr (mem s) 2 pg va = Some a"
  shows "wp (uvmclear pg va) (\<lambda>_ t. vm_ok t xs 2 pg \<and> same_regs s t \<and>
           only_pages (tset (mem s) 2 pg) (mem s) (mem t) \<and>
           (\<forall>v. sv39 v \<longrightarrow> lkup (mem t) 2 pg v =
              (if pno v = pno va then lkup (mem s) 2 pg v AND NOT PTE_U else lkup (mem s) 2 pg v))) s"
proof -
  have tr: "tree (kend s) (mem s) 2 pg" "0 < kend s"
    using assms(1) by (simp_all add: vm_ok_def kmem_inv_def)
  let ?v = "ld64 (mem s) a AND NOT PTE_U"
  have "uvmclear pg va s = Done () (s\<lparr>mem := st64 (mem s) a ?v\<rparr>)"
    using walk_noalloc[OF assms(2), of pg s] assms(3) leaf_addr_nonzero[OF tr assms(3)]
    by (simp add: uvmclear_def)
  moreover have "lkup (mem s) 2 pg v = ld64 (mem s) a" if "sv39 v" "pno v = pno va" for v
    using that same_vpns_page[OF MAXVA_sv39[OF assms(2)] that(1)] lkup_leaf[OF assms(3)]
      lkup_cong[of 2 va v "mem s" pg] by (simp add: pno_def)
  ultimately show ?thesis
    using vm_ok_leaf_store[OF assms(1,3), of ?v] store_mapping[OF assms(1-3), of _ ?v]
      leaf_store_only[OF tr(1) assms(3), of ?v]
    by (simp add: wp_def)
qed

section \<open>Properties\<close>

text \<open>A machine with an empty table at \<open>0x80000000\<close> and two free pages after it.\<close>

definition vm_demo :: kmach where
  "vm_demo = \<lparr>held = {}, mem = st64 (\<lambda>_. 0) 0x80001000 0x80002000, freelist = 0x80001000,
     kend = 0x80000000\<rparr>"

lemma vm_demo_mem:
  "ld64 (mem vm_demo) 0x80001000 = 0x80002000" "ld64 (mem vm_demo) 0x80002000 = 0"
  "i < 512 \<Longrightarrow> pte_at (mem vm_demo) 0x80000000 i = 0"
proof -
  let ?m = "st64 (\<lambda>_. 0) (0x80001000 :: u64) 0x80002000"
  have o: "only_pages {0x80001000} (\<lambda>_. 0) ?m"
    by (rule only_pages_st64_0)
  have z: "ld64 (\<lambda>_. 0) a = 0" for a
    by (rule ld64_zero) simp
  show "ld64 (mem vm_demo) 0x80001000 = 0x80002000"
    by (simp add: vm_demo_def)
  show "ld64 (mem vm_demo) 0x80002000 = 0"
    using only_pages_ld64_0[OF o, of "0x80002000"] z by (simp add: vm_demo_def page_aligned_def)
  show "pte_at (mem vm_demo) 0x80000000 i = 0" if "i < 512"
    using pte_at_frame[OF o, of "0x80000000" i] that z
    by (simp add: vm_demo_def page_aligned_def pte_at_def)
qed

lemma vm_demo_ok:
  "vm_ok vm_demo [0x80001000, 0x80002000] 2 0x80000000" "lkup (mem vm_demo) 2 0x80000000 va = 0"
proof -
  have ok: "page_ok (kend vm_demo) 0x80000000"
    by (simp add: page_ok_def vm_demo_def page_aligned_def)
  note z = zero_table[OF vm_demo_mem(3) ok, of 2]
  have "kmem_inv vm_demo [0x80001000, 0x80002000]"
    using vm_demo_mem(1,2) by (simp add: kmem_inv_def page_ok_def page_aligned_def) (simp add: vm_demo_def)
  then show "vm_ok vm_demo [0x80001000, 0x80002000] 2 0x80000000"
    using z by (simp add: vm_ok_def) (simp add: vm_demo_def)
  show "lkup (mem vm_demo) 2 0x80000000 va = 0"
    by (rule z(3))
qed

text \<open>C14: an allocating walk changes no translation. It returns the address of the leaf entry of
  \<open>va\<close>, in a table whose pages are the old ones and the pages it took from the front of the free
  list, and it returns 0 only when the free list is exhausted; nothing outside these pages changes.\<close>

theorem walk_keeps_translations:
  assumes "vm_ok s xs 2 pg" and "va < MAXVA"
  shows "wp (walk pg va True) (\<lambda>a t. \<exists>new ys. xs = new @ ys \<and> vm_ok t ys 2 pg \<and>
           tset (mem t) 2 pg = tset (mem s) 2 pg \<union> set new \<and>
           only_pages (tset (mem s) 2 pg \<union> set new) (mem s) (mem t) \<and>
           (\<forall>v. lkup (mem t) 2 pg v = lkup (mem s) 2 pg v) \<and>
           (if a = 0 then ys = [] else ld64 (mem t) a = lkup (mem s) 2 pg va)) s"
proof (rule wp_mono[OF walk_alloc[OF assms]])
  fix a t assume "walk_post s xs 2 pg va a t"
  then obtain ys where g: "grown s xs t ys 2 pg"
    and a: "if a = 0 then ys = [] else leaf_addr (mem t) 2 pg va = Some a"
    by (auto simp: walk_post_def)
  obtain new where n: "vm_ok t ys 2 pg" "same_regs s t" "xs = new @ ys"
    "tset (mem t) 2 pg = tset (mem s) 2 pg \<union> set new"
    "only_pages (tset (mem s) 2 pg \<union> set new) (mem s) (mem t)"
    "\<forall>v. lkup (mem t) 2 pg v = lkup (mem s) 2 pg v"
    using g by (rule grownE)
  have "a \<noteq> 0 \<Longrightarrow> ld64 (mem t) a = lkup (mem s) 2 pg va"
    using a lkup_leaf[of "mem t" 2 pg va a] n(6) by simp
  with n a show "\<exists>new ys. xs = new @ ys \<and> vm_ok t ys 2 pg \<and>
      tset (mem t) 2 pg = tset (mem s) 2 pg \<union> set new \<and>
      only_pages (tset (mem s) 2 pg \<union> set new) (mem s) (mem t) \<and>
      (\<forall>v. lkup (mem t) 2 pg v = lkup (mem s) 2 pg v) \<and>
      (if a = 0 then ys = [] else ld64 (mem t) a = lkup (mem s) 2 pg va)"
    by (intro exI[of _ new] exI[of _ ys]) simp
qed

theorem walk_keeps_translations_witness:
  "\<exists>a t. walk 0x80000000 0x3000 True vm_demo = Done a t \<and> lkup (mem t) 2 0x80000000 0x3000 = 0"
proof -
  have "(0x3000 :: u64) < MAXVA" by simp
  from walk_keeps_translations[OF vm_demo_ok(1) this] show ?thesis
    by (auto simp: wp_iff vm_demo_ok(2))
qed

text \<open>C8: \<open>mappages\<close> on a range none of whose pages is mapped. When it returns 0, page \<open>i\<close> of the
  range translates to \<open>pa + i * PGSIZE\<close> with the permissions given and every other address
  translates as before; when it returns -1 the allocator was exhausted after some first \<open>k\<close>
  pages, which are mapped. It never panics and always returns.\<close>

theorem mappages_maps_range:
  assumes "vm_ok s xs 2 pg" and "page_aligned va" and "0 < n" and "unat va + 4096 * n \<le> 0x4000000000"
    and "\<forall>v. sv39 v \<and> pno va \<le> pno v \<and> pno v < pno va + n \<longrightarrow> \<not> vld (lkup (mem s) 2 pg v)"
  shows "wp (mappages pg va (of_nat (4096 * n)) pa perm) (\<lambda>r t. \<exists>k ys. vm_ok t ys 2 pg \<and>
           (r = 0 \<and> k = n \<or> r = - 1 \<and> k < n \<and> ys = []) \<and>
           (\<forall>v. sv39 v \<longrightarrow> lkup (mem t) 2 pg v =
              (if pno va \<le> pno v \<and> pno v < pno va + k
               then PA2PTE (pa + of_nat (4096 * (pno v - pno va))) OR perm OR PTE_V
               else lkup (mem s) 2 pg v))) s"
proof (rule wp_mono[OF mappages_maps[OF assms(1-4)]])
  show "\<not> vld (lkup (mem s) 2 pg v)" if "sv39 v" "pno va \<le> pno v" "pno v < pno va + n" for v
    using assms(5) that by blast
  fix r t assume "map_post s xs pg va n pa perm r t"
  then obtain k ys where "tbl_ext s xs t ys 2 pg" "r = 0 \<and> k = n \<or> r = - 1 \<and> k < n \<and> ys = []"
    "\<forall>v. sv39 v \<longrightarrow> lkup (mem t) 2 pg v = map_range (lkup (mem s) 2 pg) va k pa perm v"
    by (rule map_postE)
  then show "\<exists>k ys. vm_ok t ys 2 pg \<and> (r = 0 \<and> k = n \<or> r = - 1 \<and> k < n \<and> ys = []) \<and>
      (\<forall>v. sv39 v \<longrightarrow> lkup (mem t) 2 pg v =
         (if pno va \<le> pno v \<and> pno v < pno va + k
          then PA2PTE (pa + of_nat (4096 * (pno v - pno va))) OR perm OR PTE_V
          else lkup (mem s) 2 pg v))"
    using tbl_ext_ok unfolding map_range_def by blast
qed

theorem mappages_maps_range_witness:
  "\<exists>r t. mappages 0x80000000 0 (of_nat (4096 * 1)) 0x80003000 22 vm_demo = Done r t"
proof -
  have "page_aligned 0" "(0 :: nat) < 1" "unat (0 :: u64) + 4096 * 1 \<le> 0x4000000000"
    by (simp_all add: page_aligned_def)
  from mappages_maps_range[OF vm_demo_ok(1) this, of "0x80003000" 22] show ?thesis
    by (auto simp: wp_iff vm_demo_ok(2))
qed

text \<open>C15: \<open>walkaddr\<close> returns the physical page of an address exactly when the table maps it as a
  valid user page, and 0 for every other address, those beyond \<open>MAXVA\<close> included; it changes
  nothing.\<close>

theorem walkaddr_correct:
  assumes "vm_ok s xs 2 pg"
  shows "walkaddr pg va s =
     Done (if va < MAXVA \<and> lkup (mem s) 2 pg va AND PTE_V \<noteq> 0 \<and> lkup (mem s) 2 pg va AND PTE_U \<noteq> 0
           then PTE2PA (lkup (mem s) 2 pg va) else 0) s"
proof (cases "va < MAXVA")
  case True
  have "tree (kend s) (mem s) 2 pg" "0 < kend s"
    using assms by (simp_all add: vm_ok_def kmem_inv_def)
  from walkaddr_eq[OF True this] True show ?thesis
    by (simp add: vld_def Let_def)
next
  case False
  then show ?thesis using walkaddr_beyond[of va pg s] by (auto simp: not_less)
qed

theorem walkaddr_correct_witness:
  "walkaddr 0x80000000 0x3000 vm_demo = Done 0 vm_demo"
  using walkaddr_correct[OF vm_demo_ok(1), of "0x3000"] by (simp add: vm_demo_ok(2))

text \<open>C16: \<open>freewalk\<close> on a table that maps nothing gives every page of the table back to the free
  list, each once, touches no other page, and neither panics nor recurses beyond the three
  levels.\<close>

theorem freewalk_returns_every_page:
  assumes "vm_ok s xs 2 pg" and "\<forall>va. sv39 va \<longrightarrow> lkup (mem s) 2 pg va AND PTE_V = 0"
  shows "wp (freewalk 2 pg) (\<lambda>_ t. \<exists>ys. kmem_inv t ys \<and> distinct ys \<and>
           set ys = set xs \<union> tset (mem s) 2 pg \<and> only_pages (tset (mem s) 2 pg) (mem s) (mem t)) s"
proof -
  have "no_leaves (mem s) 2 pg"
    by (rule no_leaves_sv39) (use assms(2) in \<open>simp add: vld_def\<close>)
  from freewalk_frees[OF assms(1) this] show ?thesis
    by (rule wp_mono) (auto simp: freed_def kmem_inv_def)
qed

theorem freewalk_returns_every_page_witness:
  "wp (freewalk 2 0x80000000) (\<lambda>_ t. \<exists>ys. kmem_inv t ys \<and> 0x80000000 \<in> set ys) vm_demo"
proof -
  have "\<forall>va. sv39 va \<longrightarrow> lkup (mem vm_demo) 2 0x80000000 va AND PTE_V = 0"
    by (simp add: vm_demo_ok(2))
  from freewalk_returns_every_page[OF vm_demo_ok(1) this] show ?thesis
    by (rule wp_mono) (use tset_root in fastforce)
qed

end
