(* ===== verification/Uvm.thy ===== *)
theory Uvm
  imports Pgtbl
begin

text \<open>
  \<^verbatim>\<open>kernel/vm.c\<close>, the address-space half: building and removing user mappings (\<open>uvmfirst\<close>, \<open>uvmunmap\<close>,
  \<open>uvmalloc\<close>, \<open>uvmdealloc\<close>, \<open>uvmfree\<close>, \<open>uvmcopy\<close>), moving data between the kernel and user memory
  (\<open>copyout\<close>, \<open>copyin\<close>, \<open>copyinstr\<close>) and the kernel's own page table (\<open>kvmmake\<close>, \<open>kvminit\<close>,
  \<open>kvminithart\<close>, and \<open>proc_mapstacks\<close> of \<^verbatim>\<open>kernel/proc.c\<close>). The kernel side of a copy is a byte list:
  kernel objects never lie in the user pages and page tables that the functions of this theory
  change. \<open>aspace\<close> is the invariant of a user address space.
\<close>

section \<open>Operations on user mappings\<close>

definition uvmfirst :: "u64 \<Rightarrow> bytes \<Rightarrow> ('x kmach_scheme, unit) kfun" where
  "uvmfirst pagetable src =
     (if 4096 < length src then panic ''uvmfirst'' else
      bind kalloc (\<lambda>p.
      if p = 0 then panic ''uvmfirst: kalloc'' else
      bind (modify (\<lambda>s. s\<lparr>mem := memset (mem s) p 0 4096\<rparr>)) (\<lambda>_.
      bind (modify (\<lambda>s. s\<lparr>mem := st_bytes (mem s) p src\<rparr>)) (\<lambda>_.
      bind (mappages pagetable 0 PGSIZE p (PTE_R OR PTE_W OR PTE_X OR PTE_U)) (\<lambda>r.
      if r \<noteq> 0 then panic ''uvmfirst: mappages'' else ret ())))))"

text \<open>The body of the loop of \<open>uvmunmap\<close>.\<close>

definition unmap_page :: "u64 \<Rightarrow> u64 \<Rightarrow> bool \<Rightarrow> ('x kmach_scheme, unit) kfun" where
  "unmap_page pagetable a do_free =
     bind (walk pagetable a False) (\<lambda>pte.
     if pte = 0 then ret () else
     bind (gets (\<lambda>s. ld64 (mem s) pte)) (\<lambda>e.
     if e AND PTE_V = 0 then ret () else
     bind (if do_free then kfree (PTE2PA e) else ret ()) (\<lambda>_.
     modify (\<lambda>s. s\<lparr>mem := st64 (mem s) pte 0\<rparr>))))"

lemma walk_DoneD: "walk pg a alloc s = Done r t \<Longrightarrow> a < MAXVA"
  by (simp add: walk_def not_le[symmetric] split: if_splits)

lemma unmap_page_DoneD: "unmap_page pg a f s = Done r t \<Longrightarrow> a < MAXVA"
  unfolding unmap_page_def bind_eq_Done using walk_DoneD by blast

lemma MAXVA_step:
  assumes "a < MAXVA"
  shows "unat (a + PGSIZE) = unat a + 4096"
proof -
  have "unat a < 0x4000000000" using assms by (simp add: word_less_nat_alt)
  then show ?thesis using unat_add_of_nat[of a 4096] by simp
qed

text \<open>
  The loop ends on every input: \<open>walk\<close> panics once \<open>a\<close> has reached \<open>MAXVA\<close>, so \<open>a + PGSIZE\<close> never
  wraps around.
\<close>

function uvmunmap_loop :: "u64 \<Rightarrow> u64 \<Rightarrow> u64 \<Rightarrow> bool \<Rightarrow> ('x kmach_scheme, unit) kfun" where
  "uvmunmap_loop pagetable a last_a do_free s =
     (if a < last_a
      then bind (unmap_page pagetable a do_free)
             (\<lambda>_. uvmunmap_loop pagetable (a + PGSIZE) last_a do_free) s
      else Done () s)"
  by pat_completeness auto

termination uvmunmap_loop
proof (relation "measure (\<lambda>(pg, a, e, f, s). unat e - unat a)", goal_cases)
  case (2 pg a e f s u t)
  from MAXVA_step[OF unmap_page_DoneD[OF 2(2)]] 2(1) show ?case
    by (simp add: in_measure word_less_nat_alt)
qed simp

declare uvmunmap_loop.simps [simp del]

definition uvmunmap :: "u64 \<Rightarrow> u64 \<Rightarrow> u64 \<Rightarrow> bool \<Rightarrow> ('x kmach_scheme, unit) kfun" where
  "uvmunmap pagetable va npages do_free =
     (if va mod PGSIZE \<noteq> 0 then panic ''uvmunmap: not aligned''
      else uvmunmap_loop pagetable va (va + npages * PGSIZE) do_free)"

text \<open>
  The loop of \<open>uvmalloc\<close> gives the address at which it stopped: \<open>Inr\<close> when it went through,
  \<open>Inl\<close> at the \<open>goto err\<close>. It ends for the same reason.
\<close>

definition alloc_page :: "u64 \<Rightarrow> u64 \<Rightarrow> u64 \<Rightarrow> ('x kmach_scheme, bool) kfun" where
  "alloc_page pagetable a xperm =
     bind kalloc (\<lambda>p.
     if p = 0 then ret False else
     bind (modify (\<lambda>s. s\<lparr>mem := memset (mem s) p 0 4096\<rparr>)) (\<lambda>_.
     bind (mappages pagetable a PGSIZE p (PTE_R OR PTE_U OR xperm)) (\<lambda>r.
     if r \<noteq> 0 then bind (kfree p) (\<lambda>_. ret False) else ret True)))"

lemma mappages_DoneD:
  assumes "mappages pg a PGSIZE pa perm s = Done r t"
  shows "a < MAXVA"
proof -
  have "mappages_loop (Suc 0) pg a a pa perm s = Done r t"
    using assms by (simp add: mappages_def split: if_splits)
  then show ?thesis
    unfolding mappages_loop.simps(2) bind_eq_Done using walk_DoneD by blast
qed

lemma alloc_page_DoneD: "alloc_page pg a xperm s = Done True t \<Longrightarrow> a < MAXVA"
  unfolding alloc_page_def bind_eq_Done using mappages_DoneD
  by (fastforce simp: bind_eq_Done split: if_splits)

function uvmalloc_loop :: "u64 \<Rightarrow> u64 \<Rightarrow> u64 \<Rightarrow> u64 \<Rightarrow> ('x kmach_scheme, u64 + u64) kfun" where
  "uvmalloc_loop pagetable a newsz xperm s =
     (if a < newsz
      then bind (alloc_page pagetable a xperm) (\<lambda>ok t.
             if ok then uvmalloc_loop pagetable (a + PGSIZE) newsz xperm t else Done (Inl a) t) s
      else Done (Inr a) s)"
  by pat_completeness auto

termination uvmalloc_loop
proof (relation "measure (\<lambda>(pg, a, e, f, s). unat e - unat a)", goal_cases)
  case (2 pg a e f s ok t)
  then have "a < MAXVA" using alloc_page_DoneD by auto
  from MAXVA_step[OF this] 2(1) show ?case
    by (simp add: in_measure word_less_nat_alt)
qed simp

declare uvmalloc_loop.simps [simp del]

definition uvmalloc :: "u64 \<Rightarrow> u64 \<Rightarrow> u64 \<Rightarrow> u64 \<Rightarrow> ('x kmach_scheme, u64) kfun" where
  "uvmalloc pagetable oldsz newsz xperm =
     (if newsz < oldsz then ret oldsz else
      let oldsz = PGROUNDUP oldsz in
      bind (uvmalloc_loop pagetable oldsz newsz xperm) (\<lambda>r.
      case r of
        Inr _ \<Rightarrow> ret newsz
      | Inl a \<Rightarrow> bind (uvmunmap pagetable oldsz ((a - oldsz) div PGSIZE) True) (\<lambda>_. ret 0)))"

definition uvmdealloc :: "u64 \<Rightarrow> u64 \<Rightarrow> u64 \<Rightarrow> ('x kmach_scheme, u64) kfun" where
  "uvmdealloc pagetable oldsz newsz =
     (if oldsz \<le> newsz then ret oldsz else
      bind (if PGROUNDUP newsz < PGROUNDUP oldsz
            then uvmunmap pagetable (PGROUNDUP newsz)
                   ((PGROUNDUP oldsz - PGROUNDUP newsz) div PGSIZE) True
            else ret ()) (\<lambda>_.
      ret newsz))"

definition uvmfree :: "u64 \<Rightarrow> u64 \<Rightarrow> ('x kmach_scheme, unit) kfun" where
  "uvmfree pagetable sz =
     bind (if 0 < sz then uvmunmap pagetable 0 (PGROUNDUP sz div PGSIZE) True else ret ()) (\<lambda>_.
     freewalk 2 pagetable)"

text \<open>One iteration of \<open>uvmcopy\<close>: the page at \<open>i\<close>, if the parent has it, is copied to a new page.\<close>

definition copy_page :: "u64 \<Rightarrow> u64 \<Rightarrow> u64 \<Rightarrow> ('x kmach_scheme, bool) kfun" where
  "copy_page old new i =
     bind (walk old i False) (\<lambda>pte.
     if pte = 0 then ret True else
     bind (gets (\<lambda>s. ld64 (mem s) pte)) (\<lambda>e.
     if e AND PTE_V = 0 then ret True else
     bind kalloc (\<lambda>p.
     if p = 0 then ret False else
     bind (modify (\<lambda>s. s\<lparr>mem := memmove (mem s) p (PTE2PA e) 4096\<rparr>)) (\<lambda>_.
     bind (mappages new i PGSIZE p (PTE_FLAGS e)) (\<lambda>r.
     if r \<noteq> 0 then bind (kfree p) (\<lambda>_. ret False) else ret True)))))"

lemma copy_page_DoneD: "copy_page old new i s = Done ok t \<Longrightarrow> i < MAXVA"
  unfolding copy_page_def bind_eq_Done using walk_DoneD by blast

function uvmcopy_loop :: "u64 \<Rightarrow> u64 \<Rightarrow> u64 \<Rightarrow> u64 \<Rightarrow> ('x kmach_scheme, u64 + unit) kfun" where
  "uvmcopy_loop old new i sz s =
     (if i < sz
      then bind (copy_page old new i) (\<lambda>ok t.
             if ok then uvmcopy_loop old new (i + PGSIZE) sz t else Done (Inl i) t) s
      else Done (Inr ()) s)"
  by pat_completeness auto

termination uvmcopy_loop
proof (relation "measure (\<lambda>(old, new, i, sz, s). unat sz - unat i)", goal_cases)
  case (2 old new i sz s ok t)
  from MAXVA_step[OF copy_page_DoneD[OF 2(2)]] 2(1) show ?case
    by (simp add: in_measure word_less_nat_alt)
qed simp

declare uvmcopy_loop.simps [simp del]

definition uvmcopy :: "u64 \<Rightarrow> u64 \<Rightarrow> u64 \<Rightarrow> ('x kmach_scheme, int) kfun" where
  "uvmcopy old new sz =
     bind (uvmcopy_loop old new 0 sz) (\<lambda>r.
     case r of
       Inr _ \<Rightarrow> ret 0
     | Inl i \<Rightarrow> bind (uvmunmap new 0 (i div PGSIZE) True) (\<lambda>_. ret (- 1)))"

section \<open>Copying between the kernel and user memory\<close>

text \<open>
  \<open>n\<close> in the loops of \<open>copyout\<close>, \<open>copyin\<close> and \<open>copyinstr\<close>: the bytes up to the end of the page, or
  what is left. It is positive while anything is left, so the loops end.
\<close>

definition chunk :: "u64 \<Rightarrow> nat \<Rightarrow> nat" where
  "chunk va len = min (4096 - unat (va - PGROUNDDOWN va)) len"

lemma page_offset: "unat (va - PGROUNDDOWN va) = unat va mod 4096"
proof -
  have "unat va div 4096 * 4096 \<le> unat va" by simp
  then show ?thesis
    by (simp add: unat_sub_if_u64 unat_PGROUNDDOWN minus_div_mult_eq_mod)
qed

lemma chunk_pos: "0 < len \<Longrightarrow> 0 < chunk va len"
  by (simp add: chunk_def page_offset)

lemma chunk_le: "chunk va len \<le> len"
  by (simp add: chunk_def)

function copyout :: "u64 \<Rightarrow> u64 \<Rightarrow> u64 \<Rightarrow> bytes \<Rightarrow> ('x kmach_scheme, int) kfun" where
  "copyout pagetable sz dstva src s =
     (if src = [] then Done 0 s else
      bind (walkaddr pagetable (PGROUNDDOWN dstva)) (\<lambda>pa0.
      if pa0 = 0 then ret (- 1) else
      bind (walk pagetable (PGROUNDDOWN dstva) False) (\<lambda>pte.
      bind (gets (\<lambda>s. ld64 (mem s) pte)) (\<lambda>e.
      if e AND PTE_W = 0 then ret (- 1) else
      bind (modify (\<lambda>s. s\<lparr>mem := st_bytes (mem s) (pa0 + dstva - PGROUNDDOWN dstva)
              (take (chunk dstva (length src)) src)\<rparr>)) (\<lambda>_ t.
      copyout pagetable sz (PGROUNDDOWN dstva + PGSIZE) (drop (chunk dstva (length src)) src) t)))) s)"
  by pat_completeness auto

termination copyout
proof (relation "measure (\<lambda>(pg, sz, va, src, s). length src)", goal_cases)
  case (2 pg sz va src s)
  then show ?case using chunk_pos[of "length src" va] by (simp add: in_measure)
qed simp

declare copyout.simps [simp del]

function copyin :: "u64 \<Rightarrow> u64 \<Rightarrow> u64 \<Rightarrow> nat \<Rightarrow> ('x kmach_scheme, int \<times> bytes) kfun" where
  "copyin pagetable sz srcva len s =
     (if len = 0 then Done (0, []) s else
      bind (walkaddr pagetable (PGROUNDDOWN srcva)) (\<lambda>pa0.
      if pa0 = 0 then ret (- 1, []) else
      bind (gets (\<lambda>s. ld_bytes (mem s) (pa0 + srcva - PGROUNDDOWN srcva) (chunk srcva len))) (\<lambda>bs.
      bind (\<lambda>t. copyin pagetable sz (PGROUNDDOWN srcva + PGSIZE) (len - chunk srcva len) t) (\<lambda>(r, rest).
      ret (r, bs @ rest)))) s)"
  by pat_completeness auto

termination copyin
proof (relation "measure (\<lambda>(pg, sz, va, len, s). len)", goal_cases)
  case (2 pg sz va len s)
  then show ?case using chunk_pos[of len va] by (simp add: in_measure)
qed simp

declare copyin.simps [simp del]

text \<open>The inner loop of \<open>copyinstr\<close>: what it copies of a chunk, and whether it met the NUL.\<close>

fun copy_until_null :: "bytes \<Rightarrow> bytes \<times> bool" where
  "copy_until_null [] = ([], False)"
| "copy_until_null (c # cs) =
     (if c = 0 then ([0], True) else let (r, got) = copy_until_null cs in (c # r, got))"

function copyinstr :: "u64 \<Rightarrow> u64 \<Rightarrow> u64 \<Rightarrow> nat \<Rightarrow> ('x kmach_scheme, int \<times> bytes) kfun" where
  "copyinstr pagetable sz srcva maxlen s =
     (if maxlen = 0 then Done (- 1, []) s else
      bind (walkaddr pagetable (PGROUNDDOWN srcva)) (\<lambda>pa0.
      if pa0 = 0 then ret (- 1, []) else
      bind (gets (\<lambda>s. copy_until_null
              (ld_bytes (mem s) (pa0 + srcva - PGROUNDDOWN srcva) (chunk srcva maxlen)))) (\<lambda>(bs, got_null).
      if got_null then ret (0, bs) else
      bind (\<lambda>t. copyinstr pagetable sz (PGROUNDDOWN srcva + PGSIZE) (maxlen - chunk srcva maxlen) t) (\<lambda>(r, rest).
      ret (r, bs @ rest)))) s)"
  by pat_completeness auto

termination copyinstr
proof (relation "measure (\<lambda>(pg, sz, va, len, s). len)", goal_cases)
  case (2 pg sz va len s)
  then show ?case using chunk_pos[of len va] by (simp add: in_measure)
qed simp

declare copyinstr.simps [simp del]

section \<open>The kernel's page table\<close>

text \<open>
  \<open>etext\<close> and \<open>trampoline\<close> are linker symbols, arguments here. \<open>kvm\<close> adds the global
  \<open>kernel_pagetable\<close> and the hart's \<open>satp\<close> register to the machine.
\<close>

record kvm = kmach +
  kernel_pagetable :: u64
  satp :: u64

definition MAKE_SATP :: "u64 \<Rightarrow> u64" where
  "MAKE_SATP pagetable = push_bit 60 8 OR drop_bit 12 pagetable"

definition proc_mapstacks :: "u64 \<Rightarrow> ('x kmach_scheme, unit) kfun" where
  "proc_mapstacks kpgtbl =
     foreach [0..<NPROC] (\<lambda>i.
       bind kalloc (\<lambda>pa.
       if pa = 0 then panic ''proc_mapstacks'' else
       kvmmap kpgtbl (KSTACK i) pa PGSIZE (PTE_R OR PTE_W)))"

definition kvmmake :: "u64 \<Rightarrow> u64 \<Rightarrow> ('x kmach_scheme, u64) kfun" where
  "kvmmake etext trampoline =
     bind kalloc (\<lambda>kpgtbl.
     if kpgtbl = 0 then panic ''kvmmake'' else
     bind (modify (\<lambda>s. s\<lparr>mem := memset (mem s) kpgtbl 0 4096\<rparr>)) (\<lambda>_.
     bind (kvmmap kpgtbl UART0 UART0 PGSIZE (PTE_R OR PTE_W)) (\<lambda>_.
     bind (kvmmap kpgtbl VIRTIO0 VIRTIO0 PGSIZE (PTE_R OR PTE_W)) (\<lambda>_.
     bind (kvmmap kpgtbl PLIC PLIC 0x4000000 (PTE_R OR PTE_W)) (\<lambda>_.
     bind (kvmmap kpgtbl KERNBASE KERNBASE (etext - KERNBASE) (PTE_R OR PTE_X)) (\<lambda>_.
     bind (kvmmap kpgtbl etext etext (PHYSTOP - etext) (PTE_R OR PTE_W)) (\<lambda>_.
     bind (kvmmap kpgtbl TRAMPOLINE trampoline PGSIZE (PTE_R OR PTE_X)) (\<lambda>_.
     bind (proc_mapstacks kpgtbl) (\<lambda>_.
     ret kpgtbl)))))))))"

definition kvminit :: "u64 \<Rightarrow> u64 \<Rightarrow> ('x kvm_scheme, unit) kfun" where
  "kvminit etext trampoline =
     bind (kvmmake etext trampoline) (\<lambda>pt. modify (\<lambda>s. s\<lparr>kernel_pagetable := pt\<rparr>))"

text \<open>The \<open>sfence_vma\<close> instructions around the write order memory accesses and have no other effect.\<close>

definition kvminithart :: "('x kvm_scheme, unit) kfun" where
  "kvminithart = modify (\<lambda>s. s\<lparr>satp := MAKE_SATP (kernel_pagetable s)\<rparr>)"

section \<open>The rest of the kernel's state\<close>

text \<open>The functions on memory leave alone what a record adds to \<open>kmach\<close>.\<close>

lemmas keeps_simple = keeps_bind keeps_ret keeps_gets keeps_panic keeps_hang keeps_modify keeps_if
  keeps_option keeps_prod keeps_sum keeps_foreach keeps_acquire keeps_release

lemma keeps_kfree [keeps_intros]: "keeps kmach.more (kfree pa)"
  unfolding kfree_def by (intro keeps_simple) simp_all

lemma keeps_kalloc [keeps_intros]: "keeps kmach.more kalloc"
  unfolding kalloc_def by (intro keeps_simple) simp_all

lemma keeps_walk [keeps_intros]: "keeps kmach.more (walk pg va al)"
proof -
  have "keeps kmach.more (walk_loop l pg va al)" for l
    by (induction l arbitrary: pg) (auto intro!: keeps_simple keeps_kalloc)
  then show ?thesis unfolding walk_def by (intro keeps_simple)
qed

lemma keeps_walkaddr [keeps_intros]: "keeps kmach.more (walkaddr pg va)"
  unfolding walkaddr_def by (intro keeps_simple keeps_walk)

lemma keeps_mappages [keeps_intros]: "keeps kmach.more (mappages pg va sz pa perm)"
proof -
  have "keeps kmach.more (mappages_loop n pg a b pa perm)" for n a b pa
    by (induction n arbitrary: a pa) (auto simp: mappages_loop.simps intro!: keeps_simple keeps_walk)
  then show ?thesis unfolding mappages_def by (intro keeps_simple)
qed

lemma keeps_uvmcreate [keeps_intros]: "keeps kmach.more uvmcreate"
  unfolding uvmcreate_def by (intro keeps_simple keeps_kalloc) simp_all

lemma keeps_uvmfirst [keeps_intros]: "keeps kmach.more (uvmfirst pg bs)"
  unfolding uvmfirst_def by (intro keeps_simple keeps_kalloc keeps_mappages) simp_all

lemma keeps_unmap_page [keeps_intros]: "keeps kmach.more (unmap_page pg a fr)"
  unfolding unmap_page_def by (intro keeps_simple keeps_kfree keeps_walk) simp_all

lemma keeps_uvmunmap [keeps_intros]: "keeps kmach.more (uvmunmap pg va n fr)"
proof -
  have "uvmunmap_loop pg a b fr s = Done r t \<Longrightarrow> kmach.more t = kmach.more s" for a b r t and s :: "'x kmach_scheme"
  proof (induction pg a b fr s rule: uvmunmap_loop.induct)
    case (1 pg a b fr s)
    then show ?case
      using keepsD[OF keeps_unmap_page]
      by (auto simp: uvmunmap_loop.simps[of pg a b fr s] bind_eq_Done split: if_splits)
  qed
  then have "keeps kmach.more (uvmunmap_loop pg a b fr)" for a b by (rule keepsI)
  then show ?thesis unfolding uvmunmap_def by (intro keeps_simple)
qed

lemma keeps_freewalk [keeps_intros]: "keeps kmach.more (freewalk l pg)"
  by (induction l arbitrary: pg) (auto simp: freewalk_entry_def intro!: keeps_simple keeps_kfree)

lemma keeps_uvmfree [keeps_intros]: "keeps kmach.more (uvmfree pg sz)"
  unfolding uvmfree_def by (intro keeps_simple keeps_uvmunmap keeps_freewalk)

lemma keeps_uvmdealloc [keeps_intros]: "keeps kmach.more (uvmdealloc pg a b)"
  unfolding uvmdealloc_def by (intro keeps_simple keeps_uvmunmap)

lemma keeps_alloc_page [keeps_intros]: "keeps kmach.more (alloc_page pg a xp)"
  unfolding alloc_page_def by (intro keeps_simple keeps_kalloc keeps_kfree keeps_mappages) simp_all

lemma keeps_uvmalloc [keeps_intros]: "keeps kmach.more (uvmalloc pg a b xp)"
proof -
  have "uvmalloc_loop pg a b xp s = Done r t \<Longrightarrow> kmach.more t = kmach.more s" for a b r t and s :: "'x kmach_scheme"
  proof (induction pg a b xp s rule: uvmalloc_loop.induct)
    case (1 pg a b xp s)
    then show ?case
      using keepsD[OF keeps_alloc_page]
      by (auto simp: uvmalloc_loop.simps[of pg a b xp s] bind_eq_Done split: if_splits)
  qed
  then have "keeps kmach.more (uvmalloc_loop pg a b xp)" for a b by (rule keepsI)
  then show ?thesis unfolding uvmalloc_def Let_def by (intro keeps_simple keeps_uvmunmap)
qed

lemma keeps_copy_page [keeps_intros]: "keeps kmach.more (copy_page old new i)"
  unfolding copy_page_def by (intro keeps_simple keeps_kalloc keeps_kfree keeps_mappages keeps_walk) simp_all

lemma keeps_uvmcopy [keeps_intros]: "keeps kmach.more (uvmcopy old new sz)"
proof -
  have "uvmcopy_loop old new a sz s = Done r t \<Longrightarrow> kmach.more t = kmach.more s" for a r t and s :: "'x kmach_scheme"
  proof (induction old new a sz s rule: uvmcopy_loop.induct)
    case (1 old new a sz s)
    then show ?case
      using keepsD[OF keeps_copy_page]
      by (auto simp: uvmcopy_loop.simps[of old new a sz s] bind_eq_Done split: if_splits)
  qed
  then have "keeps kmach.more (uvmcopy_loop old new a sz)" for a by (rule keepsI)
  then show ?thesis unfolding uvmcopy_def by (intro keeps_simple keeps_uvmunmap)
qed

lemma keeps_copyout [keeps_intros]: "keeps kmach.more (copyout pg sz va src)"
proof (rule keepsI)
  show "copyout pg sz va src s = Done r t \<Longrightarrow> kmach.more t = kmach.more s" for r t and s :: "'x kmach_scheme"
  proof (induction pg sz va src s rule: copyout.induct)
    case (1 pg sz va src s)
    then show ?case
      using keepsD[OF keeps_walkaddr] keepsD[OF keeps_walk]
      by (fastforce simp: copyout.simps[of pg sz va src s] bind_eq_Done split: if_splits)
  qed
qed

lemma copyin_keeps: "copyin pg sz va len s = Done r t \<Longrightarrow> kmach.more t = kmach.more s"
proof (induction pg sz va len s arbitrary: r rule: copyin.induct)
  case (1 pg sz va len s)
  then show ?case
    using keepsD[OF keeps_walkaddr]
    by (fastforce simp: copyin.simps[of pg sz va len s] bind_eq_Done split: if_splits prod.splits)
qed

lemma keeps_copyin [keeps_intros]: "keeps kmach.more (copyin pg sz va len)"
  by (rule keepsI) (rule copyin_keeps)

section \<open>User address spaces\<close>

text \<open>Addresses below the trap frame and the trampoline: the ones \<open>p->sz\<close> can cover.\<close>

definition uva :: "u64 \<Rightarrow> bool" where
  "uva va \<longleftrightarrow> unat va < 0x3FFFFFE000"

lemma uva_TRAPFRAME: "uva va \<longleftrightarrow> va < TRAPFRAME"
  by (simp add: uva_def word_less_nat_alt)

lemma uva_MAXVA: "uva va \<Longrightarrow> va < MAXVA"
  by (simp add: uva_def word_less_nat_alt)

lemma uva_sv39: "uva va \<Longrightarrow> sv39 va"
  by (simp add: uva_def sv39_def)

text \<open>
  The pages a user address space owns are proper pages, apart from each other, from the pages of
  the table and from the free pages.
\<close>

definition aspace :: "'x kmach_scheme \<Rightarrow> u64 list \<Rightarrow> u64 \<Rightarrow> bool" where
  "aspace s xs pg \<longleftrightarrow> vm_ok s xs 2 pg \<and>
     (\<forall>va. uva va \<and> vld (lkup (mem s) 2 pg va) \<longrightarrow>
        page_ok (kend s) (PTE2PA (lkup (mem s) 2 pg va)) \<and>
        PTE2PA (lkup (mem s) 2 pg va) \<notin> tset (mem s) 2 pg \<union> set xs) \<and>
     (\<forall>va va'. uva va \<and> vld (lkup (mem s) 2 pg va) \<and> uva va' \<and> vld (lkup (mem s) 2 pg va') \<and>
        PTE2PA (lkup (mem s) 2 pg va) = PTE2PA (lkup (mem s) 2 pg va') \<longrightarrow> pno va = pno va')"

lemma aspace_vm_ok: "aspace s xs pg \<Longrightarrow> vm_ok s xs 2 pg"
  by (simp add: aspace_def)

lemma aspace_page:
  assumes "aspace s xs pg" and "uva va" and "vld (lkup (mem s) 2 pg va)"
  shows "page_ok (kend s) (PTE2PA (lkup (mem s) 2 pg va))"
    and "PTE2PA (lkup (mem s) 2 pg va) \<notin> tset (mem s) 2 pg"
    and "PTE2PA (lkup (mem s) 2 pg va) \<notin> set xs"
  using assms unfolding aspace_def by blast+

lemma aspace_inj:
  assumes "aspace s xs pg" and "uva va" and "vld (lkup (mem s) 2 pg va)"
    and "uva va'" and "vld (lkup (mem s) 2 pg va')"
    and "PTE2PA (lkup (mem s) 2 pg va) = PTE2PA (lkup (mem s) 2 pg va')"
  shows "pno va = pno va'"
  using assms unfolding aspace_def by blast

text \<open>The physical pages mapped at the page numbers \<open>N\<close>.\<close>

definition mapped_in :: "mem \<Rightarrow> u64 \<Rightarrow> nat set \<Rightarrow> u64 set" where
  "mapped_in m pg N = {PTE2PA (lkup m 2 pg v) | v. sv39 v \<and> pno v \<in> N \<and> vld (lkup m 2 pg v)}"

lemma lkup_same_page:
  assumes "sv39 v" and "sv39 v'" and "pno v = pno v'"
  shows "lkup m 2 pg v = lkup m 2 pg v'"
  using same_vpns_page[OF assms(1,2)] assms(3) lkup_cong unfolding pno_def by blast

lemma mapped_in_empty [simp]: "mapped_in m pg {} = {}"
  by (simp add: mapped_in_def)

lemma mapped_in_insert:
  assumes "sv39 a"
  shows "mapped_in m pg (insert (pno a) N) =
    mapped_in m pg N \<union> (if vld (lkup m 2 pg a) then {PTE2PA (lkup m 2 pg a)} else {})"
proof -
  let ?one = "{PTE2PA (lkup m 2 pg v) | v. sv39 v \<and> pno v = pno a \<and> vld (lkup m 2 pg v)}"
  have "mapped_in m pg (insert (pno a) N) = mapped_in m pg N \<union> ?one"
    unfolding mapped_in_def by blast
  moreover have "?one = (if vld (lkup m 2 pg a) then {PTE2PA (lkup m 2 pg a)} else {})"
  proof (rule set_eqI, rule iffI)
    fix x assume "x \<in> ?one"
    then obtain v where v: "x = PTE2PA (lkup m 2 pg v)" "sv39 v" "pno v = pno a" "vld (lkup m 2 pg v)"
      by blast
    then show "x \<in> (if vld (lkup m 2 pg a) then {PTE2PA (lkup m 2 pg a)} else {})"
      using lkup_same_page[OF v(2) assms v(3), of m pg] by simp
  next
    fix x assume "x \<in> (if vld (lkup m 2 pg a) then {PTE2PA (lkup m 2 pg a)} else {})"
    then show "x \<in> ?one"
      using assms by (auto split: if_splits)
  qed
  ultimately show ?thesis by simp
qed

text \<open>What \<open>uvmunmap\<close> has done once it has gone through the pages \<open>N\<close>.\<close>

definition unmapped ::
  "'x kmach_scheme \<Rightarrow> u64 list \<Rightarrow> u64 \<Rightarrow> nat set \<Rightarrow> bool \<Rightarrow> 'x kmach_scheme \<Rightarrow> bool" where
  "unmapped s xs pg N fr t \<longleftrightarrow> same_regs s t \<and> tset (mem t) 2 pg = tset (mem s) 2 pg \<and>
     (\<forall>v. sv39 v \<longrightarrow> lkup (mem t) 2 pg v =
        (if pno v \<in> N \<and> vld (lkup (mem s) 2 pg v) then 0 else lkup (mem s) 2 pg v)) \<and>
     (\<exists>ys. vm_ok t ys 2 pg \<and> set ys = set xs \<union> (if fr then mapped_in (mem s) pg N else {})) \<and>
     only_pages (tset (mem s) 2 pg \<union> (if fr then mapped_in (mem s) pg N else {})) (mem s) (mem t)"

lemma unmapped_start: "vm_ok s xs 2 pg \<Longrightarrow> unmapped s xs pg {} fr s"
  by (auto simp: unmapped_def)

lemma unmapped_skip:
  assumes "unmapped s xs pg N fr t" and "sv39 a" and "\<not> vld (lkup (mem s) 2 pg a)"
  shows "unmapped s xs pg (insert (pno a) N) fr t"
proof -
  have "\<not> vld (lkup (mem s) 2 pg v)" if "sv39 v" "pno v = pno a" for v
    using lkup_same_page[OF that(1) assms(2) that(2)] assms(3) by simp
  then show ?thesis
    using assms unfolding unmapped_def mapped_in_insert[OF assms(2)] by auto
qed

lemma unmappedI:
  assumes "same_regs s t" and "tset (mem t) 2 pg = tset (mem s) 2 pg"
    and "\<And>v. sv39 v \<Longrightarrow> lkup (mem t) 2 pg v =
        (if pno v \<in> N \<and> vld (lkup (mem s) 2 pg v) then 0 else lkup (mem s) 2 pg v)"
    and "vm_ok t ys 2 pg" and "set ys = set xs \<union> (if fr then mapped_in (mem s) pg N else {})"
    and "only_pages (tset (mem s) 2 pg \<union> (if fr then mapped_in (mem s) pg N else {})) (mem s) (mem t)"
  shows "unmapped s xs pg N fr t"
  unfolding unmapped_def using assms by blast

lemma unmappedE:
  assumes "unmapped s xs pg N fr t"
  obtains ys where "same_regs s t" "tset (mem t) 2 pg = tset (mem s) 2 pg"
    "\<forall>v. sv39 v \<longrightarrow> lkup (mem t) 2 pg v =
        (if pno v \<in> N \<and> vld (lkup (mem s) 2 pg v) then 0 else lkup (mem s) 2 pg v)"
    "vm_ok t ys 2 pg" "set ys = set xs \<union> (if fr then mapped_in (mem s) pg N else {})"
    "only_pages (tset (mem s) 2 pg \<union> (if fr then mapped_in (mem s) pg N else {})) (mem s) (mem t)"
  using assms unfolding unmapped_def by (elim conjE exE) (rule that)

text \<open>Freeing a page outside the table and the pool leaves the table as it was.\<close>

lemma vm_ok_kfree:
  assumes "vm_ok s xs 2 pg" and "page_ok (kend s) pa" and "pa \<notin> tset (mem s) 2 pg" and "pa \<notin> set xs"
  shows "wp (kfree pa) (\<lambda>_ t. vm_ok t (pa # xs) 2 pg \<and> same_regs s t \<and>
           only_pages {pa} (mem s) (mem t) \<and> tset (mem t) 2 pg = tset (mem s) 2 pg \<and>
           (\<forall>v. leaf_addr (mem t) 2 pg v = leaf_addr (mem s) 2 pg v \<and>
                lkup (mem t) 2 pg v = lkup (mem s) 2 pg v)) s"
proof -
  have k: "kmem_inv s xs" "KmemLock \<notin> held s" "tree (kend s) (mem s) 2 pg"
    "tset (mem s) 2 pg \<inter> set xs = {}"
    using assms(1) by (simp_all add: vm_ok_def)
  show ?thesis
  proof (rule wp_kfree[OF k(1,2) assms(2,4)])
    fix m assume m: "kmem_inv (s\<lparr>mem := m, freelist := pa\<rparr>) (pa # xs)" "only_pages {pa} (mem s) m"
    have al: "\<forall>p\<in>{pa}. page_aligned p" and dj: "tset (mem s) 2 pg \<inter> {pa} = {}"
      using page_okD[OF assms(2)] assms(3) by auto
    show "vm_ok (s\<lparr>mem := m, freelist := pa\<rparr>) (pa # xs) 2 pg \<and> same_regs s (s\<lparr>mem := m, freelist := pa\<rparr>) \<and>
        only_pages {pa} (mem s) (mem (s\<lparr>mem := m, freelist := pa\<rparr>)) \<and>
        tset (mem (s\<lparr>mem := m, freelist := pa\<rparr>)) 2 pg = tset (mem s) 2 pg \<and>
        (\<forall>v. leaf_addr (mem (s\<lparr>mem := m, freelist := pa\<rparr>)) 2 pg v = leaf_addr (mem s) 2 pg v \<and>
             lkup (mem (s\<lparr>mem := m, freelist := pa\<rparr>)) 2 pg v = lkup (mem s) 2 pg v)"
      using m k assms(3) table_frame[OF m(2) al k(3) dj] by (simp add: vm_ok_def)
  qed
qed

lemma unmap_page_step:
  assumes ok: "vm_ok s xs 2 pg" and fr: "fr \<Longrightarrow> aspace s xs pg \<and> uva a \<and> (\<forall>v. pno v \<in> N \<longrightarrow> sv39 v \<longrightarrow> uva v)"
    and a: "a < MAXVA" "pno a \<notin> N" and um: "unmapped s xs pg N fr t"
  shows "wp (unmap_page pg a fr) (\<lambda>_. unmapped s xs pg (insert (pno a) N) fr) t"
proof -
  note sv = MAXVA_sv39[OF a(1)]
  obtain ys where t: "same_regs s t" "tset (mem t) 2 pg = tset (mem s) 2 pg"
      "\<forall>v. sv39 v \<longrightarrow> lkup (mem t) 2 pg v =
        (if pno v \<in> N \<and> vld (lkup (mem s) 2 pg v) then 0 else lkup (mem s) 2 pg v)"
      "vm_ok t ys 2 pg" "set ys = set xs \<union> (if fr then mapped_in (mem s) pg N else {})"
      "only_pages (tset (mem s) 2 pg \<union> (if fr then mapped_in (mem s) pg N else {})) (mem s) (mem t)"
    using um by (rule unmappedE)
  have tree_t: "tree (kend t) (mem t) 2 pg" "0 < kend t"
    using t(4) by (simp_all add: vm_ok_def kmem_inv_def)
  have la: "lkup (mem t) 2 pg a = lkup (mem s) 2 pg a"
    using t(3) sv a(2) by simp
  have w: "walk pg a False t = Done (case leaf_addr (mem t) 2 pg a of None \<Rightarrow> 0 | Some x \<Rightarrow> x) t"
    by (rule walk_noalloc[OF a(1)])
  show ?thesis
  proof (cases "vld (lkup (mem s) 2 pg a)")
    case False
    have "unmap_page pg a fr t = Done () t"
    proof (cases "leaf_addr (mem t) 2 pg a")
      case None
      then show ?thesis using w by (simp add: unmap_page_def)
    next
      case (Some x)
      then have "ld64 (mem t) x AND PTE_V = 0"
        using False la lkup_leaf[OF Some] by (simp add: vld_def)
      then show ?thesis using w Some by (simp add: unmap_page_def)
    qed
    then show ?thesis
      using unmapped_skip[OF um sv False] by (simp add: wp_def)
  next
    case True
    then obtain x where x: "leaf_addr (mem t) 2 pg a = Some x"
      using la by (auto simp: lkup_def split: option.splits)
    have nz: "x \<noteq> 0" by (rule leaf_addr_nonzero[OF tree_t x])
    have e: "ld64 (mem t) x = lkup (mem s) 2 pg a"
      using la lkup_leaf[OF x] by simp
    let ?pa = "PTE2PA (lkup (mem s) 2 pg a)"
    have done_: "unmapped s xs pg (insert (pno a) N) fr (u\<lparr>mem := st64 (mem u) x 0\<rparr>)"
      if u: "vm_ok u zs 2 pg" "same_regs t u" "set zs = set ys \<union> (if fr then {?pa} else {})"
        "only_pages (if fr then {?pa} else {}) (mem t) (mem u)"
        "tset (mem u) 2 pg = tset (mem t) 2 pg"
        "\<forall>v. leaf_addr (mem u) 2 pg v = leaf_addr (mem t) 2 pg v \<and> lkup (mem u) 2 pg v = lkup (mem t) 2 pg v"
      for u zs
    proof (rule unmappedI)
      have xu: "leaf_addr (mem u) 2 pg a = Some x" using u(6) x by simp
      have tu: "tree (kend u) (mem u) 2 pg" using u(1) by (simp add: vm_ok_def)
      note ls = leaf_store[OF tu xu]
      show "same_regs s (u\<lparr>mem := st64 (mem u) x 0\<rparr>)"
        by (rule same_regs_trans[OF same_regs_trans[OF t(1) u(2)]]) simp
      show "tset (mem (u\<lparr>mem := st64 (mem u) x 0\<rparr>)) 2 pg = tset (mem s) 2 pg"
        using ls u(5) t(2) by simp
      show "vm_ok (u\<lparr>mem := st64 (mem u) x 0\<rparr>) zs 2 pg"
        by (rule vm_ok_leaf_store[OF u(1) xu])
      show "set zs = set xs \<union> (if fr then mapped_in (mem s) pg (insert (pno a) N) else {})"
        using u(3) t(5) True by (simp add: mapped_in_insert[OF sv])
      have "only_pages ((if fr then {?pa} else {}) \<union> tset (mem s) 2 pg) (mem t) (st64 (mem u) x 0)"
        using only_pages_trans_Un[OF u(4) leaf_store_only[OF tu xu]] u(5) t(2) by simp
      from only_pages_trans_Un[OF t(6) this]
      show "only_pages (tset (mem s) 2 pg \<union> (if fr then mapped_in (mem s) pg (insert (pno a) N) else {}))
          (mem s) (mem (u\<lparr>mem := st64 (mem u) x 0\<rparr>))"
        by (rule_tac only_pages_mono) (auto simp: mapped_in_insert[OF sv] True)
      fix v assume "sv39 v"
      then show "lkup (mem (u\<lparr>mem := st64 (mem u) x 0\<rparr>)) 2 pg v =
          (if pno v \<in> insert (pno a) N \<and> vld (lkup (mem s) 2 pg v) then 0 else lkup (mem s) 2 pg v)"
        using store_mapping[OF u(1) a(1) xu, of v 0] u(6) t(3) True lkup_same_page[OF _ sv, of v "mem s" pg]
        by auto
    qed
    have body: "wp (if fr then kfree ?pa else ret ())
        (\<lambda>_ u. unmapped s xs pg (insert (pno a) N) fr (u\<lparr>mem := st64 (mem u) x 0\<rparr>)) t"
    proof (cases fr)
      case False
      then show ?thesis
        using done_[of t ys] t(4) by (simp add: wp_ret)
    next
      case T: True
      have as: "aspace s xs pg" "uva a" "\<forall>v. pno v \<in> N \<longrightarrow> sv39 v \<longrightarrow> uva v" using fr[OF T] by auto
      note ap = aspace_page[OF as(1,2) True]
      have "?pa \<notin> mapped_in (mem s) pg N"
      proof
        assume "?pa \<in> mapped_in (mem s) pg N"
        then obtain v where v: "?pa = PTE2PA (lkup (mem s) 2 pg v)" "sv39 v" "pno v \<in> N" "vld (lkup (mem s) 2 pg v)"
          by (auto simp: mapped_in_def)
        have "uva v" using as(3) v(2,3) by blast
        from aspace_inj[OF as(1,2) True this v(4) v(1)] v(3) a(2) show False by simp
      qed
      then have pa: "?pa \<notin> set ys" "?pa \<notin> tset (mem t) 2 pg" "page_ok (kend t) ?pa"
        using ap t(2,5) T same_regsD[OF t(1)] by auto
      have "wp (kfree ?pa) (\<lambda>_ u. unmapped s xs pg (insert (pno a) N) fr (u\<lparr>mem := st64 (mem u) x 0\<rparr>)) t"
        by (rule wp_mono[OF vm_ok_kfree[OF t(4) pa(3,2,1)]]) (rule done_, use T in auto)
      then show ?thesis using T by simp
    qed
    then show ?thesis
      unfolding unmap_page_def wp_bind
      using nz x w e True
      by (cases fr) (simp_all add: wp_def[of "walk _ _ _"] wp_bind wp_gets wp_modify_fun vld_def)
  qed
qed

lemma uvmunmap_loop_unmaps:
  fixes s t :: "'x kmach_scheme"
  assumes ok: "vm_ok s xs 2 pg" and al: "page_aligned a" and top: "unat a + 4096 * n \<le> 0x4000000000"
    and fr: "fr \<Longrightarrow> aspace s xs pg \<and> unat a + 4096 * n \<le> 0x3FFFFFE000"
    and um: "unmapped s xs pg {p..<pno a} fr t" and p: "p \<le> pno a"
  shows "wp (uvmunmap_loop pg a (a + of_nat (4096 * n)) fr) (\<lambda>_. unmapped s xs pg {p..<pno a + n} fr) t"
  using al top fr um p
proof (induction n arbitrary: a t)
  case 0
  then show ?case
    by (simp add: uvmunmap_loop.simps wp_def)
next
  case (Suc n)
  have small: "unat a + 4096 * Suc n < 2 ^ 64" using Suc.prems(2) by simp
  have lt: "a < a + of_nat (4096 * Suc n)"
    using unat_add_of_nat[OF small] by (simp only: word_less_nat_alt) simp
  note bd = page_below_MAXVA[OF Suc.prems(1,2)]
  note nx = page_aligned_next[OF Suc.prems(1) bd(2)]
  have u: "uva v" if fr "pno v \<in> {p..<pno a}" for v
  proof -
    have "unat v < 4096 * pno a"
      using that(2) by (simp add: pno_def div_less_iff_less_mult mult.commute)
    also have "\<dots> \<le> unat a" by (simp add: pno_def)
    finally show ?thesis using Suc.prems(3)[OF that(1)] by (simp add: uva_def)
  qed
  have ua: "uva a" if fr using Suc.prems(3)[OF that] by (simp add: uva_def)
  have "wp (unmap_page pg a fr) (\<lambda>_. unmapped s xs pg (insert (pno a) {p..<pno a}) fr) t"
    using Suc.prems(3,4) u ua bd(1) by (intro unmap_page_step[OF ok]) auto
  moreover have "insert (pno a) {p..<pno a} = {p..<pno (a + 4096)}"
    using Suc.prems(5) pno_next[OF Suc.prems(1) bd(2)] by auto
  ultimately have step: "wp (unmap_page pg a fr) (\<lambda>_. unmapped s xs pg {p..<pno (a + 4096)} fr) t"
    by simp
  have last: "a + of_nat (4096 * Suc n) = (a + 4096) + of_nat (4096 * n)"
    by simp
  have pn: "pno a + Suc n = pno (a + 4096) + n"
    using pno_next[OF Suc.prems(1) bd(2)] by simp
  have IH: "wp (uvmunmap_loop pg (a + 4096) (a + of_nat (4096 * Suc n)) fr)
      (\<lambda>_. unmapped s xs pg {p..<pno a + Suc n} fr) u"
    if "unmapped s xs pg {p..<pno (a + 4096)} fr u" for u :: "'x kmach_scheme"
    unfolding last pn
  proof (rule Suc.IH[OF nx(2) _ _ that])
    show "unat (a + 4096) + 4096 * n \<le> 0x4000000000" using nx(1) Suc.prems(2) by simp
    show "aspace s xs pg \<and> unat (a + 4096) + 4096 * n \<le> 0x3FFFFFE000" if fr
      using nx(1) Suc.prems(3)[OF that] by simp
    show "p \<le> pno (a + 4096)" using Suc.prems(5) pno_next[OF Suc.prems(1) bd(2)] by simp
  qed
  have eq: "uvmunmap_loop pg a (a + of_nat (4096 * Suc n)) fr t =
      bind (unmap_page pg a fr) (\<lambda>_. uvmunmap_loop pg (a + 4096) (a + of_nat (4096 * Suc n)) fr) t"
    using lt by (simp only: uvmunmap_loop.simps[of pg a] if_True PGSIZE_def)
  have "wp (bind (unmap_page pg a fr) (\<lambda>_. uvmunmap_loop pg (a + 4096) (a + of_nat (4096 * Suc n)) fr))
      (\<lambda>_. unmapped s xs pg {p..<pno a + Suc n} fr) t"
    unfolding wp_bind by (rule wp_mono[OF step IH])
  then show ?case
    unfolding wp_def eq .
qed

lemma uvmunmap_unmaps:
  fixes s :: "'x kmach_scheme"
  assumes "vm_ok s xs 2 pg" and "page_aligned va" and "unat va + 4096 * n \<le> 0x4000000000"
    and "fr \<Longrightarrow> aspace s xs pg \<and> unat va + 4096 * n \<le> 0x3FFFFFE000"
  shows "wp (uvmunmap pg va (of_nat n) fr) (\<lambda>_. unmapped s xs pg {pno va..<pno va + n} fr) s"
proof -
  have "va mod PGSIZE = 0" using assms(2) by (simp only: page_aligned_mod)
  moreover have last: "va + of_nat n * PGSIZE = va + of_nat (4096 * n)" by (simp add: mult.commute)
  moreover have "wp (uvmunmap_loop pg va (va + of_nat (4096 * n)) fr)
      (\<lambda>_. unmapped s xs pg {pno va..<pno va + n} fr) s"
    by (rule uvmunmap_loop_unmaps[OF assms]) (use unmapped_start[OF assms(1)] in simp_all)
  ultimately show ?thesis
    unfolding uvmunmap_def last by simp
qed

section \<open>User memory as the copy routines see it\<close>

text \<open>The user mapping of an address, in the sense of \<open>walkaddr\<close>, and the byte it stands for.\<close>

definition umap :: "'x kmach_scheme \<Rightarrow> u64 \<Rightarrow> u64 \<Rightarrow> bool" where
  "umap s pg va \<longleftrightarrow> va < MAXVA \<and> vld (lkup (mem s) 2 pg va) \<and> lkup (mem s) 2 pg va AND PTE_U \<noteq> 0 \<and>
     PTE2PA (lkup (mem s) 2 pg va) \<noteq> 0"

definition uaddr :: "'x kmach_scheme \<Rightarrow> u64 \<Rightarrow> u64 \<Rightarrow> u64" where
  "uaddr s pg va = PTE2PA (lkup (mem s) 2 pg va) + (va - PGROUNDDOWN va)"

definition ubyte :: "'x kmach_scheme \<Rightarrow> u64 \<Rightarrow> u64 \<Rightarrow> u8" where
  "ubyte s pg va = mem s (uaddr s pg va)"

definition ubytes :: "'x kmach_scheme \<Rightarrow> u64 \<Rightarrow> u64 \<Rightarrow> nat \<Rightarrow> bytes" where
  "ubytes s pg va n = map (\<lambda>i. ubyte s pg (va + of_nat i)) [0..<n]"

lemma PGROUNDDOWN_MAXVA: "PGROUNDDOWN va < MAXVA \<longleftrightarrow> va < MAXVA"
proof -
  have "unat va div 4096 * 4096 < 0x4000000 * 4096 \<longleftrightarrow> unat va < 0x4000000 * 4096"
    by (simp add: div_less_iff_less_mult)
  then show ?thesis
    by (simp add: word_less_nat_alt unat_PGROUNDDOWN)
qed

lemma pno_PGROUNDDOWN [simp]: "pno (PGROUNDDOWN va) = pno va"
  by (simp add: pno_def unat_PGROUNDDOWN)

lemma PGROUNDDOWN_eq_iff: "PGROUNDDOWN v = PGROUNDDOWN w \<longleftrightarrow> pno v = pno w"
  by (simp add: word_unat_eq_iff unat_PGROUNDDOWN pno_def)

lemma lkup_PGROUNDDOWN:
  assumes "va < MAXVA"
  shows "lkup m 2 pg (PGROUNDDOWN va) = lkup m 2 pg va"
  using assms PGROUNDDOWN_MAXVA by (intro lkup_same_page MAXVA_sv39) simp_all

lemma walkaddr_page:
  assumes "vm_ok s xs 2 pg"
  shows "walkaddr pg (PGROUNDDOWN va) s =
    Done (if umap s pg va then PTE2PA (lkup (mem s) 2 pg va) else 0) s"
proof (cases "va < MAXVA")
  case True
  have t: "tree (kend s) (mem s) 2 pg" "0 < kend s"
    using assms by (simp_all add: vm_ok_def kmem_inv_def)
  have "PGROUNDDOWN va < MAXVA" using True PGROUNDDOWN_MAXVA by blast
  note walkaddr_eq[OF this t]
  moreover have "(let e = lkup (mem s) 2 pg (PGROUNDDOWN va) in if vld e \<and> e AND PTE_U \<noteq> 0 then PTE2PA e else 0) =
      (if umap s pg va then PTE2PA (lkup (mem s) 2 pg va) else 0)"
    unfolding lkup_PGROUNDDOWN[OF True] Let_def umap_def using True by simp
  ultimately show ?thesis by simp
next
  case False
  then have "MAXVA \<le> PGROUNDDOWN va" using PGROUNDDOWN_MAXVA[of va] not_less by blast
  from walkaddr_beyond[OF this] False show ?thesis
    unfolding umap_def by simp
qed

text \<open>Inside a chunk all addresses share a page.\<close>

lemma chunk_same_page:
  assumes "i < chunk va len"
  shows "pno (va + of_nat i) = pno va" and "unat (va + of_nat i) = unat va + i"
proof -
  have "i < 4096 - unat va mod 4096"
    using assms by (simp add: chunk_def page_offset)
  then have i: "unat va mod 4096 + i < 4096" by linarith
  have al: "unat va div 4096 * 4096 + 4096 \<le> 2 ^ 64"
    using page_aligned_add_le[OF page_aligned_PGROUNDDOWN, of va] unfolding unat_PGROUNDDOWN .
  have eq: "unat va + i = unat va div 4096 * 4096 + (unat va mod 4096 + i)"
    by simp
  then have "unat va + i < 2 ^ 64" using i al by linarith
  then show u: "unat (va + of_nat i) = unat va + i"
    by (rule unat_add_of_nat)
  have "(k * 4096 + r) div 4096 = k" if "r < 4096" for k r :: nat
    using that by simp
  from this[OF i]
  have "(unat va div 4096 * 4096 + (unat va mod 4096 + i)) div 4096 = unat va div 4096" .
  then show "pno (va + of_nat i) = pno va"
    unfolding pno_def u eq .
qed

lemma same_page_MAXVA: "pno v = pno w \<Longrightarrow> v < MAXVA \<longleftrightarrow> w < MAXVA"
  unfolding PGROUNDDOWN_eq_iff[symmetric] using PGROUNDDOWN_MAXVA[of v] PGROUNDDOWN_MAXVA[of w] by argo

lemma umap_same_page:
  assumes eq: "pno v = pno w"
  shows "umap s pg v = umap s pg w"
proof (cases "w < MAXVA")
  case True
  then have "v < MAXVA" using same_page_MAXVA[OF eq] by blast
  then have "lkup (mem s) 2 pg v = lkup (mem s) 2 pg w"
    using True eq by (intro lkup_same_page MAXVA_sv39)
  then show ?thesis unfolding umap_def same_page_MAXVA[OF eq] by simp
next
  case False
  then show ?thesis unfolding umap_def same_page_MAXVA[OF eq] by blast
qed

lemma uaddr_chunk:
  assumes "va < MAXVA" and "i < chunk va len"
  shows "uaddr s pg (va + of_nat i) = PTE2PA (lkup (mem s) 2 pg va) + va - PGROUNDDOWN va + of_nat i"
proof -
  note p = chunk_same_page(1)[OF assms(2)]
  then have "va + of_nat i < MAXVA"
    using assms(1) same_page_MAXVA by blast
  then have "lkup (mem s) 2 pg (va + of_nat i) = lkup (mem s) 2 pg va"
    using assms(1) p by (intro lkup_same_page MAXVA_sv39)
  moreover have "PGROUNDDOWN (va + of_nat i) = PGROUNDDOWN va"
    using p unfolding PGROUNDDOWN_eq_iff .
  ultimately show ?thesis by (simp add: uaddr_def)
qed

lemma ld_bytes_chunk:
  assumes "va < MAXVA" and "n \<le> chunk va len"
  shows "ld_bytes (mem s) (PTE2PA (lkup (mem s) 2 pg va) + va - PGROUNDDOWN va) n = ubytes s pg va n"
proof -
  have "uaddr s pg (va + of_nat i) = PTE2PA (lkup (mem s) 2 pg va) + va - PGROUNDDOWN va + of_nat i"
    if "i < n" for i
    using uaddr_chunk[OF assms(1) less_le_trans[OF that assms(2)]] .
  then show ?thesis
    unfolding ld_bytes_def ubytes_def ubyte_def by simp
qed

text \<open>The start of the next chunk.\<close>

lemma chunk_next:
  assumes "chunk va len < len"
  shows "va + of_nat (chunk va len) = PGROUNDDOWN va + PGSIZE"
proof -
  have c: "unat (va - PGROUNDDOWN va) + chunk va len = 4096"
    using assms page_offset[of va] by (simp add: chunk_def min_def split: if_splits)
  have "va + of_nat (chunk va len) = PGROUNDDOWN va + of_nat (unat (va - PGROUNDDOWN va) + chunk va len)"
    unfolding of_nat_add word_of_unat by (simp add: algebra_simps)
  then show ?thesis unfolding c by simp
qed

lemma ubytes_append:
  "m \<le> n \<Longrightarrow> ubytes s pg va n = ubytes s pg va m @ ubytes s pg (va + of_nat m) (n - m)"
  by (rule nth_equalityI) (auto simp: ubytes_def nth_append add.assoc of_nat_diff)

lemma copyin_copies:
  assumes "vm_ok s xs 2 pg" and "\<forall>i<len. umap s pg (va + of_nat i)"
  shows "copyin pg sz va len s = Done (0, ubytes s pg va len) s"
  using assms
proof (induction pg sz va len s rule: copyin.induct)
  case (1 pg sz va len s)
  show ?case
  proof (cases "len = 0")
    case True
    then show ?thesis by (simp add: copyin.simps ubytes_def)
  next
    case False
    let ?n = "chunk va len"
    have u: "umap s pg va" using spec[OF 1(3), of 0] False by simp
    then have mx: "va < MAXVA" and pa: "PTE2PA (lkup (mem s) 2 pg va) \<noteq> 0"
      by (simp_all add: umap_def)
    have w: "walkaddr pg (PGROUNDDOWN va) s = Done (PTE2PA (lkup (mem s) 2 pg va)) s"
      using walkaddr_page[OF 1(2), of va] u by simp
    have split: "ubytes s pg va len = ubytes s pg va ?n @ ubytes s pg (va + of_nat ?n) (len - ?n)"
      by (rule ubytes_append[OF chunk_le])
    have rest: "copyin pg sz (PGROUNDDOWN va + PGSIZE) (len - ?n) s =
        Done (0, ubytes s pg (va + of_nat ?n) (len - ?n)) s"
    proof (cases "?n < len")
      case True
      have u': "\<forall>i<len - ?n. umap s pg (PGROUNDDOWN va + PGSIZE + of_nat i)"
      proof (intro allI impI)
        fix i assume "i < len - ?n"
        then have "?n + i < len" by simp
        then have "umap s pg (va + of_nat (?n + i))" by (rule 1(3)[rule_format])
        then show "umap s pg (PGROUNDDOWN va + PGSIZE + of_nat i)"
          unfolding chunk_next[OF True, symmetric] by (simp add: add.assoc)
      qed
      show ?thesis
        using 1(1)[OF False w pa 1(2) u']
        unfolding chunk_next[OF True] by simp
    next
      case le: False
      then have "len - ?n = 0" by simp
      then show ?thesis by (simp add: copyin.simps ubytes_def)
    qed
    show ?thesis
      unfolding split ld_bytes_chunk[OF mx order_refl, of s pg len, symmetric]
      using False pa w rest unfolding copyin.simps[of pg sz va len s] by (simp add: bind_def)
  qed
qed

lemma copyin_fails:
  assumes "vm_ok s xs 2 pg" and "j < len" and "\<not> umap s pg (va + of_nat j)"
  shows "\<exists>bs. copyin pg sz va len s = Done (- 1, bs) s"
  using assms
proof (induction pg sz va len s arbitrary: j rule: copyin.induct)
  case (1 pg sz va len s)
  let ?n = "chunk va len"
  have False: "len \<noteq> 0" using 1(3) by simp
  show ?case
  proof (cases "umap s pg va")
    case ff: False
    then have "walkaddr pg (PGROUNDDOWN va) s = Done 0 s"
      using walkaddr_page[OF 1(2), of va] by simp
    then show ?thesis
      using False unfolding copyin.simps[of pg sz va len s] by (simp add: bind_def)
  next
    case u: True
    then have pa: "PTE2PA (lkup (mem s) 2 pg va) \<noteq> 0"
      by (simp add: umap_def)
    have w: "walkaddr pg (PGROUNDDOWN va) s = Done (PTE2PA (lkup (mem s) 2 pg va)) s"
      using walkaddr_page[OF 1(2), of va] u by simp
    have nj: "?n \<le> j"
    proof (rule ccontr)
      assume "\<not> ?n \<le> j"
      then have "pno (va + of_nat j) = pno va" by (intro chunk_same_page(1)) (rule not_le_imp_less)
      from umap_same_page[OF this, of s pg] u 1(4) show "False" by simp
    qed
    then have lt: "?n < len" and j: "j - ?n < len - ?n" using 1(3) by simp_all
    have "va + of_nat j = PGROUNDDOWN va + PGSIZE + of_nat (j - ?n)"
      unfolding chunk_next[OF lt, symmetric] using nj by (simp add: of_nat_diff)
    then have nu: "\<not> umap s pg (PGROUNDDOWN va + PGSIZE + of_nat (j - ?n))"
      using 1(4) by simp
    obtain bs where "copyin pg sz (PGROUNDDOWN va + PGSIZE) (len - ?n) s = Done (- 1, bs) s"
      using 1(1)[OF False w pa 1(2) j nu]
      by auto
    then show ?thesis
      using False pa w unfolding copyin.simps[of pg sz va len s] by (simp add: bind_def)
  qed
qed

subsection \<open>Stores through a user mapping\<close>

definition uwr :: "'x kmach_scheme \<Rightarrow> u64 \<Rightarrow> u64 \<Rightarrow> bool" where
  "uwr s pg va \<longleftrightarrow> umap s pg va \<and> lkup (mem s) 2 pg va AND PTE_W \<noteq> 0"

text \<open>What storing \<open>bs\<close> at the user address \<open>va\<close> does to the address space.\<close>

definition user_stored :: "'x kmach_scheme \<Rightarrow> u64 list \<Rightarrow> u64 \<Rightarrow> u64 \<Rightarrow> bytes \<Rightarrow> 'x kmach_scheme \<Rightarrow> bool" where
  "user_stored s xs pg va bs t \<longleftrightarrow> aspace t xs pg \<and> same_regs s t \<and>
     (\<forall>v. lkup (mem t) 2 pg v = lkup (mem s) 2 pg v) \<and>
     (\<forall>v. uva v \<and> vld (lkup (mem s) 2 pg v) \<longrightarrow>
        ubyte t pg v = (if unat (v - va) < length bs then bs ! unat (v - va) else ubyte s pg v))"

lemma user_storedD:
  assumes "user_stored s xs pg va bs t"
  shows "aspace t xs pg" and "same_regs s t" and "\<forall>v. lkup (mem t) 2 pg v = lkup (mem s) 2 pg v"
    and "\<forall>v. uva v \<and> vld (lkup (mem s) 2 pg v) \<longrightarrow>
        ubyte t pg v = (if unat (v - va) < length bs then bs ! unat (v - va) else ubyte s pg v)"
  using assms unfolding user_stored_def by - (elim conjE, assumption)+

lemma umap_cong:
  assumes "\<forall>v. lkup (mem t) 2 pg v = lkup (mem s) 2 pg v"
  shows "umap t pg va = umap s pg va" and "uwr t pg va = uwr s pg va" and "uaddr t pg va = uaddr s pg va"
  using assms by (simp_all add: umap_def uwr_def uaddr_def)

lemma uaddr_page: "uaddr s pg v = PTE2PA (lkup (mem s) 2 pg v) + of_nat (unat v mod 4096)"
  unfolding uaddr_def page_offset[symmetric] by simp

lemma chunk_addr:
  assumes "unat (v - va) < chunk va len"
  shows "v = va + of_nat (unat (v - va))" and "pno v = pno va"
proof -
  show v: "v = va + of_nat (unat (v - va))" by simp
  show "pno v = pno va" using chunk_same_page(1)[OF assms] by simp
qed

lemma only_pages_chunk:
  assumes "length bs \<le> chunk va len"
  shows "only_pages {PTE2PA (lkup (mem s) 2 pg va)} m (st_bytes m (uaddr s pg va) bs)"
proof -
  have "length bs \<le> 4096 - unat va mod 4096"
    using assms by (simp add: chunk_def page_offset)
  moreover have "unat va mod 4096 < 4096" by simp
  ultimately have "unat va mod 4096 + length bs \<le> 4096" by linarith
  then show ?thesis unfolding uaddr_page by (rule only_pages_st_bytes)
qed

lemma st_bytes_user:
  assumes as: "aspace s xs pg" and va: "uva va" "umap s pg va" and len: "length bs \<le> chunk va len"
    and v: "uva v" "vld (lkup (mem s) 2 pg v)"
  shows "st_bytes (mem s) (uaddr s pg va) bs (uaddr s pg v) =
    (if unat (v - va) < length bs then bs ! unat (v - va) else ubyte s pg v)"
proof (cases "pno v = pno va")
  case True
  have "lkup (mem s) 2 pg v = lkup (mem s) 2 pg va"
    using True by (rule lkup_same_page[OF uva_sv39[OF v(1)] uva_sv39[OF va(1)]])
  moreover have "PGROUNDDOWN v = PGROUNDDOWN va" using True unfolding PGROUNDDOWN_eq_iff .
  ultimately have "uaddr s pg v - uaddr s pg va = v - va" by (simp add: uaddr_def)
  then show ?thesis unfolding st_bytes_def ubyte_def by simp
next
  case False
  have ge: "\<not> unat (v - va) < length bs"
  proof
    assume "unat (v - va) < length bs"
    from chunk_addr(2)[OF less_le_trans[OF this len]] False show "False" by contradiction
  qed
  have vv: "vld (lkup (mem s) 2 pg va)" using va(2) by (simp add: umap_def)
  let ?p = "PTE2PA (lkup (mem s) 2 pg va)" and ?q = "PTE2PA (lkup (mem s) 2 pg v)"
  have "?q \<noteq> ?p" using aspace_inj[OF as v va(1) vv] False by blast
  moreover have "page_aligned ?p" "page_aligned ?q"
    using aspace_page(1)[OF as va(1) vv] aspace_page(1)[OF as v] by (simp_all add: page_ok_def)
  moreover have "only_pages {?p} (mem s) (st_bytes (mem s) (uaddr s pg va) bs)"
    by (rule only_pages_chunk[OF len])
  moreover have "in_page ?q (uaddr s pg v)"
    unfolding uaddr_page by (rule in_page_add) simp
  ultimately have "st_bytes (mem s) (uaddr s pg va) bs (uaddr s pg v) = mem s (uaddr s pg v)"
    by (intro only_pages_at[of "{?p}" _ _ ?q]) simp_all
  then show ?thesis using ge by (simp add: ubyte_def)
qed

lemma aspace_cong:
  assumes "aspace s xs pg" and "vm_ok t xs 2 pg" and "kend t = kend s"
    and "\<forall>v. lkup (mem t) 2 pg v = lkup (mem s) 2 pg v" and "tset (mem t) 2 pg = tset (mem s) 2 pg"
  shows "aspace t xs pg"
  using assms(1,2) unfolding aspace_def assms(3) assms(4)[rule_format] assms(5) by blast

lemma user_store:
  fixes s :: "'x kmach_scheme"
  assumes as: "aspace s xs pg" and va: "uva va" "umap s pg va" and len: "length bs \<le> chunk va len"
  shows "user_stored s xs pg va bs (s\<lparr>mem := st_bytes (mem s) (uaddr s pg va) bs\<rparr>)"
proof -
  let ?p = "PTE2PA (lkup (mem s) 2 pg va)" and ?m = "st_bytes (mem s) (uaddr s pg va) bs"
  have vv: "vld (lkup (mem s) 2 pg va)" using va(2) by (simp add: umap_def)
  note pg = aspace_page[OF as va(1) vv]
  have k: "kmem_inv s xs" "KmemLock \<notin> held s" "tree (kend s) (mem s) 2 pg" "tset (mem s) 2 pg \<inter> set xs = {}"
    using aspace_vm_ok[OF as] by (simp_all add: vm_ok_def)
  have al: "\<forall>p\<in>{?p}. page_aligned p" using pg(1) by (simp add: page_ok_def)
  have op: "only_pages {?p} (mem s) ?m"
    by (rule only_pages_chunk[OF len])
  have dj: "tset (mem s) 2 pg \<inter> {?p} = {}" "{?p} \<inter> set xs = {}" using pg(2,3) by simp_all
  note fr = table_frame[OF op al k(3) dj(1)]
  have ki: "kmem_inv (s\<lparr>mem := ?m\<rparr>) xs" by (rule kmem_inv_frame[OF k(1) op al dj(2)])
  have vm: "vm_ok (s\<lparr>mem := ?m\<rparr>) xs 2 pg"
    unfolding vm_ok_def using ki k fr(1,2) by simp
  have "aspace (s\<lparr>mem := ?m\<rparr>) xs pg"
    by (rule aspace_cong[OF as vm]) (simp_all add: fr)
  moreover have "ubyte (s\<lparr>mem := ?m\<rparr>) pg v = (if unat (v - va) < length bs then bs ! unat (v - va) else ubyte s pg v)"
    if "uva v \<and> vld (lkup (mem s) 2 pg v)" for v
  proof -
    have "uaddr (s\<lparr>mem := ?m\<rparr>) pg v = uaddr s pg v"
      by (rule umap_cong(3)) (simp add: fr(4))
    then have "ubyte (s\<lparr>mem := ?m\<rparr>) pg v = ?m (uaddr s pg v)" unfolding ubyte_def by simp
    also have "\<dots> = (if unat (v - va) < length bs then bs ! unat (v - va) else ubyte s pg v)"
      using st_bytes_user[OF as va len] that by blast
    finally show ?thesis .
  qed
  ultimately show ?thesis
    unfolding user_stored_def by (simp add: fr)
qed

lemma user_stored_append:
  assumes 1: "user_stored s xs pg va as t" and 2: "user_stored t xs pg (va + of_nat (length as)) bs u"
    and len: "length as + length bs < 2 ^ 64"
  shows "user_stored s xs pg va (as @ bs) u"
proof -
  let ?n = "length as"
  note a = user_storedD(2-4)[OF 1] and b = user_storedD[OF 2]
  have n: "unat (of_nat ?n :: u64) = ?n" using len by (intro unat_of_nat_small) simp
  have d: "unat (v - (va + of_nat ?n)) =
      (if ?n \<le> unat (v - va) then unat (v - va) - ?n else unat (v - va) + 2 ^ 64 - ?n)" for v
    using unat_sub_if_u64[of "v - va" "of_nat ?n"] unfolding n by (simp add: diff_diff_add)
  have "ubyte u pg v = (if unat (v - va) < length (as @ bs) then (as @ bs) ! unat (v - va) else ubyte s pg v)"
    if v: "uva v \<and> vld (lkup (mem s) 2 pg v)" for v
  proof -
    have t: "ubyte t pg v = (if unat (v - va) < ?n then as ! unat (v - va) else ubyte s pg v)"
      using a(3) v by blast
    have vt: "uva v \<and> vld (lkup (mem t) 2 pg v)" using v a(2) by simp
    have u: "ubyte u pg v =
        (if unat (v - (va + of_nat ?n)) < length bs then bs ! unat (v - (va + of_nat ?n)) else ubyte t pg v)"
      using b(4) vt by blast
    show ?thesis
    proof (cases "?n \<le> unat (v - va)")
      case True
      then show ?thesis unfolding u t d by (simp add: nth_append less_diff_conv2 add.commute)
    next
      case False
      then have "\<not> unat (v - va) + 2 ^ 64 - ?n < length bs" using len by linarith
      with False show ?thesis unfolding u t d by (simp add: nth_append)
    qed
  qed
  then show ?thesis
    unfolding user_stored_def using a(2) b(1,3) same_regs_trans[OF a(1) b(2)] by simp
qed

lemma copyout_step:
  fixes s :: "'x kmach_scheme"
  assumes as: "aspace s xs pg" and u: "uwr s pg va" and ne: "src \<noteq> []"
  shows "copyout pg sz va src s = copyout pg sz (PGROUNDDOWN va + PGSIZE) (drop (chunk va (length src)) src)
     (s\<lparr>mem := st_bytes (mem s) (uaddr s pg va) (take (chunk va (length src)) src)\<rparr>)"
proof -
  let ?e = "lkup (mem s) 2 pg va"
  have um: "umap s pg va" and W: "?e AND PTE_W \<noteq> 0" using u by (simp_all add: uwr_def)
  have mx: "va < MAXVA" and pa: "PTE2PA ?e \<noteq> 0" and V: "vld ?e" using um by (simp_all add: umap_def)
  have dn: "PGROUNDDOWN va < MAXVA" using mx PGROUNDDOWN_MAXVA by blast
  have w: "walkaddr pg (PGROUNDDOWN va) s = Done (PTE2PA ?e) s"
    using walkaddr_page[OF aspace_vm_ok[OF as], of va] um by simp
  obtain a where a: "leaf_addr (mem s) 2 pg (PGROUNDDOWN va) = Some a"
    using V lkup_PGROUNDDOWN[OF mx, of "mem s" pg] unfolding lkup_def
    by (cases "leaf_addr (mem s) 2 pg (PGROUNDDOWN va)") simp_all
  have e: "ld64 (mem s) a = ?e"
    using lkup_leaf[OF a] unfolding lkup_PGROUNDDOWN[OF mx] by simp
  have wk: "walk pg (PGROUNDDOWN va) False s = Done a s"
    using walk_noalloc[OF dn, of pg s] a by simp
  have ad: "PTE2PA ?e + va - PGROUNDDOWN va = uaddr s pg va" by (simp add: uaddr_def)
  show ?thesis
    unfolding copyout.simps[of pg sz va src s] using ne pa W w wk e ad
    by (simp add: bind_def gets_def modify_def)
qed

lemma copyout_stores:
  fixes s :: "'x kmach_scheme"
  assumes "aspace s xs pg" and "\<forall>i<length src. uwr s pg (va + of_nat i)"
    and "unat va + length src \<le> 0x3FFFFFE000"
  shows "wp (copyout pg sz va src) (\<lambda>r t. r = 0 \<and> user_stored s xs pg va src t) s"
  using assms
proof (induction "length src" arbitrary: s va src rule: less_induct)
  case less
  let ?n = "chunk va (length src)"
  show ?case
  proof (cases "src = []")
    case True
    then show ?thesis
      using less.prems(1) by (simp add: copyout.simps wp_def user_stored_def)
  next
    case ne: False
    have u0: "uwr s pg va" using less.prems(2)[rule_format, of 0] ne by simp
    have uv: "uva va" using less.prems(3) ne by (cases src) (simp_all add: uva_def)
    let ?t = "s\<lparr>mem := st_bytes (mem s) (uaddr s pg va) (take ?n src)\<rparr>"
    have st: "user_stored s xs pg va (take ?n src) ?t"
      using u0 by (intro user_store[OF less.prems(1) uv, of _ "length src"]) (simp_all add: uwr_def)
    note step = copyout_step[OF less.prems(1) u0 ne, of sz]
    note t = user_storedD(1,3)[OF st]
    have nle: "?n \<le> length src" by (rule chunk_le)
    have sz: "length src < 2 ^ 64" using less.prems(3) by simp
    have "wp (copyout pg sz (PGROUNDDOWN va + PGSIZE) (drop ?n src))
        (\<lambda>r u. r = 0 \<and> user_stored ?t xs pg (va + of_nat ?n) (drop ?n src) u) ?t"
    proof (cases "?n < length src")
      case True
      have nx: "unat (va + of_nat ?n) = unat va + ?n"
        using less.prems(3) nle by (intro unat_add_of_nat) simp
      have uw: "uwr ?t pg (va + of_nat ?n + of_nat i)" if "i < length (drop ?n src)" for i
      proof -
        have "uwr s pg (va + of_nat (?n + i))" using that by (intro less.prems(2)[rule_format]) simp
        then show ?thesis unfolding umap_cong(2)[OF t(2)] by (simp add: add.assoc)
      qed
      have "wp (copyout pg sz (va + of_nat ?n) (drop ?n src))
          (\<lambda>r u. r = 0 \<and> user_stored ?t xs pg (va + of_nat ?n) (drop ?n src) u) ?t"
      proof (rule less.hyps[OF _ t(1)])
        show "length (drop ?n src) < length src" using chunk_pos[of "length src" va] ne by simp
        show "unat (va + of_nat ?n) + length (drop ?n src) \<le> 0x3FFFFFE000"
          unfolding nx using nle less.prems(3) by simp
      qed (use uw in blast)
      then show ?thesis unfolding chunk_next[OF True] .
    next
      case False
      then show ?thesis using t(1) by (simp add: copyout.simps wp_def user_stored_def)
    qed
    moreover have "user_stored s xs pg va src u" if "user_stored ?t xs pg (va + of_nat ?n) (drop ?n src) u" for u
      using user_stored_append[OF st, of "drop ?n src" u] that nle sz by simp
    ultimately show ?thesis
      unfolding wp_def step by (auto split: outcome.splits)
  qed
qed

section \<open>Tearing down an address space\<close>

lemma mapped_in_pages:
  assumes "aspace s xs pg" and "\<forall>v. sv39 v \<longrightarrow> pno v \<in> N \<longrightarrow> uva v"
  shows "mapped_in (mem s) pg N \<inter> tset (mem s) 2 pg = {}"
  using aspace_page(2)[OF assms(1)] assms(2) unfolding mapped_in_def by blast

lemma uvmfree_frees:
  fixes s :: "'x kmach_scheme"
  assumes as: "aspace s xs pg" and sz: "unat sz \<le> 0x3FFFFFE000"
    and cover: "\<forall>v. sv39 v \<and> vld (lkup (mem s) 2 pg v) \<longrightarrow> unat v < unat (PGROUNDUP sz)"
  shows "wp (uvmfree pg sz) (\<lambda>_ t. \<exists>ys. kmem_inv t ys \<and> same_regs s t \<and>
     set ys = set xs \<union> tset (mem s) 2 pg \<union> mapped_in (mem s) pg UNIV) s"
proof -
  define n where "n = (unat sz + 4095) div 4096"
  have up: "unat (PGROUNDUP sz) = n * 4096"
    unfolding n_def using sz by (intro unat_PGROUNDUP) simp
  have top: "4096 * n \<le> 0x3FFFFFE000"
    using sz unfolding n_def by (simp add: less_eq_div_iff_mult_less_eq div_le_mono)
  have np: "PGROUNDUP sz div PGSIZE = of_nat n"
    using up top by (simp add: word_unat_eq_iff unat_div unat_of_nat_small)
  have in_n: "pno v < n" if "sv39 v" "vld (lkup (mem s) 2 pg v)" for v
    using cover that unfolding up pno_def by (simp add: div_less_iff_less_mult)
  have all: "mapped_in (mem s) pg {0..<n} = mapped_in (mem s) pg UNIV"
    using in_n unfolding mapped_in_def by auto
  have fw: "wp (freewalk 2 pg) (\<lambda>_ t. \<exists>ys. kmem_inv t ys \<and> same_regs s t \<and>
      set ys = set xs \<union> tset (mem s) 2 pg \<union> mapped_in (mem s) pg UNIV) u"
    if vm: "vm_ok u ys 2 pg" and none: "no_leaves (mem u) 2 pg" and rg: "same_regs s u"
      and ts: "tset (mem u) 2 pg = tset (mem s) 2 pg"
      and ys: "set ys = set xs \<union> mapped_in (mem s) pg UNIV" for u ys
    using freewalk_frees[OF vm none]
  proof (rule wp_mono)
    fix a t assume "freed u ys (tset (mem u) 2 pg) t"
    then obtain zs where "kmem_inv t zs" "same_regs u t" "set zs = set ys \<union> tset (mem u) 2 pg"
      unfolding freed_def by blast
    then show "\<exists>ys. kmem_inv t ys \<and> same_regs s t \<and>
        set ys = set xs \<union> tset (mem s) 2 pg \<union> mapped_in (mem s) pg UNIV"
      unfolding ys ts using same_regs_trans[OF rg] by blast
  qed
  show ?thesis
  proof (cases "sz = 0")
    case True
    then have "n = 0" by (simp add: n_def)
    then have "\<not> vld (lkup (mem s) 2 pg v)" if "sv39 v" for v using in_n that by auto
    then have "no_leaves (mem s) 2 pg" by (intro no_leaves_sv39) blast
    moreover have "mapped_in (mem s) pg UNIV = {}" using all \<open>n = 0\<close> by simp
    ultimately show ?thesis
      using fw[OF aspace_vm_ok[OF as]] True by (simp add: uvmfree_def wp_bind wp_ret)
  next
    case False
    have um: "wp (uvmunmap pg 0 (of_nat n) True) (\<lambda>_. unmapped s xs pg {pno 0..<pno 0 + n} True) s"
      by (rule uvmunmap_unmaps[OF aspace_vm_ok[OF as]]) (use as top in \<open>simp_all add: page_aligned_def\<close>)
    have "wp (bind (uvmunmap pg 0 (of_nat n) True) (\<lambda>_. freewalk 2 pg))
        (\<lambda>_ t. \<exists>ys. kmem_inv t ys \<and> same_regs s t \<and>
           set ys = set xs \<union> tset (mem s) 2 pg \<union> mapped_in (mem s) pg UNIV) s"
      unfolding wp_bind using um
    proof (rule wp_mono)
      fix a u assume "unmapped s xs pg {pno 0..<pno 0 + n} True u"
      then have "unmapped s xs pg {0..<n} True u" by (simp add: pno_def)
      then obtain ys where u: "same_regs s u" "tset (mem u) 2 pg = tset (mem s) 2 pg"
        "\<forall>v. sv39 v \<longrightarrow> lkup (mem u) 2 pg v =
          (if pno v \<in> {0..<n} \<and> vld (lkup (mem s) 2 pg v) then 0 else lkup (mem s) 2 pg v)"
        "vm_ok u ys 2 pg" "set ys = set xs \<union> (if True then mapped_in (mem s) pg {0..<n} else {})"
        by (rule unmappedE)
      have "\<not> vld (lkup (mem u) 2 pg v)" if "sv39 v" for v
        using u(3) in_n[OF that] that by auto
      then have "no_leaves (mem u) 2 pg" by (intro no_leaves_sv39) blast
      from fw[OF u(4) this u(1,2)] u(5) show "wp (freewalk 2 pg) (\<lambda>_ t. \<exists>ys. kmem_inv t ys \<and> same_regs s t \<and>
           set ys = set xs \<union> tset (mem s) 2 pg \<union> mapped_in (mem s) pg UNIV) u"
        unfolding all by simp
    qed
    then show ?thesis unfolding uvmfree_def np using False by (simp add: word_gt_0)
  qed
qed

section \<open>Properties\<close>

text \<open>A process of one page: tables at \<open>0x80000000\<close>, \<open>0x80001000\<close> and \<open>0x80002000\<close> that map address 0
  to \<open>0x80003000\<close>, readable and writable by the user, and no free page.\<close>

definition user_demo :: kmach where
  "user_demo = \<lparr>held = {}, mem = st64 (st64 (st64 (\<lambda>_. 0) 0x80000000 0x20000401) 0x80001000 0x20000801)
     0x80002000 0x20000C17, freelist = 0, kend = 0x80000000\<rparr>"

lemma pte_at_st_first:
  assumes "page_aligned pg" and "i < 512"
  shows "pte_at (st64 m pg v) pg i = (if i = 0 then v else pte_at m pg i)"
  using pte_at_st_other[OF assms(1), of 0 i m v] pte_at_st_same[of m pg 0 v] assms(2)
  by (simp add: pte_addr_def)

lemma pte_at_st_page:
  assumes "page_aligned pg" and "page_aligned q" and "q \<noteq> pg" and "i < 512"
  shows "pte_at (st64 m q v) pg i = pte_at m pg i"
  by (rule pte_at_frame[OF only_pages_st64_0]) (use assms in simp_all)

lemma user_demo_ptes:
  assumes "i < 512"
  shows "pte_at (mem user_demo) 0x80000000 i = (if i = 0 then 0x20000401 else 0)"
    and "pte_at (mem user_demo) 0x80001000 i = (if i = 0 then 0x20000801 else 0)"
    and "pte_at (mem user_demo) 0x80002000 i = (if i = 0 then 0x20000C17 else 0)"
proof -
  have z: "pte_at (\<lambda>_. 0) pg i = 0" for pg
    unfolding pte_at_def by (rule ld64_zero) simp
  show "pte_at (mem user_demo) 0x80000000 i = (if i = 0 then 0x20000401 else 0)"
    "pte_at (mem user_demo) 0x80001000 i = (if i = 0 then 0x20000801 else 0)"
    "pte_at (mem user_demo) 0x80002000 i = (if i = 0 then 0x20000C17 else 0)"
    using assms z by (simp_all add: user_demo_def pte_at_st_first pte_at_st_page page_aligned_def)
qed

lemma user_demo_kids:
  assumes "i < 512"
  shows "kid (mem user_demo) 0x80000000 i = (if i = 0 then Some 0x80001000 else None)"
    and "kid (mem user_demo) 0x80001000 i = (if i = 0 then Some 0x80002000 else None)"
  using assms by (simp_all add: kid_def vld_def PTE_V_def PTE2PA_def user_demo_ptes)

lemma tset_single:
  assumes "\<And>i. i < 512 \<Longrightarrow> kid m pg i = (if i = 0 then Some c else None)"
  shows "tset m (Suc l) pg = insert pg (tset m l c)"
proof -
  have "(\<exists>i<512. \<exists>d. kid m pg i = Some d \<and> x \<in> tset m l d) \<longleftrightarrow> x \<in> tset m l c" for x
  proof
    assume "\<exists>i<512. \<exists>d. kid m pg i = Some d \<and> x \<in> tset m l d"
    then show "x \<in> tset m l c" using assms by (auto split: if_splits)
  next
    assume "x \<in> tset m l c"
    then show "\<exists>i<512. \<exists>d. kid m pg i = Some d \<and> x \<in> tset m l d"
      using assms[of 0] by (intro exI[of _ 0] conjI exI[of _ c]) simp_all
  qed
  then show ?thesis unfolding set_eq_iff tset_Suc_iff by simp
qed

lemma user_demo_table:
  "tset (mem user_demo) 2 0x80000000 = {0x80000000, 0x80001000, 0x80002000}"
  "tree 0x80000000 (mem user_demo) 2 0x80000000"
  "lkup (mem user_demo) 2 0x80000000 va =
     (if vpn 0 va = 0 \<and> vpn 1 va = 0 \<and> vpn 2 va = 0 then 0x20000C17 else 0)"
proof -
  have two: "(2 :: nat) = Suc (Suc 0)" "(1 :: nat) = Suc 0" by simp_all
  have ts1: "tset (mem user_demo) (Suc 0) 0x80001000 = {0x80001000, 0x80002000}"
    using tset_single[OF user_demo_kids(2), of 0] by simp
  show ts: "tset (mem user_demo) 2 0x80000000 = {0x80000000, 0x80001000, 0x80002000}"
    unfolding two using tset_single[OF user_demo_kids(1), of "Suc 0"] ts1 by simp
  have "tree 0x80000000 (mem user_demo) (Suc 0) 0x80001000"
    by (rule tree_SucI)
      (auto simp: user_demo_kids user_demo_ptes ptr_pte_def page_ok_def page_aligned_def PTE_V_def PTE_R_def PTE_W_def PTE_X_def split: if_splits)
  then show "tree 0x80000000 (mem user_demo) 2 0x80000000"
    unfolding two by (intro tree_SucI)
      (auto simp: user_demo_kids user_demo_ptes ts1 ptr_pte_def page_ok_def page_aligned_def PTE_V_def PTE_R_def PTE_W_def PTE_X_def split: if_splits)
  show "lkup (mem user_demo) 2 0x80000000 va =
     (if vpn 0 va = 0 \<and> vpn 1 va = 0 \<and> vpn 2 va = 0 then 0x20000C17 else 0)"
    unfolding two by (simp add: lkup_Suc lkup_0 user_demo_kids user_demo_ptes)
qed

lemma user_demo_mapped:
  assumes "sv39 va"
  shows "lkup (mem user_demo) 2 0x80000000 va = (if pno va = 0 then 0x20000C17 else 0)"
proof -
  have "(vpn 0 va = 0 \<and> vpn 1 va = 0 \<and> vpn 2 va = 0) \<longleftrightarrow> same_vpns 2 va 0"
    by (simp add: numeral_2_eq_2 vpn_eq)
  also have "\<dots> \<longleftrightarrow> pno va = 0"
    using same_vpns_page[OF assms, of 0] by (simp add: pno_def sv39_def)
  finally show ?thesis unfolding user_demo_table(3) by simp
qed

lemma user_demo_aspace: "aspace user_demo [] 0x80000000"
proof -
  have k: "kmem_inv user_demo []" by (simp add: kmem_inv_def user_demo_def)
  then have "vm_ok user_demo [] 2 0x80000000"
    using user_demo_table(2) by (simp add: vm_ok_def) (simp add: user_demo_def)
  moreover have "kend user_demo = 0x80000000" by (simp add: user_demo_def)
  moreover have "lkup (mem user_demo) 2 0x80000000 va = (if pno va = 0 then 0x20000C17 else 0)" if "uva va" for va
    by (rule user_demo_mapped[OF uva_sv39[OF that]])
  moreover have "PTE2PA 0x20000C17 = 0x80003000" by (simp add: PTE2PA_def)
  moreover have "page_ok 0x80000000 0x80003000" by (simp add: page_ok_def page_aligned_def)
  ultimately show ?thesis
    unfolding aspace_def user_demo_table(1) by (auto split: if_splits)
qed

text \<open>C17: \<open>uvmunmap\<close> with \<open>do_free\<close> on pages below the trap frame. Afterwards no page of the range is
  mapped and every other address translates as before; exactly the physical pages that were
  mapped in the range have gone to the free list, and nothing but them and the pages of the table
  has been written.\<close>

theorem uvmunmap_frees_range:
  assumes "aspace s xs pg" and "page_aligned va" and "unat va + 4096 * n \<le> 0x3FFFFFE000"
  shows "wp (uvmunmap pg va (of_nat n) True) (\<lambda>_ t. \<exists>ys. vm_ok t ys 2 pg \<and>
     set ys = set xs \<union> mapped_in (mem s) pg {pno va..<pno va + n} \<and>
     (\<forall>v. sv39 v \<longrightarrow> lkup (mem t) 2 pg v = (if pno va \<le> pno v \<and> pno v < pno va + n \<and> vld (lkup (mem s) 2 pg v)
        then 0 else lkup (mem s) 2 pg v)) \<and>
     only_pages (tset (mem s) 2 pg \<union> mapped_in (mem s) pg {pno va..<pno va + n}) (mem s) (mem t)) s"
proof -
  have "wp (uvmunmap pg va (of_nat n) True) (\<lambda>_. unmapped s xs pg {pno va..<pno va + n} True) s"
    by (rule uvmunmap_unmaps[OF aspace_vm_ok[OF assms(1)] assms(2)]) (use assms in simp_all)
  then show ?thesis
  proof (rule wp_mono)
    fix a t assume "unmapped s xs pg {pno va..<pno va + n} True t"
    then obtain ys where "same_regs s t" "tset (mem t) 2 pg = tset (mem s) 2 pg"
      "\<forall>v. sv39 v \<longrightarrow> lkup (mem t) 2 pg v =
          (if pno v \<in> {pno va..<pno va + n} \<and> vld (lkup (mem s) 2 pg v) then 0 else lkup (mem s) 2 pg v)"
      "vm_ok t ys 2 pg" "set ys = set xs \<union> (if True then mapped_in (mem s) pg {pno va..<pno va + n} else {})"
      "only_pages (tset (mem s) 2 pg \<union> (if True then mapped_in (mem s) pg {pno va..<pno va + n} else {}))
         (mem s) (mem t)"
      by (rule unmappedE)
    then show "\<exists>ys. vm_ok t ys 2 pg \<and>
       set ys = set xs \<union> mapped_in (mem s) pg {pno va..<pno va + n} \<and>
       (\<forall>v. sv39 v \<longrightarrow> lkup (mem t) 2 pg v = (if pno va \<le> pno v \<and> pno v < pno va + n \<and> vld (lkup (mem s) 2 pg v)
          then 0 else lkup (mem s) 2 pg v)) \<and>
       only_pages (tset (mem s) 2 pg \<union> mapped_in (mem s) pg {pno va..<pno va + n}) (mem s) (mem t)"
      by (intro exI[of _ ys]) simp
  qed
qed

theorem uvmunmap_frees_range_witness:
  "wp (uvmunmap 0x80000000 0 (of_nat 1) True) (\<lambda>_ t. lkup (mem t) 2 0x80000000 0 = 0 \<and>
     (\<exists>ys. kmem_inv t ys \<and> 0x80003000 \<in> set ys)) user_demo"
proof -
  have "page_aligned 0" "unat (0 :: u64) + 4096 * 1 \<le> 0x3FFFFFE000" by (simp_all add: page_aligned_def)
  note w = uvmunmap_frees_range[OF user_demo_aspace this]
  have z: "sv39 0" "pno 0 = 0" by (simp_all add: sv39_def pno_def)
  have l: "lkup (mem user_demo) 2 0x80000000 0 = 0x20000C17"
    using user_demo_mapped[OF z(1)] z(2) by simp
  have v: "vld 0x20000C17" by (simp add: vld_def PTE_V_def)
  have pa: "PTE2PA 0x20000C17 = 0x80003000" by (simp add: PTE2PA_def)
  have "0x80003000 \<in> mapped_in (mem user_demo) 0x80000000 {pno 0..<pno 0 + 1}"
    unfolding mapped_in_def using z l v pa by (auto intro!: exI[of _ 0])
  with w show ?thesis
    by (elim wp_mono) (use z l v in \<open>auto simp: vm_ok_def\<close>)
qed

text \<open>C18: \<open>uvmfree\<close> on an address space whose user pages all lie below \<open>sz\<close> returns every page, the
  mapped ones and those of the table, to the free list. It does not panic: no leaf is left for
  \<open>freewalk\<close> to trip over.\<close>

theorem uvmfree_returns_every_page:
  assumes "aspace s xs pg" and "unat sz \<le> 0x3FFFFFE000"
    and "\<forall>v. sv39 v \<and> vld (lkup (mem s) 2 pg v) \<longrightarrow> unat v < unat (PGROUNDUP sz)"
  shows "wp (uvmfree pg sz) (\<lambda>_ t. \<exists>ys. kmem_inv t ys \<and>
     set ys = set xs \<union> tset (mem s) 2 pg \<union> mapped_in (mem s) pg UNIV) s"
  using uvmfree_frees[OF assms] by (rule wp_mono) blast

theorem uvmfree_returns_every_page_witness:
  "wp (uvmfree 0x80000000 100) (\<lambda>_ t. \<exists>ys. kmem_inv t ys \<and>
     {0x80000000, 0x80001000, 0x80002000, 0x80003000} \<subseteq> set ys) user_demo"
proof -
  have up: "unat (PGROUNDUP 100) = 4096" using unat_PGROUNDUP[of 100] by simp
  have "\<forall>v. sv39 v \<and> vld (lkup (mem user_demo) 2 0x80000000 v) \<longrightarrow> unat v < unat (PGROUNDUP 100)"
    unfolding up by (auto simp: user_demo_mapped pno_def split: if_splits)
  note w = uvmfree_returns_every_page[OF user_demo_aspace _ this]
  have "0x80003000 \<in> mapped_in (mem user_demo) 0x80000000 UNIV"
    unfolding mapped_in_def
    by (auto intro!: exI[of _ 0] simp: user_demo_mapped sv39_def pno_def vld_def PTE_V_def PTE2PA_def)
  then show ?thesis
    using w by (simp add: user_demo_table(1)) (elim wp_mono, auto)
qed

text \<open>What has been stored is read back, and nothing else has changed.\<close>

lemma user_stored_read_back:
  assumes st: "user_stored s xs pg va src t" and w: "\<forall>i<length src. uwr s pg (va + of_nat i)"
    and sz: "unat va + length src \<le> 0x3FFFFFE000"
  shows "copyin pg sz va (length src) t = Done (0, src) t"
    and "umap s pg v \<Longrightarrow> uva v \<Longrightarrow> length src \<le> unat (v - va) \<Longrightarrow> ubyte t pg v = ubyte s pg v"
proof -
  note t = user_storedD[OF st]
  have um: "\<forall>i<length src. umap t pg (va + of_nat i)"
    using w unfolding umap_cong(1)[OF t(3)] uwr_def by blast
  have "ubyte t pg (va + of_nat i) = src ! i" if i: "i < length src" for i
  proof -
    have n: "unat (of_nat i :: u64) = i" using sz i by (intro unat_of_nat_small) simp
    have "unat (va + of_nat i) = unat va + i" using sz i by (intro unat_add_of_nat) simp
    then have "uva (va + of_nat i)" using sz i by (simp add: uva_def)
    moreover have "vld (lkup (mem s) 2 pg (va + of_nat i))"
      using w i by (simp add: uwr_def umap_def)
    ultimately show ?thesis using t(4)[rule_format, of "va + of_nat i"] i n by simp
  qed
  then have "ubytes t pg va (length src) = src"
    by (intro nth_equalityI) (simp_all add: ubytes_def)
  then show "copyin pg sz va (length src) t = Done (0, src) t"
    using copyin_copies[OF aspace_vm_ok[OF t(1)] um, of sz] by simp
  show "umap s pg v \<Longrightarrow> uva v \<Longrightarrow> length src \<le> unat (v - va) \<Longrightarrow> ubyte t pg v = ubyte s pg v"
    using t(4)[rule_format, of v] by (simp add: umap_def)
qed

text \<open>C19: what the kernel copies out to user memory, it reads back with \<open>copyin\<close>. On a range of
  writable user pages \<open>copyout\<close> returns 0, changes no translation and no other user byte, and a
  following \<open>copyin\<close> of the range returns 0 and the bytes written, whatever page boundaries the
  range crosses.\<close>

theorem copyout_copyin_round_trip:
  assumes "aspace s xs pg" and "\<forall>i<length src. uwr s pg (va + of_nat i)"
    and "unat va + length src \<le> 0x3FFFFFE000"
  shows "wp (copyout pg sz va src) (\<lambda>r t. r = 0 \<and> aspace t xs pg \<and>
     (\<forall>v. lkup (mem t) 2 pg v = lkup (mem s) 2 pg v) \<and>
     (\<forall>v. umap s pg v \<and> uva v \<and> length src \<le> unat (v - va) \<longrightarrow> ubyte t pg v = ubyte s pg v) \<and>
     copyin pg sz va (length src) t = Done (0, src) t) s"
  using copyout_stores[OF assms, of sz]
proof (rule wp_mono)
  fix r t assume "r = 0 \<and> user_stored s xs pg va src t"
  then have r: "r = 0" and st: "user_stored s xs pg va src t" by simp_all
  show "r = 0 \<and> aspace t xs pg \<and> (\<forall>v. lkup (mem t) 2 pg v = lkup (mem s) 2 pg v) \<and>
     (\<forall>v. umap s pg v \<and> uva v \<and> length src \<le> unat (v - va) \<longrightarrow> ubyte t pg v = ubyte s pg v) \<and>
     copyin pg sz va (length src) t = Done (0, src) t"
    using r user_storedD(1,3)[OF st] user_stored_read_back[OF st assms(2,3)] by blast
qed

lemma user_demo_uwr: "pno v = 0 \<Longrightarrow> uwr user_demo 0x80000000 v"
proof -
  assume p: "pno v = 0"
  then have v: "unat v < 4096" by (simp add: pno_def)
  then have "sv39 v" "v < MAXVA" by (simp_all add: sv39_def word_less_nat_alt)
  then show ?thesis
    using user_demo_mapped[of v] p
    by (simp add: uwr_def umap_def vld_def PTE_V_def PTE_U_def PTE_W_def PTE2PA_def)
qed

theorem copyout_copyin_round_trip_witness:
  "wp (copyout 0x80000000 4096 0xFFE [7, 8]) (\<lambda>r t. r = 0 \<and>
     copyin 0x80000000 4096 0xFFE (length [7, 8 :: u8]) t = Done (0, [7, 8]) t) user_demo"
proof -
  have "\<forall>i<length [7, 8 :: u8]. uwr user_demo 0x80000000 (0xFFE + of_nat i)"
    by (auto simp: less_Suc_eq pno_def intro!: user_demo_uwr)
  note w = copyout_copyin_round_trip[OF user_demo_aspace this, of 4096]
  show ?thesis
    by (rule wp_mono[OF w]) simp_all
qed

end
