(* ===== verification/Proc.thy ===== *)
theory Proc
  imports Uvm
begin

text \<open>
  Processes, \<^verbatim>\<open>kernel/proc.h\<close> and the part of \<^verbatim>\<open>kernel/proc.c\<close> that does not call the file system:
  the process table, process identifiers, allocation and release of table slots, page tables of
  processes, \<open>growproc\<close>, \<open>kwait\<close>, the scheduler with \<open>sched\<close>, \<open>yield\<close>, \<open>sleep\<close>, \<open>wakeup\<close>, and \<open>kkill\<close>.

  A \<open>struct proc *\<close> is an index into the table, the null pointer \<open>None\<close>. \<open>curproc\<close> is
  \<open>mycpu()->proc\<close> of the CPU that runs the code. A trap frame stays a page of physical memory,
  read and written at the offsets of \<open>struct trapframe\<close>. The symbols \<open>forkret\<close> and \<open>trampoline\<close> are
  addresses of code, arguments here.

  \<open>swtch\<close> leaves one flow of control and enters another, so the functions around it come in
  two halves: what runs before the switch and what runs when the process is switched to again.
\<close>

section \<open>proc.h\<close>

record kcontext =
  ctx_ra :: u64
  ctx_sp :: u64
  ctx_s0 :: u64
  ctx_s1 :: u64
  ctx_s2 :: u64
  ctx_s3 :: u64
  ctx_s4 :: u64
  ctx_s5 :: u64
  ctx_s6 :: u64
  ctx_s7 :: u64
  ctx_s8 :: u64
  ctx_s9 :: u64
  ctx_s10 :: u64
  ctx_s11 :: u64

text \<open>The offsets of the fields of \<open>struct trapframe\<close>.\<close>

definition TF_kernel_satp :: nat where [simp]: "TF_kernel_satp = 0"
definition TF_kernel_sp :: nat where [simp]: "TF_kernel_sp = 8"
definition TF_kernel_trap :: nat where [simp]: "TF_kernel_trap = 16"
definition TF_epc :: nat where [simp]: "TF_epc = 24"
definition TF_kernel_hartid :: nat where [simp]: "TF_kernel_hartid = 32"
definition TF_ra :: nat where [simp]: "TF_ra = 40"
definition TF_sp :: nat where [simp]: "TF_sp = 48"
definition TF_gp :: nat where [simp]: "TF_gp = 56"
definition TF_tp :: nat where [simp]: "TF_tp = 64"
definition TF_t0 :: nat where [simp]: "TF_t0 = 72"
definition TF_t1 :: nat where [simp]: "TF_t1 = 80"
definition TF_t2 :: nat where [simp]: "TF_t2 = 88"
definition TF_s0 :: nat where [simp]: "TF_s0 = 96"
definition TF_s1 :: nat where [simp]: "TF_s1 = 104"
definition TF_a0 :: nat where [simp]: "TF_a0 = 112"
definition TF_a1 :: nat where [simp]: "TF_a1 = 120"
definition TF_a2 :: nat where [simp]: "TF_a2 = 128"
definition TF_a3 :: nat where [simp]: "TF_a3 = 136"
definition TF_a4 :: nat where [simp]: "TF_a4 = 144"
definition TF_a5 :: nat where [simp]: "TF_a5 = 152"
definition TF_a6 :: nat where [simp]: "TF_a6 = 160"
definition TF_a7 :: nat where [simp]: "TF_a7 = 168"
definition TF_s2 :: nat where [simp]: "TF_s2 = 176"
definition TF_s3 :: nat where [simp]: "TF_s3 = 184"
definition TF_s4 :: nat where [simp]: "TF_s4 = 192"
definition TF_s5 :: nat where [simp]: "TF_s5 = 200"
definition TF_s6 :: nat where [simp]: "TF_s6 = 208"
definition TF_s7 :: nat where [simp]: "TF_s7 = 216"
definition TF_s8 :: nat where [simp]: "TF_s8 = 224"
definition TF_s9 :: nat where [simp]: "TF_s9 = 232"
definition TF_s10 :: nat where [simp]: "TF_s10 = 240"
definition TF_s11 :: nat where [simp]: "TF_s11 = 248"
definition TF_t3 :: nat where [simp]: "TF_t3 = 256"
definition TF_t4 :: nat where [simp]: "TF_t4 = 264"
definition TF_t5 :: nat where [simp]: "TF_t5 = 272"
definition TF_t6 :: nat where [simp]: "TF_t6 = 280"

definition sizeof_trapframe :: nat where
  "sizeof_trapframe = 288"

datatype procstate = UNUSED | USED | SLEEPING | RUNNABLE | RUNNING | ZOMBIE

record proc =
  p_state :: procstate
  p_chan :: "chan option"
  p_killed :: int
  p_xstate :: int
  p_pid :: int
  p_parent :: "nat option"
  p_kstack :: u64
  p_sz :: u64
  p_pagetable :: u64
  p_trapframe :: u64
  p_context :: kcontext
  p_cwd :: "nat option"
  p_name :: bytes

section \<open>The state and access to the table\<close>

record kproc = kvm +
  procs :: "proc list"
  curproc :: "nat option"
  initproc :: "nat option"
  nextpid :: int

definition the_proc :: "nat \<Rightarrow> ('x kproc_scheme, proc) kfun" where
  "the_proc i = gets (\<lambda>s. procs s ! i)"

definition upd_proc :: "nat \<Rightarrow> (proc \<Rightarrow> proc) \<Rightarrow> ('x kproc_scheme, unit) kfun" where
  "upd_proc i f = modify (\<lambda>s. s\<lparr>procs := (procs s)[i := f (procs s ! i)]\<rparr>)"

definition tf_get :: "u64 \<Rightarrow> nat \<Rightarrow> ('x kproc_scheme, u64) kfun" where
  "tf_get tf r = gets (\<lambda>s. ld64 (mem s) (tf + of_nat r))"

definition tf_set :: "u64 \<Rightarrow> nat \<Rightarrow> u64 \<Rightarrow> ('x kproc_scheme, unit) kfun" where
  "tf_set tf r v = modify (\<lambda>s. s\<lparr>mem := st64 (mem s) (tf + of_nat r) v\<rparr>)"

text \<open>
  \<open>myproc\<close>. Its \<open>push_off\<close>/\<open>pop_off\<close> pair leaves the lock state as it was. Code that
  dereferences the result when it is null faults, and a fault in the kernel ends in \<open>kerneltrap\<close>.
\<close>

definition myproc :: "('x kproc_scheme, nat) kfun" where
  "myproc = (\<lambda>s. case curproc s of None \<Rightarrow> Panic ''kerneltrap'' | Some p \<Rightarrow> Done p s)"

section \<open>Allocation of table slots\<close>

definition procinit :: "('x kproc_scheme, unit) kfun" where
  "procinit = foreach [0..<NPROC] (\<lambda>i. upd_proc i (\<lambda>p. p\<lparr>p_state := UNUSED, p_kstack := KSTACK i\<rparr>))"

text \<open>\<open>nextpid\<close> is a 32-bit \<open>int\<close>; its increment wraps around.\<close>

definition allocpid :: "('x kproc_scheme, int) kfun" where
  "allocpid =
     bind (acquire PidLock) (\<lambda>_.
     bind (gets nextpid) (\<lambda>pid.
     bind (modify (\<lambda>s. s\<lparr>nextpid := signed_take_bit 31 (nextpid s + 1)\<rparr>)) (\<lambda>_.
     bind (modify (\<lambda>s. if nextpid s < 1 then s\<lparr>nextpid := 1\<rparr> else s)) (\<lambda>_.
     bind (release PidLock) (\<lambda>_.
     ret pid)))))"

definition proc_pagetable :: "u64 \<Rightarrow> u64 \<Rightarrow> ('x kproc_scheme, u64) kfun" where
  "proc_pagetable trampoline tf =
     bind uvmcreate (\<lambda>pagetable.
     if pagetable = 0 then ret 0 else
     bind (mappages pagetable TRAMPOLINE PGSIZE trampoline (PTE_R OR PTE_X)) (\<lambda>r.
     if r \<noteq> 0 then bind (uvmfree pagetable 0) (\<lambda>_. ret 0) else
     bind (mappages pagetable TRAPFRAME PGSIZE tf (PTE_R OR PTE_W)) (\<lambda>r.
     if r \<noteq> 0 then
       bind (uvmunmap pagetable TRAMPOLINE 1 False) (\<lambda>_.
       bind (uvmfree pagetable 0) (\<lambda>_. ret 0))
     else ret pagetable)))"

definition proc_freepagetable :: "u64 \<Rightarrow> u64 \<Rightarrow> ('x kproc_scheme, unit) kfun" where
  "proc_freepagetable pagetable sz =
     bind (uvmunmap pagetable TRAMPOLINE 1 False) (\<lambda>_.
     bind (uvmunmap pagetable TRAPFRAME 1 False) (\<lambda>_.
     uvmfree pagetable sz))"

definition freeproc :: "nat \<Rightarrow> ('x kproc_scheme, unit) kfun" where
  "freeproc i =
     bind (the_proc i) (\<lambda>p.
     bind (if p_trapframe p \<noteq> 0 then kfree (p_trapframe p) else ret ()) (\<lambda>_.
     bind (upd_proc i (\<lambda>p. p\<lparr>p_trapframe := 0\<rparr>)) (\<lambda>_.
     bind (if p_pagetable p \<noteq> 0 then proc_freepagetable (p_pagetable p) (p_sz p) else ret ()) (\<lambda>_.
     upd_proc i (\<lambda>p. p\<lparr>p_pagetable := 0, p_sz := 0, p_pid := 0, p_parent := None, p_chan := None,
       p_killed := 0, p_xstate := 0, p_cwd := None, p_name := (p_name p)[0 := 0], p_state := UNUSED\<rparr>)))))"

fun alloc_scan :: "nat list \<Rightarrow> ('x kproc_scheme, nat option) kfun" where
  "alloc_scan [] = ret None"
| "alloc_scan (i # is) =
     bind (acquire (ProcLock i)) (\<lambda>_.
     bind (the_proc i) (\<lambda>p.
     if p_state p = UNUSED then ret (Some i) else
     bind (release (ProcLock i)) (\<lambda>_.
     alloc_scan is)))"

definition zero_context :: kcontext where
  "zero_context = \<lparr>ctx_ra = 0, ctx_sp = 0, ctx_s0 = 0, ctx_s1 = 0, ctx_s2 = 0, ctx_s3 = 0, ctx_s4 = 0,
     ctx_s5 = 0, ctx_s6 = 0, ctx_s7 = 0, ctx_s8 = 0, ctx_s9 = 0, ctx_s10 = 0, ctx_s11 = 0\<rparr>"

definition allocproc_bad :: "nat \<Rightarrow> ('x kproc_scheme, nat option) kfun" where
  "allocproc_bad i = bind (freeproc i) (\<lambda>_. bind (release (ProcLock i)) (\<lambda>_. ret None))"

definition allocproc_init :: "u64 \<Rightarrow> u64 \<Rightarrow> nat \<Rightarrow> ('x kproc_scheme, nat option) kfun" where
  "allocproc_init forkret trampoline i =
     bind allocpid (\<lambda>pid.
     bind (upd_proc i (\<lambda>p. p\<lparr>p_pid := pid, p_state := USED\<rparr>)) (\<lambda>_.
     bind kalloc (\<lambda>tf.
     bind (upd_proc i (\<lambda>p. p\<lparr>p_trapframe := tf\<rparr>)) (\<lambda>_.
     if tf = 0 then allocproc_bad i else
     bind (proc_pagetable trampoline tf) (\<lambda>pt.
     bind (upd_proc i (\<lambda>p. p\<lparr>p_pagetable := pt\<rparr>)) (\<lambda>_.
     if pt = 0 then allocproc_bad i else
     bind (upd_proc i (\<lambda>p. p\<lparr>p_context := zero_context\<lparr>ctx_ra := forkret, ctx_sp := p_kstack p + PGSIZE\<rparr>\<rparr>)) (\<lambda>_.
     ret (Some i))))))))"

definition allocproc :: "u64 \<Rightarrow> u64 \<Rightarrow> ('x kproc_scheme, nat option) kfun" where
  "allocproc forkret trampoline =
     bind (alloc_scan [0..<NPROC]) (\<lambda>found.
     case found of None \<Rightarrow> ret None | Some i \<Rightarrow> allocproc_init forkret trampoline i)"

section \<open>The first process and growing a process\<close>

text \<open>One of the three pages \<open>userinit\<close> adds after the first.\<close>

definition userinit_page :: "u64 \<Rightarrow> bytes \<Rightarrow> nat \<Rightarrow> ('x kproc_scheme, unit) kfun" where
  "userinit_page pagetable initcode page =
     bind kalloc (\<lambda>m.
     if m = 0 then panic ''userinit: user page'' else
     bind (modify (\<lambda>s. s\<lparr>mem := memset (mem s) m 0 4096\<rparr>)) (\<lambda>_.
     bind (if page = 1 then modify (\<lambda>s. s\<lparr>mem := st_bytes (mem s) m (drop 4096 initcode)\<rparr>) else ret ()) (\<lambda>_.
     bind (mappages pagetable (of_nat page * PGSIZE) PGSIZE m (PTE_R OR PTE_W OR PTE_U)) (\<lambda>r.
     if r \<noteq> 0 then panic ''userinit: mappages'' else ret ()))))"

definition userinit :: "u64 \<Rightarrow> u64 \<Rightarrow> bytes \<Rightarrow> ('x kproc_scheme, unit) kfun" where
  "userinit forkret trampoline initcode =
     bind (allocproc forkret trampoline) (\<lambda>po. case po of None \<Rightarrow> panic ''userinit'' | Some i \<Rightarrow>
     bind (modify (\<lambda>s. s\<lparr>initproc := Some i\<rparr>)) (\<lambda>_.
     bind (the_proc i) (\<lambda>p.
     bind (uvmfirst (p_pagetable p) (take 4096 initcode)) (\<lambda>_.
     bind (foreach [1..<4] (userinit_page (p_pagetable p) initcode)) (\<lambda>_.
     bind (upd_proc i (\<lambda>p. p\<lparr>p_sz := 4 * PGSIZE\<rparr>)) (\<lambda>_.
     bind (tf_set (p_trapframe p) TF_epc 0) (\<lambda>_.
     bind (tf_set (p_trapframe p) TF_sp (4 * PGSIZE)) (\<lambda>_.
     bind (upd_proc i (\<lambda>p. p\<lparr>p_state := RUNNABLE\<rparr>)) (\<lambda>_.
     release (ProcLock i))))))))))"

text \<open>\<open>n\<close> is a 32-bit \<open>int\<close>, widened to \<open>uint64\<close> where it is added to the size.\<close>

definition growproc :: "int \<Rightarrow> ('x kproc_scheme, int) kfun" where
  "growproc n =
     bind myproc (\<lambda>i.
     bind (the_proc i) (\<lambda>p.
     let sz = p_sz p in
     if 0 < n then
       (if sz + of_int n < sz \<or> TRAPFRAME \<le> sz + of_int n then ret (- 1) else
        bind (uvmalloc (p_pagetable p) sz (sz + of_int n) PTE_W) (\<lambda>sz'.
        if sz' = 0 then ret (- 1) else
        bind (upd_proc i (\<lambda>p. p\<lparr>p_sz := sz'\<rparr>)) (\<lambda>_. ret 0)))
     else if n < 0 then
       (if sz < of_int (signed_take_bit 31 (- n)) then ret (- 1) else
        bind (uvmdealloc (p_pagetable p) sz (sz + of_int n)) (\<lambda>sz'.
        bind (upd_proc i (\<lambda>p. p\<lparr>p_sz := sz'\<rparr>)) (\<lambda>_. ret 0)))
     else bind (upd_proc i (\<lambda>p. p\<lparr>p_sz := sz\<rparr>)) (\<lambda>_. ret 0)))"

section \<open>Switching between processes\<close>

text \<open>
  The checks of \<open>sched\<close>; after them it switches to the CPU's scheduler. \<open>noff\<close> is the number of
  locks the CPU holds, and interrupts are off as long as it holds one.
\<close>

definition sched :: "('x kproc_scheme, unit) kfun" where
  "sched =
     bind myproc (\<lambda>i.
     bind (gets held) (\<lambda>h.
     bind (the_proc i) (\<lambda>p.
     if ProcLock i \<notin> h then panic ''sched: p->lock''
     else if card h \<noteq> 1 then panic ''sched: locks''
     else if p_state p = RUNNING then panic ''sched: running''
     else ret ())))"

text \<open>One iteration of the scheduler's loop up to the switch: does it switch to process \<open>i\<close>?\<close>

definition scheduler_pick :: "nat \<Rightarrow> ('x kproc_scheme, bool) kfun" where
  "scheduler_pick i =
     bind (acquire (ProcLock i)) (\<lambda>_.
     bind (the_proc i) (\<lambda>p.
     if p_state p = RUNNABLE then
       bind (upd_proc i (\<lambda>p. p\<lparr>p_state := RUNNING\<rparr>)) (\<lambda>_.
       bind (modify (\<lambda>s. s\<lparr>curproc := Some i\<rparr>)) (\<lambda>_.
       ret True))
     else bind (release (ProcLock i)) (\<lambda>_. ret False)))"

text \<open>The rest of the iteration, when process \<open>i\<close> switches back.\<close>

definition scheduler_back :: "nat \<Rightarrow> ('x kproc_scheme, unit) kfun" where
  "scheduler_back i =
     bind (modify (\<lambda>s. s\<lparr>curproc := None\<rparr>)) (\<lambda>_.
     release (ProcLock i))"

text \<open>A pass over the table: the first process the scheduler switches to, if there is one.\<close>

fun scheduler_scan :: "nat list \<Rightarrow> ('x kproc_scheme, nat option) kfun" where
  "scheduler_scan [] = ret None"
| "scheduler_scan (i # is) =
     bind (scheduler_pick i) (\<lambda>run. if run then ret (Some i) else scheduler_scan is)"

definition scheduler :: "('x kproc_scheme, nat option) kfun" where
  "scheduler = bind (modify (\<lambda>s. s\<lparr>curproc := None\<rparr>)) (\<lambda>_. scheduler_scan [0..<NPROC])"

definition yield :: "('x kproc_scheme, unit) kfun" where
  "yield =
     bind myproc (\<lambda>i.
     bind (acquire (ProcLock i)) (\<lambda>_.
     bind (upd_proc i (\<lambda>p. p\<lparr>p_state := RUNNABLE\<rparr>)) (\<lambda>_.
     sched)))"

definition yield_return :: "('x kproc_scheme, unit) kfun" where
  "yield_return = bind myproc (\<lambda>i. release (ProcLock i))"

text \<open>\<open>sleep\<close> up to the switch, and what it does once the process runs again.\<close>

definition sleep_switch :: "chan \<Rightarrow> lockid \<Rightarrow> ('x kproc_scheme, unit) kfun" where
  "sleep_switch c lk =
     bind myproc (\<lambda>i.
     bind (acquire (ProcLock i)) (\<lambda>_.
     bind (release lk) (\<lambda>_.
     bind (upd_proc i (\<lambda>p. p\<lparr>p_chan := Some c, p_state := SLEEPING\<rparr>)) (\<lambda>_.
     sched))))"

definition sleep_return :: "lockid \<Rightarrow> ('x kproc_scheme, unit) kfun" where
  "sleep_return lk =
     bind myproc (\<lambda>i.
     bind (upd_proc i (\<lambda>p. p\<lparr>p_chan := None\<rparr>)) (\<lambda>_.
     bind (release (ProcLock i)) (\<lambda>_.
     acquire lk)))"

text \<open>A call of \<open>sleep\<close> ends the caller's turn: the outcome is \<open>Sleep\<close> in the state in which the
  process has switched away. Every caller sleeps in a loop that tests its condition again, so
  after the wake-up it is the loop's function that runs again.\<close>

definition sleep :: "chan \<Rightarrow> lockid \<Rightarrow> ('x kproc_scheme, 'a) kfun" where
  "sleep c lk = bind (sleep_switch c lk) (\<lambda>_. sleep_on c)"

definition wakeup_one :: "chan option \<Rightarrow> nat \<Rightarrow> ('x kproc_scheme, unit) kfun" where
  "wakeup_one c i =
     bind (gets curproc) (\<lambda>me.
     if me = Some i then ret () else
     bind (acquire (ProcLock i)) (\<lambda>_.
     bind (the_proc i) (\<lambda>p.
     bind (if p_state p = SLEEPING \<and> p_chan p = c then upd_proc i (\<lambda>p. p\<lparr>p_state := RUNNABLE\<rparr>) else ret ()) (\<lambda>_.
     release (ProcLock i)))))"

definition wakeup :: "chan option \<Rightarrow> ('x kproc_scheme, unit) kfun" where
  "wakeup c = foreach [0..<NPROC] (wakeup_one c)"

fun kkill_scan :: "nat list \<Rightarrow> int \<Rightarrow> ('x kproc_scheme, int) kfun" where
  "kkill_scan [] pid = ret (- 1)"
| "kkill_scan (i # is) pid =
     bind (acquire (ProcLock i)) (\<lambda>_.
     bind (the_proc i) (\<lambda>p.
     if p_pid p = pid then
       bind (upd_proc i (\<lambda>p. p\<lparr>p_killed := 1\<rparr>)) (\<lambda>_.
       bind (if p_state p = SLEEPING then upd_proc i (\<lambda>p. p\<lparr>p_state := RUNNABLE\<rparr>) else ret ()) (\<lambda>_.
       bind (release (ProcLock i)) (\<lambda>_.
       ret 0)))
     else bind (release (ProcLock i)) (\<lambda>_. kkill_scan is pid)))"

definition kkill :: "int \<Rightarrow> ('x kproc_scheme, int) kfun" where
  "kkill pid = kkill_scan [0..<NPROC] pid"

definition killed :: "nat \<Rightarrow> ('x kproc_scheme, int) kfun" where
  "killed i =
     bind (acquire (ProcLock i)) (\<lambda>_.
     bind (the_proc i) (\<lambda>p.
     bind (release (ProcLock i)) (\<lambda>_.
     ret (p_killed p))))"

section \<open>Parents and children\<close>

definition reparent :: "nat \<Rightarrow> ('x kproc_scheme, unit) kfun" where
  "reparent p = foreach [0..<NPROC] (\<lambda>i.
     bind (the_proc i) (\<lambda>pp.
     if p_parent pp = Some p then
       bind (gets initproc) (\<lambda>ip.
       bind (upd_proc i (\<lambda>pp. pp\<lparr>p_parent := ip\<rparr>)) (\<lambda>_.
       wakeup (map_option ChanProc ip)))
     else ret ()))"

text \<open>
  The scan of \<open>kwait\<close>: \<open>Inl r\<close> when the call returns \<open>r\<close>, \<open>Inr havekids\<close> when the scan ends
  without a zombie child.
\<close>

definition kwait_reap :: "nat \<Rightarrow> u64 \<Rightarrow> nat \<Rightarrow> ('x kproc_scheme, int) kfun" where
  "kwait_reap p addr i =
     bind (the_proc i) (\<lambda>pp.
     bind (the_proc p) (\<lambda>me.
     bind (if addr \<noteq> 0 then copyout (p_pagetable me) (p_sz me) addr (le_bytes 4 (nat (p_xstate pp mod 2 ^ 32)))
           else ret 0) (\<lambda>r.
     if r < 0 then
       bind (release (ProcLock i)) (\<lambda>_.
       bind (release WaitLock) (\<lambda>_. ret (- 1)))
     else
       bind (upd_proc i (\<lambda>p. p\<lparr>p_parent := None\<rparr>)) (\<lambda>_.
       bind (freeproc i) (\<lambda>_.
       bind (release (ProcLock i)) (\<lambda>_.
       bind (release WaitLock) (\<lambda>_. ret (p_pid pp))))))))"

fun kwait_scan :: "nat list \<Rightarrow> nat \<Rightarrow> u64 \<Rightarrow> bool \<Rightarrow> ('x kproc_scheme, int + bool) kfun" where
  "kwait_scan [] p addr havekids = ret (Inr havekids)"
| "kwait_scan (i # is) p addr havekids =
     bind (the_proc i) (\<lambda>pp.
     if p_parent pp \<noteq> Some p then kwait_scan is p addr havekids else
     bind (acquire (ProcLock i)) (\<lambda>_.
     bind (the_proc i) (\<lambda>pp.
     if p_state pp = ZOMBIE then bind (kwait_reap p addr i) (\<lambda>r. ret (Inl r)) else
     bind (release (ProcLock i)) (\<lambda>_.
     kwait_scan is p addr True))))"

text \<open>One turn of the loop of \<open>kwait\<close>, with \<open>wait_lock\<close> held.\<close>

definition kwait_loop :: "nat \<Rightarrow> u64 \<Rightarrow> ('x kproc_scheme, int) kfun" where
  "kwait_loop p addr =
     bind (kwait_scan [0..<NPROC] p addr False) (\<lambda>r. case r of
       Inl v \<Rightarrow> ret v
     | Inr havekids \<Rightarrow>
         bind (if havekids then killed p else ret 1) (\<lambda>k.
         if \<not> havekids \<or> k \<noteq> 0 then bind (release WaitLock) (\<lambda>_. ret (- 1))
         else sleep (ChanProc p) WaitLock))"

definition kwait :: "u64 \<Rightarrow> ('x kproc_scheme, int) kfun" where
  "kwait addr = bind myproc (\<lambda>p. bind (acquire WaitLock) (\<lambda>_. kwait_loop p addr))"

text \<open>
  \<open>kfork\<close> and \<open>kexit\<close> call the file system, which is built on this theory; what they call of it,
  \<open>idup\<close> and the transaction around \<open>iput\<close>, is an argument here and given its definition there.
\<close>

definition kfork_finish :: "(nat option \<Rightarrow> ('x kproc_scheme, nat option) kfun) \<Rightarrow> nat \<Rightarrow> proc \<Rightarrow> nat \<Rightarrow> proc \<Rightarrow>
  ('x kproc_scheme, int) kfun" where
  "kfork_finish idup i p j np =
     bind (upd_proc j (\<lambda>q. q\<lparr>p_sz := p_sz p\<rparr>)) (\<lambda>_.
     bind (modify (\<lambda>s. s\<lparr>mem := st_bytes (mem s) (p_trapframe np) (ld_bytes (mem s) (p_trapframe p) sizeof_trapframe)\<rparr>)) (\<lambda>_.
     bind (tf_set (p_trapframe np) TF_a0 0) (\<lambda>_.
     bind (idup (p_cwd p)) (\<lambda>ip.
     bind (upd_proc j (\<lambda>q. q\<lparr>p_cwd := ip\<rparr>)) (\<lambda>_.
     bind (the_proc j) (\<lambda>np.
     bind (release (ProcLock j)) (\<lambda>_.
     bind (acquire WaitLock) (\<lambda>_.
     bind (upd_proc j (\<lambda>q. q\<lparr>p_parent := Some i\<rparr>)) (\<lambda>_.
     bind (release WaitLock) (\<lambda>_.
     bind (acquire (ProcLock j)) (\<lambda>_.
     bind (upd_proc j (\<lambda>q. q\<lparr>p_state := RUNNABLE\<rparr>)) (\<lambda>_.
     bind (release (ProcLock j)) (\<lambda>_.
     ret (p_pid np))))))))))))))"

definition kfork :: "(nat option \<Rightarrow> ('x kproc_scheme, nat option) kfun) \<Rightarrow> u64 \<Rightarrow> u64 \<Rightarrow> ('x kproc_scheme, int) kfun" where
  "kfork idup forkret trampoline =
     bind myproc (\<lambda>i.
     bind (allocproc forkret trampoline) (\<lambda>po. case po of None \<Rightarrow> ret (- 1) | Some j \<Rightarrow>
     bind (the_proc i) (\<lambda>p.
     bind (the_proc j) (\<lambda>np.
     bind (uvmcopy (p_pagetable p) (p_pagetable np) (p_sz p)) (\<lambda>r.
     if r < 0 then
       bind (freeproc j) (\<lambda>_. bind (release (ProcLock j)) (\<lambda>_. ret (- 1)))
     else kfork_finish idup i p j np)))))"

text \<open>\<open>kexit\<close> up to its last switch, from which it does not return.\<close>

definition kexit :: "(nat option \<Rightarrow> ('x kproc_scheme, unit) kfun) \<Rightarrow> int \<Rightarrow> ('x kproc_scheme, unit) kfun" where
  "kexit put_cwd status =
     bind myproc (\<lambda>i.
     bind (gets initproc) (\<lambda>ip.
     if ip = Some i then panic ''init exiting'' else
     bind (the_proc i) (\<lambda>p.
     bind (put_cwd (p_cwd p)) (\<lambda>_.
     bind (upd_proc i (\<lambda>p. p\<lparr>p_cwd := None\<rparr>)) (\<lambda>_.
     bind (acquire WaitLock) (\<lambda>_.
     bind (reparent i) (\<lambda>_.
     bind (the_proc i) (\<lambda>p.
     bind (wakeup (map_option ChanProc (p_parent p))) (\<lambda>_.
     bind (acquire (ProcLock i)) (\<lambda>_.
     bind (upd_proc i (\<lambda>p. p\<lparr>p_xstate := status, p_state := ZOMBIE\<rparr>)) (\<lambda>_.
     bind (release WaitLock) (\<lambda>_.
     sched))))))))))))"

section \<open>Copying to and from the current process\<close>

text \<open>
  The destination of a copy is a user address, a physical page of the kernel's direct map, or a
  kernel variable: there the bytes themselves are the result of the caller's function. A source is
  a user address or the bytes in a kernel variable.
\<close>

datatype copy_dst = UserDst u64 | PhysDst u64 | KernDst
datatype copy_src = UserSrc u64 | KernSrc bytes

definition either_copyout :: "copy_dst \<Rightarrow> bytes \<Rightarrow> ('x kproc_scheme, int) kfun" where
  "either_copyout dst src = (case dst of
       UserDst a \<Rightarrow> bind myproc (\<lambda>i. bind (the_proc i) (\<lambda>p. copyout (p_pagetable p) (p_sz p) a src))
     | PhysDst a \<Rightarrow> bind (modify (\<lambda>s. s\<lparr>mem := st_bytes (mem s) a src\<rparr>)) (\<lambda>_. ret 0)
     | KernDst \<Rightarrow> ret 0)"

definition either_copyin :: "copy_src \<Rightarrow> nat \<Rightarrow> ('x kproc_scheme, int \<times> bytes) kfun" where
  "either_copyin src len = (case src of
       UserSrc a \<Rightarrow> bind myproc (\<lambda>i. bind (the_proc i) (\<lambda>p. copyin (p_pagetable p) (p_sz p) a len))
     | KernSrc bs \<Rightarrow> ret (0, take len bs))"

section \<open>What the operations do to the table\<close>

lemma kproc_of_more:
  assumes "kmach.more t = kmach.more (s :: 'x kproc_scheme)"
  shows "procs t = procs s" and "curproc t = curproc s" and "initproc t = initproc s" and "nextpid t = nextpid s"
  using assms by (cases s, cases t, simp)+

abbreviation pst :: "'x kproc_scheme \<Rightarrow> nat \<Rightarrow> procstate" where
  "pst s i \<equiv> p_state (procs s ! i)"

text \<open>A table of the right size, seen by a CPU that holds no lock of a process.\<close>

definition ptable_ok :: "'x kproc_scheme \<Rightarrow> bool" where
  "ptable_ok s \<longleftrightarrow> length (procs s) = NPROC \<and> (\<forall>i. ProcLock i \<notin> held s)"

lemma kproc_upds [simp]:
  "procs (s\<lparr>held := h\<rparr>) = procs s" "procs (s\<lparr>mem := m\<rparr>) = procs (s :: 'x kproc_scheme)"
  "curproc (s\<lparr>held := h\<rparr>) = curproc (s :: 'x kproc_scheme)"
  by (cases s, simp)+

definition wake1 :: "chan option \<Rightarrow> nat option \<Rightarrow> nat \<Rightarrow> proc \<Rightarrow> proc" where
  "wake1 c me i p = (if me \<noteq> Some i \<and> p_state p = SLEEPING \<and> p_chan p = c then p\<lparr>p_state := RUNNABLE\<rparr> else p)"

lemma wakeup_one_eq:
  assumes "ptable_ok s"
  shows "wakeup_one c i s = Done () (s\<lparr>procs := (procs s)[i := wake1 c (curproc s) i (procs s ! i)]\<rparr>)"
proof -
  have "insert (ProcLock i) (held s) - {ProcLock i} = held s"
    using assms by (auto simp: ptable_ok_def)
  then show ?thesis
    using assms
    by (auto simp: wakeup_one_def bind_def acquire_def release_def the_proc_def upd_proc_def wake1_def ptable_ok_def)
qed

text \<open>A loop over the table whose body treats slot \<open>i\<close> alone changes each slot once.\<close>

lemma foreach_slots:
  assumes len: "length (procs s) = N"
    and step: "\<And>i ps. i < N \<Longrightarrow> length ps = N \<Longrightarrow> ps ! i = procs s ! i \<Longrightarrow>
      f i (s\<lparr>procs := ps\<rparr>) = Done () (s\<lparr>procs := ps[i := g i (procs s ! i)]\<rparr>)"
  shows "foreach [0..<N] f s = Done () (s\<lparr>procs := map (\<lambda>i. g i (procs s ! i)) [0..<N]\<rparr>)"
proof -
  let ?w = "\<lambda>i. g i (procs s ! i)"
  have "foreach [0..<n] f s = Done () (s\<lparr>procs := map ?w [0..<n] @ drop n (procs s)\<rparr>)" if "n \<le> N" for n
    using that
  proof (induction n)
    case (Suc n)
    let ?ps = "map ?w [0..<n] @ drop n (procs s)"
    have "drop n (procs s) = procs s ! n # drop (Suc n) (procs s)"
      using Suc.prems len by (simp add: Cons_nth_drop_Suc)
    then have upd: "?ps[n := ?w n] = map ?w [0..<Suc n] @ drop (Suc n) (procs s)"
      by (simp add: list_update_append)
    have "f n (s\<lparr>procs := ?ps\<rparr>) = Done () (s\<lparr>procs := ?ps[n := ?w n]\<rparr>)"
      using Suc.prems len by (intro step) (simp_all add: nth_append)
    then show ?case
      using Suc unfolding upt_Suc_append[OF le0] foreach_snoc upd by simp
  qed simp
  from this[of N] len show ?thesis by simp
qed

lemma wakeup_eq:
  assumes "ptable_ok s"
  shows "wakeup c s = Done () (s\<lparr>procs := map (\<lambda>i. wake1 c (curproc s) i (procs s ! i)) [0..<NPROC]\<rparr>)"
  unfolding wakeup_def
proof (rule foreach_slots)
  show "wakeup_one c i (s\<lparr>procs := ps\<rparr>) = Done () (s\<lparr>procs := ps[i := wake1 c (curproc s) i (procs s ! i)]\<rparr>)"
    if "length ps = NPROC" "ps ! i = procs s ! i" for i ps
    using wakeup_one_eq[of "s\<lparr>procs := ps\<rparr>" c i] assms that by (simp add: ptable_ok_def)
qed (use assms in \<open>simp add: ptable_ok_def\<close>)

end
