(* ===== verification/Sched.thy ===== *)
theory Sched
  imports Proc
begin

text \<open>
  Processes on several CPUs. The functions of \<open>Proc\<close> run here on a shared table, each CPU with its
  own current process, in any order; a function of one CPU between two switches is one step, as the
  locks it takes make it. The invariant is that the processes in state \<open>RUNNING\<close> are the current
  processes of the CPUs, each of one CPU only.
\<close>

section \<open>The running processes\<close>

definition running :: "'x kproc_scheme \<Rightarrow> nat set" where
  "running s = {i. i < length (procs s) \<and> pst s i = RUNNING}"

lemma running_upds [simp]:
  "running (s\<lparr>curproc := c\<rparr>) = running s" "running (s\<lparr>held := h\<rparr>) = running s"
  by (simp_all add: running_def)

text \<open>What the invariant is about.\<close>

definition pview :: "'x kproc_scheme \<Rightarrow> nat \<times> nat set \<times> nat option" where
  "pview s = (length (procs s), running s, curproc s)"

lemma pview_cong: "procs t = procs s \<Longrightarrow> curproc t = curproc s \<Longrightarrow> pview t = pview s"
  by (simp add: pview_def running_def)

lemma keeps_more_pview: "keeps kmach.more f \<Longrightarrow> keeps pview f"
  unfolding keeps_def using kproc_of_more pview_cong by metis

lemma pview_held [simp]: "pview (s\<lparr>held := h\<rparr>) = pview s"
  by (rule pview_cong) simp_all

lemma running_upd:
  assumes "i < length (procs s) \<Longrightarrow> p_state p = RUNNING \<longleftrightarrow> pst s i = RUNNING"
  shows "running (s\<lparr>procs := (procs s)[i := p]\<rparr>) = running s"
  using assms by (cases "i < length (procs s)") (auto simp: running_def nth_list_update split: if_splits)

lemma pview_upd:
  assumes "i < length (procs s) \<Longrightarrow> p_state p = RUNNING \<longleftrightarrow> pst s i = RUNNING"
  shows "pview (s\<lparr>procs := (procs s)[i := p]\<rparr>) = pview s"
  using running_upd[OF assms] by (simp add: pview_def)

lemma keeps_upd_proc: "(\<And>p. p_state (f p) = p_state p) \<Longrightarrow> keeps pview (upd_proc i f)"
  unfolding upd_proc_def by (intro keeps_modify pview_upd) simp

lemma keeps_the_proc [keeps_intros]: "keeps v (the_proc i)"
  unfolding the_proc_def by (rule keeps_gets)

lemma keeps_myproc [keeps_intros]: "keeps v myproc"
  by (rule keepsI) (simp add: myproc_def split: option.splits)

lemma keeps_wakeup [keeps_intros]: "keeps pview (wakeup c)"
proof -
  have "keeps pview (wakeup_one c i)" for i
  proof (rule keepsI)
    show "pview t = pview s" if "wakeup_one c i s = Done a t" for a t and s :: "'x kproc_scheme"
      using that
      by (auto simp: wakeup_one_def bind_eq_Done acquire_def release_def the_proc_def upd_proc_def pview_upd
          split: if_splits)
  qed
  then show ?thesis unfolding wakeup_def by (rule keeps_foreach)
qed

lemma keeps_reparent [keeps_intros]: "keeps pview (reparent p)"
  unfolding reparent_def by (intro keeps_foreach keeps_simple keeps_the_proc keeps_wakeup keeps_upd_proc) simp

lemma keeps_kkill [keeps_intros]: "keeps pview (kkill pid)"
proof -
  have "kkill_scan is pid s = Done a t \<Longrightarrow> pview t = pview s" for "is" a t and s :: "'x kproc_scheme"
  proof (induction "is" arbitrary: s)
    case (Cons i "is")
    show ?case
    proof (cases "ProcLock i \<in> held s")
      case False
      let ?s = "s\<lparr>held := insert (ProcLock i) (held s)\<rparr>"
      have "pview t = pview ?s"
      proof (cases "p_pid (procs s ! i) = pid")
        case True
        then show ?thesis
          using Cons.prems False
          by (auto simp: bind_def acquire_def release_def the_proc_def upd_proc_def pview_upd split: if_splits)
      next
        case nf: False
        then have "kkill_scan is pid (?s\<lparr>held := held ?s - {ProcLock i}\<rparr>) = Done a t"
          using Cons.prems False by (simp add: bind_def acquire_def release_def the_proc_def)
        from Cons.IH[OF this] show ?thesis by simp
      qed
      then show ?thesis by simp
    qed (use Cons.prems in \<open>simp add: bind_def acquire_def\<close>)
  qed simp
  then show ?thesis unfolding kkill_def by (intro keepsI)
qed

lemma keeps_allocpid [keeps_intros]: "keeps pview allocpid"
  unfolding allocpid_def by (intro keeps_simple pview_cong) simp_all

lemma alloc_scan_Done:
  assumes "alloc_scan is s = Done r t"
  shows "pview t = pview s \<and> procs t = procs s \<and> (\<forall>i. r = Some i \<longrightarrow> i \<in> set is \<and> pst s i = UNUSED)"
  using assms
proof (induction "is" arbitrary: s)
  case (Cons i "is")
  show ?case
  proof (cases "ProcLock i \<in> held s")
    case False
    let ?s = "s\<lparr>held := insert (ProcLock i) (held s)\<rparr>"
    show ?thesis
    proof (cases "pst s i = UNUSED")
      case True
      then have "r = Some i" "t = ?s"
        using Cons.prems False by (simp_all add: bind_def acquire_def the_proc_def)
      then show ?thesis using True by simp
    next
      case nf: False
      then have "alloc_scan is (?s\<lparr>held := held ?s - {ProcLock i}\<rparr>) = Done r t"
        using Cons.prems False by (simp add: bind_def acquire_def release_def the_proc_def)
      from Cons.IH[OF this] show ?thesis by simp
    qed
  qed (use Cons.prems in \<open>simp add: bind_def acquire_def\<close>)
qed simp

lemma keeps_tf [keeps_intros]: "keeps kmach.more (tf_get tf r)" "keeps kmach.more (tf_set tf r v)"
  unfolding tf_get_def tf_set_def by (intro keeps_gets keeps_modify; simp)+

lemma keeps_proc_pagetable [keeps_intros]: "keeps kmach.more (proc_pagetable tr tf)"
  unfolding proc_pagetable_def
  by (intro keeps_simple keeps_uvmcreate keeps_mappages keeps_uvmfree keeps_uvmunmap)

lemma keeps_proc_freepagetable [keeps_intros]: "keeps kmach.more (proc_freepagetable pg sz)"
  unfolding proc_freepagetable_def by (intro keeps_simple keeps_uvmfree keeps_uvmunmap)

text \<open>\<open>freeproc\<close> changes no slot but its own, whose state becomes \<open>UNUSED\<close>.\<close>

lemma freeproc_Done:
  assumes "freeproc i s = Done r t"
  shows "length (procs t) = length (procs s)" and "\<forall>j. j \<noteq> i \<longrightarrow> procs t ! j = procs s ! j"
    and "i < length (procs s) \<Longrightarrow> pst t i = UNUSED" and "curproc t = curproc s"
proof -
  have k: "kfree pa u = Done a v \<Longrightarrow> procs v = procs u \<and> curproc v = curproc u" for pa a and u v :: "'a kproc_scheme"
    using keepsD[OF keeps_kfree] kproc_of_more by blast
  have f: "proc_freepagetable pg sz u = Done a v \<Longrightarrow> procs v = procs u \<and> curproc v = curproc u"
    for pg sz a and u v :: "'a kproc_scheme"
    using keepsD[OF keeps_proc_freepagetable] kproc_of_more by blast
  have "length (procs t) = length (procs s) \<and> (\<forall>j. j \<noteq> i \<longrightarrow> procs t ! j = procs s ! j) \<and>
      (i < length (procs s) \<longrightarrow> pst t i = UNUSED) \<and> curproc t = curproc s"
    using assms
    by (auto simp: freeproc_def bind_eq_Done the_proc_def upd_proc_def dest!: k f split: if_splits)
  then show "length (procs t) = length (procs s)" "\<forall>j. j \<noteq> i \<longrightarrow> procs t ! j = procs s ! j"
    "i < length (procs s) \<Longrightarrow> pst t i = UNUSED" "curproc t = curproc s"
    by blast+
qed

lemma freeproc_pview:
  assumes "freeproc i s = Done r t" and "pst s i \<noteq> RUNNING"
  shows "pview t = pview s"
proof -
  note d = freeproc_Done[OF assms(1)]
  have "running t = running s"
    using d assms(2) unfolding running_def by (metis (no_types, lifting) procstate.distinct(7))
  then show ?thesis using d by (simp add: pview_def)
qed

text \<open>The functions that leave the table and the current process alone.\<close>

abbreviation ptab :: "'x kproc_scheme \<Rightarrow> proc list \<times> nat option" where
  "ptab s \<equiv> (procs s, curproc s)"

lemma keeps_more_ptab: "keeps kmach.more f \<Longrightarrow> keeps ptab f"
  unfolding keeps_def using kproc_of_more by (metis (no_types, lifting))

lemmas ptab_kalloc = keepsD[OF keeps_more_ptab[OF keeps_kalloc]]
lemmas ptab_proc_pagetable = keepsD[OF keeps_more_ptab[OF keeps_proc_pagetable]]
lemmas ptab_uvmcopy = keepsD[OF keeps_more_ptab[OF keeps_uvmcopy]]
lemmas ptab_copyout = keepsD[OF keeps_more_ptab[OF keeps_copyout]]

lemma ptab_allocpid: "allocpid s = Done r t \<Longrightarrow> ptab t = ptab s"
  by (rule keepsD[of ptab allocpid])
    (auto simp: allocpid_def intro!: keeps_simple)

lemma pview_ptab: "ptab t = ptab s \<Longrightarrow> pview t = pview s"
  by (rule pview_cong) simp_all

text \<open>Slot \<open>i\<close> on its way from \<open>UNUSED\<close>: nothing the invariant sees has changed.\<close>

definition in_setup :: "'x kproc_scheme \<Rightarrow> nat \<Rightarrow> 'x kproc_scheme \<Rightarrow> bool" where
  "in_setup s i t \<longleftrightarrow> pview t = pview s \<and> (pst t i = UNUSED \<or> pst t i = USED)"

lemma in_setup_ptab: "in_setup s i t \<Longrightarrow> ptab u = ptab t \<Longrightarrow> in_setup s i u"
  using pview_ptab[of u t] by (simp add: in_setup_def)

lemma in_setup_upd:
  assumes "in_setup s i t" and "\<And>p. p_state (f p) = p_state p \<or> p_state (f p) = USED"
  shows "in_setup s i (t\<lparr>procs := (procs t)[i := f (procs t ! i)]\<rparr>)"
proof (cases "i < length (procs t)")
  case True
  have st: "pst t i = UNUSED \<or> pst t i = USED" using assms(1) by (simp add: in_setup_def)
  with assms(2)[of "procs t ! i"] have f: "p_state (f (procs t ! i)) = UNUSED \<or> p_state (f (procs t ! i)) = USED"
    by auto
  have "pview (t\<lparr>procs := (procs t)[i := f (procs t ! i)]\<rparr>) = pview t"
    by (rule pview_upd) (use st f in auto)
  then show ?thesis using assms(1) True f by (simp add: in_setup_def)
next
  case False
  then have "(procs t)[i := f (procs t ! i)] = procs t" by (simp add: list_update_beyond)
  then show ?thesis using assms(1) by simp
qed

lemma wlp_in_setup:
  assumes "in_setup s i t"
  shows "(\<And>p. p_state (f p) = p_state p \<or> p_state (f p) = USED) \<Longrightarrow> wlp (upd_proc i f) (\<lambda>_. in_setup s i) t"
    and "keeps ptab g \<Longrightarrow> wlp g (\<lambda>_. in_setup s i) t"
  using in_setup_upd[OF assms, of f] wlp_keeps[of ptab g t] in_setup_ptab[OF assms]
  by (simp_all add: upd_proc_def wlp_modify)

lemma wlp_freeproc: "in_setup s i t \<Longrightarrow> wlp (freeproc i) (\<lambda>_ u. pview u = pview s) t"
  using freeproc_pview by (fastforce simp: wlp_def in_setup_def)

lemma wlp_allocproc_bad:
  assumes "in_setup s i t"
  shows "wlp (allocproc_bad i) (\<lambda>r u. r = None \<and> pview u = pview s) t"
  unfolding allocproc_bad_def wlp_rules
  by (rule wlp_mono[OF wlp_freeproc[OF assms]]) simp

lemma keeps_allocpid_ptab: "keeps ptab allocpid"
  unfolding allocpid_def by (intro keeps_simple) simp_all

lemma wlp_allocproc_init:
  assumes i: "i < NPROC" and t: "in_setup s i t"
  shows "wlp (allocproc_init fr tr i)
    (\<lambda>r t. pview t = pview s \<and> (\<forall>i. r = Some i \<longrightarrow> i < NPROC \<and> in_setup s i t)) t"
  unfolding allocproc_init_def wlp_bind wlp_if
  by (rule wlp_mono[OF wlp_in_setup(2)[OF t keeps_allocpid_ptab]],
      rule wlp_mono[OF wlp_in_setup(1)], assumption, simp,
      rule wlp_mono[OF wlp_in_setup(2)[OF _ keeps_more_ptab[OF keeps_kalloc]]], assumption,
      rule wlp_mono[OF wlp_in_setup(1)], assumption, simp, simp split: if_split, intro conjI impI,
      rule wlp_mono[OF wlp_allocproc_bad], assumption, simp,
      rule wlp_mono[OF wlp_in_setup(2)[OF _ keeps_more_ptab[OF keeps_proc_pagetable]]], assumption,
      rule wlp_mono[OF wlp_in_setup(1)], assumption, simp, simp split: if_split, intro conjI impI,
      rule wlp_mono[OF wlp_allocproc_bad], assumption, simp,
      rule wlp_mono[OF wlp_in_setup(1)], assumption, simp, use i in \<open>simp add: wlp_ret in_setup_def\<close>)

lemma wlp_allocproc:
  "wlp (allocproc fr tr) (\<lambda>r t. pview t = pview s \<and> (\<forall>i. r = Some i \<longrightarrow> i < NPROC \<and> in_setup s i t)) s"
proof -
  have sc: "wlp (alloc_scan [0..<NPROC]) (\<lambda>r t. case r of None \<Rightarrow> pview t = pview s
      | Some i \<Rightarrow> i < NPROC \<and> in_setup s i t) s"
  proof (rule wlpI)
    fix r t assume "alloc_scan [0..<NPROC] s = Done r t"
    from alloc_scan_Done[OF this] show "case r of None \<Rightarrow> pview t = pview s | Some i \<Rightarrow> i < NPROC \<and> in_setup s i t"
      by (auto simp: in_setup_def split: option.splits)
  qed
  show ?thesis
    unfolding allocproc_def wlp_bind
    by (rule wlp_mono[OF sc]) (simp add: wlp_ret wlp_allocproc_init del: NPROC_def split: option.splits)
qed

lemma wlp_upd_stopped:
  assumes "pview t = pview s" and "pst t i \<noteq> RUNNING" and "\<And>p. p_state (f p) \<noteq> RUNNING"
  shows "wlp (upd_proc i f) (\<lambda>_ u. pview u = pview s) t"
  using pview_upd[of i t "f (procs t ! i)"] assms by (simp add: upd_proc_def wlp_modify)

lemma keeps_ptab_held [keeps_intros]: "keeps ptab (acquire lk)" "keeps ptab (release lk)"
  by (intro keeps_acquire keeps_release; simp)+

lemma in_setup_not_running: "in_setup s i t \<Longrightarrow> pst t i \<noteq> RUNNING"
  by (auto simp: in_setup_def)

lemma wlp_kfork_finish:
  assumes idup: "\<And>ip. keeps ptab (idup ip)" and t: "in_setup s j t"
  shows "wlp (kfork_finish idup i p j np) (\<lambda>_ t. pview t = pview s) t"
  unfolding kfork_finish_def wlp_bind
  by (rule wlp_mono[OF wlp_in_setup(1)[OF t]], simp,
      rule wlp_mono[OF wlp_in_setup(2)[OF _ keeps_modify]], assumption, simp,
      rule wlp_mono[OF wlp_in_setup(2)[OF _ keeps_more_ptab[OF keeps_tf(2)]]], assumption,
      rule wlp_mono[OF wlp_in_setup(2)[OF _ idup]], assumption,
      rule wlp_mono[OF wlp_in_setup(1)], assumption, simp,
      rule wlp_mono[OF wlp_in_setup(2)[OF _ keeps_the_proc]], assumption,
      rule wlp_mono[OF wlp_in_setup(2)[OF _ keeps_ptab_held(2)]], assumption,
      rule wlp_mono[OF wlp_in_setup(2)[OF _ keeps_ptab_held(1)]], assumption,
      rule wlp_mono[OF wlp_in_setup(1)], assumption, simp,
      rule wlp_mono[OF wlp_in_setup(2)[OF _ keeps_ptab_held(2)]], assumption,
      rule wlp_mono[OF wlp_in_setup(2)[OF _ keeps_ptab_held(1)]], assumption,
      rule wlp_mono[OF wlp_upd_stopped[OF _ in_setup_not_running]], simp add: in_setup_def, assumption, simp,
      simp add: wlp_rules)

lemma wlp_myproc: "wlp myproc Q s \<longleftrightarrow> (\<forall>i. curproc s = Some i \<longrightarrow> Q i s)"
  by (simp add: wlp_def myproc_def split: option.splits)

lemma wlp_the_proc: "wlp (the_proc i) Q s \<longleftrightarrow> Q (procs s ! i) s"
  by (simp add: the_proc_def wlp_gets)

lemma wlp_kfork:
  assumes idup: "\<And>ip. keeps ptab (idup ip)"
  shows "wlp (kfork idup fr tr) (\<lambda>_ t. pview t = pview s) s"
proof -
  have "wlp (case po of None \<Rightarrow> ret (- 1) | Some j \<Rightarrow>
     bind (the_proc i) (\<lambda>p.
     bind (the_proc j) (\<lambda>np.
     bind (uvmcopy (p_pagetable p) (p_pagetable np) (p_sz p)) (\<lambda>r.
     if r < 0 then
       bind (freeproc j) (\<lambda>_. bind (release (ProcLock j)) (\<lambda>_. ret (- 1)))
     else kfork_finish idup i p j np)))) (\<lambda>_ t. pview t = pview s) t"
    if "pview t = pview s \<and> (\<forall>j. po = Some j \<longrightarrow> j < NPROC \<and> in_setup s j t)" for po i t
  proof (cases po)
    case None
    then show ?thesis using that by (simp add: wlp_ret)
  next
    case (Some j)
    then have j: "in_setup s j t" using that by simp
    show ?thesis
      unfolding Some option.case wlp_bind wlp_the_proc
      by (rule wlp_mono[OF wlp_in_setup(2)[OF j keeps_more_ptab[OF keeps_uvmcopy]]], simp split: if_split, intro conjI impI,
          simp add: wlp_bind, rule wlp_mono[OF wlp_freeproc], assumption, simp add: wlp_rules,
          rule wlp_kfork_finish[OF idup], assumption)
  qed
  then show ?thesis
    unfolding kfork_def wlp_bind wlp_myproc by (intro allI impI wlp_mono[OF wlp_allocproc])
qed

lemma wlp_kwait_reap:
  assumes "pview t = pview s" and "pst t i = ZOMBIE"
  shows "wlp (kwait_reap p addr i) (\<lambda>_ t. pview t = pview s) t"
proof -
  have free: "wlp (bind (upd_proc i (\<lambda>p. p\<lparr>p_parent := None\<rparr>)) (\<lambda>_.
         bind (freeproc i) (\<lambda>_.
         bind (release (ProcLock i)) (\<lambda>_.
         bind (release WaitLock) (\<lambda>_. ret pid))))) (\<lambda>_ t. pview t = pview s) u"
    if u: "pview u = pview s" "pst u i = ZOMBIE" for u pid
  proof -
    let ?u = "u\<lparr>procs := (procs u)[i := (procs u ! i)\<lparr>p_parent := None\<rparr>]\<rparr>"
    have "pview ?u = pview u" by (rule pview_upd) simp
    moreover have "pst ?u i = ZOMBIE" using u(2) by (cases "i < length (procs u)") (simp_all add: list_update_beyond)
    ultimately have "wlp (freeproc i) (\<lambda>_ v. pview v = pview s) ?u"
      using freeproc_pview[of i ?u] u(1) by (auto simp: wlp_def)
    then show ?thesis
      unfolding wlp_bind upd_proc_def wlp_modify by (rule wlp_mono) (simp add: wlp_rules)
  qed
  have co: "wlp (if addr \<noteq> 0 then copyout pg sz addr bs else ret 0) (\<lambda>_ v. ptab v = ptab t) t" for pg sz bs
  proof (cases "addr = 0")
    case False
    have "wlp (copyout pg sz addr bs) (\<lambda>_ v. ptab v = ptab t) t"
      by (rule wlp_keeps[OF keeps_more_ptab[OF keeps_copyout]])
    then show ?thesis using False by simp
  qed (simp add: wlp_ret)
  show ?thesis
    unfolding kwait_reap_def wlp_bind[of "the_proc _"] wlp_the_proc wlp_bind[of "if _ then copyout _ _ _ _ else _"]
  proof (rule wlp_mono[OF co])
    fix r :: int and v :: "'a kproc_scheme"
    assume v: "ptab v = ptab t"
    then have "pview v = pview s" "pst v i = ZOMBIE" using assms pview_ptab[of v t] by simp_all
    from free[OF this] this(1)
    show "wlp (if r < 0 then bind (release (ProcLock i)) (\<lambda>_. bind (release WaitLock) (\<lambda>_. ret (- 1)))
       else bind (upd_proc i (\<lambda>p. p\<lparr>p_parent := None\<rparr>)) (\<lambda>_.
         bind (freeproc i) (\<lambda>_.
         bind (release (ProcLock i)) (\<lambda>_.
         bind (release WaitLock) (\<lambda>_. ret (p_pid (procs t ! i))))))) (\<lambda>_ t. pview t = pview s) v"
      by (cases "r < 0") (simp_all add: wlp_rules)
  qed
qed

lemma wlp_kwait_scan: "pview t = pview s \<Longrightarrow> wlp (kwait_scan is p addr hk) (\<lambda>_ t. pview t = pview s) t"
proof (induction "is" arbitrary: t hk)
  case Nil
  then show ?case by (simp add: wlp_ret)
next
  case (Cons i "is")
  have "wlp (bind (acquire (ProcLock i)) (\<lambda>_.
     bind (the_proc i) (\<lambda>pp.
     if p_state pp = ZOMBIE then bind (kwait_reap p addr i) (\<lambda>r. ret (Inl r)) else
     bind (release (ProcLock i)) (\<lambda>_.
     kwait_scan is p addr True)))) (\<lambda>_ t. pview t = pview s) t"
  proof (cases "pst t i = ZOMBIE")
    case True
    then show ?thesis
      using wlp_kwait_reap[of "t\<lparr>held := insert (ProcLock i) (held t)\<rparr>" s i p addr] Cons.prems
      by (simp add: wlp_rules wlp_the_proc)
  next
    case False
    then show ?thesis using Cons by (simp add: wlp_rules wlp_the_proc)
  qed
  then show ?case
    using Cons unfolding kwait_scan.simps wlp_bind[of "the_proc _"] wlp_the_proc by (simp split: if_split)
qed

lemma keeps_killed: "keeps pview (killed p)"
  unfolding killed_def by (intro keeps_simple keeps_the_proc) simp_all

lemma wlp_kwait: "wlp (kwait addr) (\<lambda>_ t. pview t = pview s) s"
proof -
  have "wlp (case r of Inl v \<Rightarrow> ret v | Inr havekids \<Rightarrow>
         bind (if havekids then killed p else ret 1) (\<lambda>k.
         if \<not> havekids \<or> k \<noteq> 0 then bind (release WaitLock) (\<lambda>_. ret (- 1))
         else sleep (ChanProc p) WaitLock)) (\<lambda>_ t. pview t = pview s) t" if "pview t = pview s" for r p t
    using that
    by (cases r) (auto simp: wlp_rules sleep_def wlp_def[of "sleep_switch _ _"] split: if_splits intro!: wlp_keeps[OF keeps_killed])
  then show ?thesis
    unfolding kwait_def kwait_loop_def wlp_bind wlp_myproc wlp_acquire
    by (intro allI impI wlp_mono[OF wlp_kwait_scan]) simp_all
qed

section \<open>Switching\<close>

text \<open>The end of a process's turn: it has called \<open>sched\<close>, and the scheduler takes over.\<close>

definition to_scheduler :: "('x kproc_scheme, unit) kfun \<Rightarrow> ('x kproc_scheme, unit) kfun" where
  "to_scheduler f = bind f (\<lambda>_. bind myproc scheduler_back)"

text \<open>A CPU that ran process \<open>p\<close> is without one, and \<open>p\<close> is not running.\<close>

definition left :: "'x kproc_scheme \<Rightarrow> nat \<Rightarrow> 'x kproc_scheme \<Rightarrow> bool" where
  "left s p t \<longleftrightarrow> length (procs t) = length (procs s) \<and> running t = running s - {p} \<and> curproc t = None"

lemma keeps_sched: "keeps v sched"
  unfolding sched_def by (intro keeps_simple keeps_myproc keeps_the_proc)

lemma wlp_to_scheduler:
  assumes "wlp f (\<lambda>_ t. length (procs t) = length (procs s) \<and> running t = running s - {p} \<and> curproc t = Some p) s"
  shows "wlp (to_scheduler f) (\<lambda>_. left s p) s"
  unfolding to_scheduler_def wlp_bind
  by (rule wlp_mono[OF assms])
    (simp add: wlp_myproc scheduler_back_def wlp_rules left_def)

text \<open>Giving up the state \<open>RUNNING\<close> and switching away.\<close>

lemma wlp_stop:
  assumes "length (procs t) = length (procs s)" and "running t = running s" and "curproc t = Some p"
    and "\<And>q. p_state (f q) \<noteq> RUNNING"
  shows "wlp (upd_proc p f)
    (\<lambda>_ t. length (procs t) = length (procs s) \<and> running t = running s - {p} \<and> curproc t = Some p) t"
proof -
  have "running (t\<lparr>procs := (procs t)[p := f (procs t ! p)]\<rparr>) = running t - {p}"
    using assms(4) by (cases "p < length (procs t)") (auto simp: running_def nth_list_update list_update_beyond)
  then show ?thesis using assms by (simp add: upd_proc_def wlp_modify)
qed

lemma wlp_stop_sched:
  assumes "pview t = pview s" and "curproc s = Some p" and "\<And>q. p_state (f q) \<noteq> RUNNING"
  shows "wlp (upd_proc p f) (\<lambda>_. wlp sched
    (\<lambda>_ t. length (procs t) = length (procs s) \<and> running t = running s - {p} \<and> curproc t = Some p)) t"
proof (rule wlp_mono)
  show "wlp (upd_proc p f)
      (\<lambda>_ t. length (procs t) = length (procs s) \<and> running t = running s - {p} \<and> curproc t = Some p) t"
    by (rule wlp_stop) (use assms in \<open>simp_all add: pview_def\<close>)
  show "wlp sched
      (\<lambda>_ t. length (procs t) = length (procs s) \<and> running t = running s - {p} \<and> curproc t = Some p) u"
    if "length (procs u) = length (procs s) \<and> running u = running s - {p} \<and> curproc u = Some p" for u
    by (rule wlp_keeps[OF keeps_sched[of "\<lambda>x. x"]]) (use that in simp)
qed

lemma wlp_yield:
  assumes "curproc s = Some p"
  shows "wlp (to_scheduler yield) (\<lambda>_. left s p) s"
proof (rule wlp_to_scheduler)
  show "wlp yield (\<lambda>_ t. length (procs t) = length (procs s) \<and> running t = running s - {p} \<and> curproc t = Some p) s"
    unfolding yield_def wlp_bind wlp_myproc wlp_acquire
  proof (intro allI impI)
    fix i assume "curproc s = Some i"
    then have i: "i = p" using assms by simp
    show "wlp (upd_proc i (\<lambda>p. p\<lparr>p_state := RUNNABLE\<rparr>)) (\<lambda>_. wlp sched
        (\<lambda>_ t. length (procs t) = length (procs s) \<and> running t = running s - {p} \<and> curproc t = Some p))
      (s\<lparr>held := insert (ProcLock i) (held s)\<rparr>)"
      unfolding i by (rule wlp_stop_sched[OF _ assms]) simp_all
  qed
qed

lemma wlp_sleep:
  assumes "curproc s = Some p"
  shows "wlp (to_scheduler (bind (acquire lk) (\<lambda>_. sleep_switch c lk))) (\<lambda>_. left s p) s"
proof (rule wlp_to_scheduler)
  let ?Q = "\<lambda>_ t. length (procs t) = length (procs s) \<and> running t = running s - {p} \<and> curproc t = Some p"
  have st: "wlp (upd_proc p (\<lambda>p. p\<lparr>p_chan := Some c, p_state := SLEEPING\<rparr>)) (\<lambda>_. wlp sched ?Q) (s\<lparr>held := h\<rparr>)" for h
    by (rule wlp_stop_sched[OF pview_held assms]) simp
  show "wlp (bind (acquire lk) (\<lambda>_. sleep_switch c lk)) ?Q s"
    unfolding sleep_switch_def wlp_bind wlp_myproc wlp_acquire wlp_release using assms st by simp
qed

lemma wlp_kexit:
  assumes "curproc s = Some p" and put: "\<And>ip. keeps pview (put_cwd ip)"
  shows "wlp (to_scheduler (kexit put_cwd status)) (\<lambda>_. left s p) s"
proof (rule wlp_to_scheduler)
  let ?Q = "\<lambda>_ t. length (procs t) = length (procs s) \<and> running t = running s - {p} \<and> curproc t = Some p"
  have stop: "wlp (bind (upd_proc p (\<lambda>p. p\<lparr>p_xstate := status, p_state := ZOMBIE\<rparr>)) (\<lambda>_.
      bind (release WaitLock) (\<lambda>_. sched))) ?Q t" if t: "pview t = pview s" for t
  proof -
    have "wlp (upd_proc p (\<lambda>p. p\<lparr>p_xstate := status, p_state := ZOMBIE\<rparr>)) ?Q t"
      by (rule wlp_stop) (use t assms(1) in \<open>simp_all add: pview_def\<close>)
    then show ?thesis
      unfolding wlp_bind wlp_release
    proof (rule wlp_mono)
      fix a u
      assume "length (procs u) = length (procs s) \<and> running u = running s - {p} \<and> curproc u = Some p"
      then show "WaitLock \<in> held u \<longrightarrow> wlp sched ?Q (u\<lparr>held := held u - {WaitLock}\<rparr>)"
        by (intro impI wlp_keeps[OF keeps_sched[of "\<lambda>x. x"]]) simp
    qed
  qed
  have pre: "keeps pview (bind (upd_proc p (\<lambda>p. p\<lparr>p_cwd := None\<rparr>)) (\<lambda>_.
      bind (acquire WaitLock) (\<lambda>_.
      bind (reparent p) (\<lambda>_.
      bind (the_proc p) (\<lambda>q.
      bind (wakeup (map_option ChanProc (p_parent q))) (\<lambda>_.
      acquire (ProcLock p)))))))"
    by (intro keeps_bind keeps_upd_proc keeps_acquire keeps_reparent keeps_the_proc keeps_wakeup) simp_all
  have body: "wlp (bind (put_cwd ip) (\<lambda>_. bind (bind (upd_proc p (\<lambda>p. p\<lparr>p_cwd := None\<rparr>)) (\<lambda>_.
      bind (acquire WaitLock) (\<lambda>_.
      bind (reparent p) (\<lambda>_.
      bind (the_proc p) (\<lambda>q.
      bind (wakeup (map_option ChanProc (p_parent q))) (\<lambda>_.
      acquire (ProcLock p))))))) (\<lambda>_.
      bind (upd_proc p (\<lambda>p. p\<lparr>p_xstate := status, p_state := ZOMBIE\<rparr>)) (\<lambda>_.
      bind (release WaitLock) (\<lambda>_. sched))))) ?Q s" for ip
    unfolding wlp_bind[of "put_cwd ip"] wlp_bind[of "bind _ _"]
    by (intro wlp_keeps[OF put] wlp_keeps[OF pre] stop) simp
  have "wlp (bind (the_proc p) (\<lambda>q. bind (put_cwd (p_cwd q)) (\<lambda>_.
     bind (upd_proc p (\<lambda>p. p\<lparr>p_cwd := None\<rparr>)) (\<lambda>_.
     bind (acquire WaitLock) (\<lambda>_.
     bind (reparent p) (\<lambda>_.
     bind (the_proc p) (\<lambda>q.
     bind (wakeup (map_option ChanProc (p_parent q))) (\<lambda>_.
     bind (acquire (ProcLock p)) (\<lambda>_.
     bind (upd_proc p (\<lambda>p. p\<lparr>p_xstate := status, p_state := ZOMBIE\<rparr>)) (\<lambda>_.
     bind (release WaitLock) (\<lambda>_.
     sched))))))))))) ?Q s"
    unfolding wlp_bind[of "the_proc _"] wlp_the_proc using body by (simp only: bind_assoc)
  then show "wlp (kexit put_cwd status) ?Q s"
    unfolding kexit_def wlp_bind[of myproc] wlp_myproc wlp_bind[of "gets _"] wlp_gets
    using assms(1) by (simp add: wlp_panic)
qed

text \<open>The scheduler's side: process \<open>i\<close> starts to run, or nothing happens. The process that is
  switched to releases its own lock first, in \<open>yield\<close>, \<open>sleep\<close> or \<open>forkret\<close>.\<close>

definition dispatch :: "nat \<Rightarrow> ('x kproc_scheme, unit) kfun" where
  "dispatch i = bind (scheduler_pick i) (\<lambda>run. if run then yield_return else ret ())"

lemma wlp_dispatch:
  "wlp (dispatch i) (\<lambda>_ t. pview t = pview s \<or>
     length (procs t) = length (procs s) \<and> curproc t = Some i \<and>
     (i < length (procs s) \<longrightarrow> i \<notin> running s \<and> running t = insert i (running s))) s"
  by (auto simp: dispatch_def scheduler_pick_def yield_return_def wlp_rules wlp_the_proc wlp_myproc
      upd_proc_def running_def nth_list_update)

section \<open>All CPUs\<close>

text \<open>The shared state, and the current process of each CPU.\<close>

type_synonym 'x psys = "'x kproc_scheme \<times> (nat \<Rightarrow> nat option)"

text \<open>CPU \<open>c\<close> runs \<open>f\<close>, from a point where it holds no lock.\<close>

definition on_cpu :: "nat \<Rightarrow> ('x kproc_scheme, 'a) kfun \<Rightarrow> 'x psys \<Rightarrow> 'x psys \<Rightarrow> bool" where
  "on_cpu c f S S' \<longleftrightarrow> (\<exists>a t. f ((fst S)\<lparr>curproc := snd S c, held := {}\<rparr>) = Done a t \<and>
     S' = (t, (snd S)(c := curproc t)))"

inductive proc_step ::
  "(nat option \<Rightarrow> ('x kproc_scheme, nat option) kfun) \<Rightarrow> (nat option \<Rightarrow> ('x kproc_scheme, unit) kfun) \<Rightarrow>
   u64 \<Rightarrow> u64 \<Rightarrow> 'x psys \<Rightarrow> 'x psys \<Rightarrow> bool"
  for idup put_cwd forkret trampoline where
    step_dispatch: "c < NCPU \<Longrightarrow> snd S c = None \<Longrightarrow> i < NPROC \<Longrightarrow> on_cpu c (dispatch i) S S' \<Longrightarrow>
      proc_step idup put_cwd forkret trampoline S S'"
  | step_yield: "c < NCPU \<Longrightarrow> snd S c = Some p \<Longrightarrow> on_cpu c (to_scheduler yield) S S' \<Longrightarrow>
      proc_step idup put_cwd forkret trampoline S S'"
  | step_sleep: "c < NCPU \<Longrightarrow> snd S c = Some p \<Longrightarrow>
      on_cpu c (to_scheduler (bind (acquire lk) (\<lambda>_. sleep_switch ch lk))) S S' \<Longrightarrow>
      proc_step idup put_cwd forkret trampoline S S'"
  | step_exit: "c < NCPU \<Longrightarrow> snd S c = Some p \<Longrightarrow> on_cpu c (to_scheduler (kexit put_cwd status)) S S' \<Longrightarrow>
      proc_step idup put_cwd forkret trampoline S S'"
  | step_fork: "c < NCPU \<Longrightarrow> snd S c = Some p \<Longrightarrow> on_cpu c (kfork idup forkret trampoline) S S' \<Longrightarrow>
      proc_step idup put_cwd forkret trampoline S S'"
  | step_wait: "c < NCPU \<Longrightarrow> snd S c = Some p \<Longrightarrow> on_cpu c (kwait addr) S S' \<Longrightarrow>
      proc_step idup put_cwd forkret trampoline S S'"
  | step_kill: "c < NCPU \<Longrightarrow> snd S c = Some p \<Longrightarrow> on_cpu c (kkill pid) S S' \<Longrightarrow>
      proc_step idup put_cwd forkret trampoline S S'"
  | step_wakeup: "c < NCPU \<Longrightarrow> on_cpu c (wakeup ch) S S' \<Longrightarrow>
      proc_step idup put_cwd forkret trampoline S S'"

inductive_cases proc_stepE: "proc_step idup put_cwd forkret trampoline S S'"

text \<open>The invariant.\<close>

definition one_cpu :: "'x psys \<Rightarrow> bool" where
  "one_cpu S \<longleftrightarrow> length (procs (fst S)) = NPROC \<and>
     (\<forall>i. i \<in> running (fst S) \<longleftrightarrow> (\<exists>c. snd S c = Some i)) \<and>
     (\<forall>c d i. snd S c = Some i \<longrightarrow> snd S d = Some i \<longrightarrow> c = d)"

lemma one_cpu_keep:
  assumes "one_cpu S" and "on_cpu c f S S'"
    and "\<And>s. wlp f (\<lambda>_ t. pview t = pview s) s"
  shows "one_cpu S'"
proof -
  obtain a t where t: "f ((fst S)\<lparr>curproc := snd S c, held := {}\<rparr>) = Done a t" "S' = (t, (snd S)(c := curproc t))"
    using assms(2) unfolding on_cpu_def by blast
  have "pview t = pview ((fst S)\<lparr>curproc := snd S c, held := {}\<rparr>)"
    by (rule wlpD[OF assms(3) t(1)])
  then show ?thesis
    using assms(1) t(2) by (simp add: one_cpu_def pview_def)
qed

lemma one_cpu_leave:
  assumes "one_cpu S" and "on_cpu c f S S'" and "snd S c = Some p"
    and "\<And>s. curproc s = Some p \<Longrightarrow> wlp f (\<lambda>_. left s p) s"
  shows "one_cpu S'"
proof -
  obtain a t where t: "f ((fst S)\<lparr>curproc := snd S c, held := {}\<rparr>) = Done a t" "S' = (t, (snd S)(c := curproc t))"
    using assms(2) unfolding on_cpu_def by blast
  have "left ((fst S)\<lparr>curproc := snd S c, held := {}\<rparr>) p t"
    by (rule wlpD[OF assms(4) t(1)]) (simp add: assms(3))
  then have l: "length (procs t) = length (procs (fst S))" "running t = running (fst S) - {p}" "curproc t = None"
    by (simp_all add: left_def)
  have inj: "snd S d = Some i \<Longrightarrow> snd S e = Some i \<Longrightarrow> d = e" for d e i
    using assms(1) by (auto simp: one_cpu_def)
  have "i \<in> running t \<longleftrightarrow> (\<exists>d. ((snd S)(c := None)) d = Some i)" for i
  proof
    assume "i \<in> running t"
    then have "i \<in> running (fst S)" "i \<noteq> p" using l(2) by auto
    then obtain d where "snd S d = Some i" using assms(1) by (auto simp: one_cpu_def)
    then show "\<exists>d. ((snd S)(c := None)) d = Some i"
      using \<open>i \<noteq> p\<close> assms(3) by (intro exI[of _ d]) auto
  next
    assume "\<exists>d. ((snd S)(c := None)) d = Some i"
    then obtain d where d: "d \<noteq> c" "snd S d = Some i" by (auto split: if_splits)
    then have "i \<noteq> p" using inj[of d i c] assms(3) by auto
    then show "i \<in> running t" using d assms(1) l(2) by (auto simp: one_cpu_def)
  qed
  then show ?thesis
    using t(2) l inj assms(1) by (auto simp: one_cpu_def split: if_splits)
qed

lemma one_cpu_dispatch:
  assumes "one_cpu S" and "on_cpu c (dispatch i) S S'" and "snd S c = None" and "i < NPROC"
  shows "one_cpu S'"
proof -
  let ?s = "(fst S)\<lparr>curproc := snd S c, held := {}\<rparr>"
  obtain a t where t: "dispatch i ?s = Done a t" "S' = (t, (snd S)(c := curproc t))"
    using assms(2) unfolding on_cpu_def by blast
  have len: "length (procs (fst S)) = NPROC" and run: "\<And>j. j \<in> running (fst S) \<longleftrightarrow> (\<exists>d. snd S d = Some j)"
    and inj: "\<And>d e j. snd S d = Some j \<Longrightarrow> snd S e = Some j \<Longrightarrow> d = e"
    using assms(1) by (auto simp: one_cpu_def)
  from wlpD[OF wlp_dispatch t(1)] consider (idle) "pview t = pview ?s"
    | (run) "length (procs t) = NPROC" "curproc t = Some i" "i \<notin> running (fst S)" "running t = insert i (running (fst S))"
    using len assms(4) by auto
  then show ?thesis
  proof cases
    case idle
    then show ?thesis using assms(1) t(2) by (simp add: one_cpu_def pview_def)
  next
    case run': run
    have "j \<in> running t \<longleftrightarrow> (\<exists>d. ((snd S)(c := Some i)) d = Some j)" for j
    proof
      assume "j \<in> running t"
      then consider "j = i" | d where "snd S d = Some j" using run'(4) run[of j] by auto
      then show "\<exists>d. ((snd S)(c := Some i)) d = Some j"
      proof cases
        case (2 d)
        then show ?thesis using assms(3) by (intro exI[of _ d]) auto
      qed (auto intro: exI[of _ c])
    qed (use run'(4) run[of j] in \<open>auto split: if_splits\<close>)
    moreover have "d = e" if "((snd S)(c := Some i)) d = Some j" "((snd S)(c := Some i)) e = Some j" for d e j
    proof -
      have "snd S x \<noteq> Some i" for x using run[of i] run'(3) by blast
      with that have "d = c \<longleftrightarrow> e = c" by (metis fun_upd_other fun_upd_same option.inject)
      then show ?thesis using that inj[of d j e] by (cases "d = c") simp_all
    qed
    ultimately show ?thesis
      unfolding t(2) one_cpu_def fst_conv snd_conv run'(2) using run'(1) by blast
  qed
qed

lemma proc_step_one_cpu:
  assumes "proc_step idup put_cwd fr tr S S'" and "one_cpu S"
    and "\<And>ip. keeps ptab (idup ip)" and "\<And>ip. keeps pview (put_cwd ip)"
  shows "one_cpu S'"
  using assms(1)
proof cases
  case (step_dispatch c i)
  then show ?thesis using one_cpu_dispatch[OF assms(2)] by blast
next
  case (step_yield c p)
  then show ?thesis using one_cpu_leave[OF assms(2) _ _ wlp_yield] by blast
next
  case (step_sleep c p lk ch)
  then show ?thesis using one_cpu_leave[OF assms(2) _ _ wlp_sleep] by blast
next
  case (step_exit c p status)
  show ?thesis
    by (rule one_cpu_leave[OF assms(2) step_exit(3,2)], rule wlp_kexit, assumption, rule assms(4))
next
  case (step_fork c p)
  show ?thesis
    by (rule one_cpu_keep[OF assms(2) step_fork(3)], rule wlp_kfork, rule assms(3))
next
  case (step_wait c p addr)
  show ?thesis by (rule one_cpu_keep[OF assms(2) step_wait(3) wlp_kwait])
next
  case (step_kill c p pid)
  show ?thesis by (rule one_cpu_keep[OF assms(2) step_kill(3)], rule wlp_keeps[OF keeps_kkill])
next
  case (step_wakeup c ch)
  show ?thesis by (rule one_cpu_keep[OF assms(2) step_wakeup(2)], rule wlp_keeps[OF keeps_wakeup])
qed

section \<open>Properties\<close>

text \<open>A table in which process 0 runs, process 1 sleeps on \<open>&ticks\<close> and the other slots are unused.\<close>

definition demo_proc :: proc where
  "demo_proc = \<lparr>p_state = UNUSED, p_chan = None, p_killed = 0, p_xstate = 0, p_pid = 0, p_parent = None,
     p_kstack = 0, p_sz = 0, p_pagetable = 0, p_trapframe = 0, p_context = zero_context, p_cwd = None,
     p_name = replicate 16 0\<rparr>"

definition proc_demo :: kproc where
  "proc_demo = \<lparr>held = {}, mem = \<lambda>_. 0, freelist = 0, kend = 0x80000000, kernel_pagetable = 0, satp = 0,
     procs = demo_proc\<lparr>p_state := RUNNING, p_pid := 1\<rparr> #
       demo_proc\<lparr>p_state := SLEEPING, p_pid := 2, p_chan := Some ChanTicks\<rparr> # replicate 62 demo_proc,
     curproc = Some 0, initproc = Some 0, nextpid = 3\<rparr>"

lemma proc_demo_ok: "ptable_ok proc_demo"
  by (simp add: ptable_ok_def proc_demo_def)

text \<open>C23: \<open>wakeup\<close> always returns, and afterwards no process but the caller sleeps on the channel: every
  sleeper on it is runnable and nothing else of any process has changed.\<close>

theorem wakeup_wakes_every_sleeper:
  assumes "ptable_ok s"
  shows "\<exists>t. wakeup (Some c) s = Done () t \<and> length (procs t) = NPROC \<and> held t = held s \<and>
    (\<forall>i<NPROC. procs t ! i =
       (if curproc s \<noteq> Some i \<and> p_state (procs s ! i) = SLEEPING \<and> p_chan (procs s ! i) = Some c
        then (procs s ! i)\<lparr>p_state := RUNNABLE\<rparr> else procs s ! i))"
  by (rule exI, rule conjI[OF wakeup_eq[OF assms]]) (simp add: wake1_def)

theorem wakeup_wakes_every_sleeper_witness:
  "\<exists>t. wakeup (Some ChanTicks) proc_demo = Done () t \<and> p_state (procs t ! 1) = RUNNABLE"
proof -
  have "p_state (procs proc_demo ! 1) = SLEEPING" "p_chan (procs proc_demo ! 1) = Some ChanTicks"
    "curproc proc_demo = Some 0"
    by (simp_all add: proc_demo_def)
  then show ?thesis
    using wakeup_wakes_every_sleeper[OF proc_demo_ok, of ChanTicks] by (elim exE) (auto intro!: exI)
qed

text \<open>C24: process identifiers stay positive 32-bit integers. \<open>allocpid\<close> returns the current
  \<open>nextpid\<close> and keeps \<open>nextpid\<close> between 1 and the largest \<open>int\<close>, restarting at 1 after it.\<close>

theorem allocpid_in_range:
  assumes "0 < nextpid s" and "nextpid s < 2 ^ 31" and "PidLock \<notin> held s"
  shows "\<exists>t. allocpid s = Done (nextpid s) t \<and> 0 < nextpid t \<and> nextpid t < 2 ^ 31 \<and>
     (nextpid t = nextpid s + 1 \<or> nextpid s = 2 ^ 31 - 1 \<and> nextpid t = 1)"
proof (cases "nextpid s = 2 ^ 31 - 1")
  case True
  then have "signed_take_bit 31 (nextpid s + 1) < 1" by (simp add: signed_take_bit_eq_take_bit_minus bit_iff_odd)
  then show ?thesis
    using assms True by (simp add: allocpid_def bind_def acquire_def release_def)
next
  case False
  then have "signed_take_bit 31 (nextpid s + 1) = nextpid s + 1"
    using assms by (intro signed_take_bit_int_eq_self) simp_all
  then show ?thesis
    using assms False by (simp add: allocpid_def bind_def acquire_def release_def)
qed

theorem allocpid_in_range_witness: "\<exists>t. allocpid proc_demo = Done 3 t \<and> 0 < nextpid t"
proof -
  have "nextpid proc_demo = 3" "PidLock \<notin> held proc_demo" by (simp_all add: proc_demo_def)
  then show ?thesis using allocpid_in_range[of proc_demo] by auto
qed

end
