(* ===== verification/Sleeplock.thy ===== *)
theory Sleeplock
  imports Sched
begin

text \<open>
  Sleeping locks, \<^verbatim>\<open>kernel/sleeplock.c\<close>. A sleep lock is embedded in a buffer or an inode; the
  functions take the spin lock inside it, the channel it sleeps on (its address), and how to read
  and update it in the state.
\<close>

record sleeplock =
  sl_locked :: u32
  sl_name :: string
  sl_pid :: int

definition initsleeplock :: "string \<Rightarrow> sleeplock" where
  "initsleeplock nm = \<lparr>sl_locked = 0, sl_name = nm, sl_pid = 0\<rparr>"

text \<open>\<open>myproc()->pid\<close>\<close>

definition mypid :: "('x kproc_scheme, int) kfun" where
  "mypid = bind myproc (\<lambda>i. bind (the_proc i) (\<lambda>p. ret (p_pid p)))"

text \<open>The loop of \<open>acquiresleep\<close> is entered again after a sleep; one turn of it is the call below.\<close>

definition acquiresleep :: "lockid \<Rightarrow> chan \<Rightarrow> ('x kproc_scheme \<Rightarrow> sleeplock) \<Rightarrow>
    ((sleeplock \<Rightarrow> sleeplock) \<Rightarrow> 'x kproc_scheme \<Rightarrow> 'x kproc_scheme) \<Rightarrow> ('x kproc_scheme, unit) kfun" where
  "acquiresleep lk ch rd upd =
     bind (acquire lk) (\<lambda>_.
     bind (gets rd) (\<lambda>l.
     if sl_locked l \<noteq> 0 then sleep ch lk else
     bind mypid (\<lambda>pid.
     bind (modify (upd (\<lambda>l. l\<lparr>sl_locked := 1, sl_pid := pid\<rparr>))) (\<lambda>_.
     release lk))))"

definition releasesleep :: "lockid \<Rightarrow> chan \<Rightarrow>
    ((sleeplock \<Rightarrow> sleeplock) \<Rightarrow> 'x kproc_scheme \<Rightarrow> 'x kproc_scheme) \<Rightarrow> ('x kproc_scheme, unit) kfun" where
  "releasesleep lk ch upd =
     bind (acquire lk) (\<lambda>_.
     bind (modify (upd (\<lambda>l. l\<lparr>sl_locked := 0, sl_pid := 0\<rparr>))) (\<lambda>_.
     bind (wakeup (Some ch)) (\<lambda>_.
     release lk)))"

definition holdingsleep :: "lockid \<Rightarrow> ('x kproc_scheme \<Rightarrow> sleeplock) \<Rightarrow> ('x kproc_scheme, bool) kfun" where
  "holdingsleep lk rd =
     bind (acquire lk) (\<lambda>_.
     bind (gets rd) (\<lambda>l.
     bind (if sl_locked l \<noteq> 0 then bind mypid (\<lambda>pid. ret (sl_pid l = pid)) else ret False) (\<lambda>r.
     bind (release lk) (\<lambda>_.
     ret r))))"

section \<open>What the calls do\<close>

text \<open>The state with the sleepers on a channel woken.\<close>

definition woken :: "chan \<Rightarrow> 'x kproc_scheme \<Rightarrow> 'x kproc_scheme" where
  "woken c s = s\<lparr>procs := map (\<lambda>i. wake1 (Some c) (curproc s) i (procs s ! i)) [0..<NPROC]\<rparr>"

text \<open>A process runs kernel code and holds no lock of a process.\<close>

definition in_proc :: "'x kproc_scheme \<Rightarrow> int \<Rightarrow> bool" where
  "in_proc s pid \<longleftrightarrow> ptable_ok s \<and> (\<exists>i<NPROC. curproc s = Some i \<and> p_pid (procs s ! i) = pid)"

lemma in_proc_woken: "in_proc s pid \<Longrightarrow> in_proc (woken c s) pid"
  by (auto simp: in_proc_def woken_def ptable_ok_def wake1_def)

lemma mypid_eq: "in_proc s pid \<Longrightarrow> mypid s = Done pid s"
  by (auto simp: in_proc_def mypid_def myproc_def the_proc_def bind_def)

lemma acquiresleep_free:
  assumes "lk \<notin> held s" and "sl_locked (rd s) = 0" and "in_proc s pid"
    and "\<And>s h. rd (s\<lparr>held := h\<rparr>) = rd s" and "\<And>f s h. upd f (s\<lparr>held := h\<rparr>) = (upd f s)\<lparr>held := h\<rparr>"
    and "\<And>f s. held (upd f s) = held s" and "\<And>i. lk \<noteq> ProcLock i"
  shows "acquiresleep lk ch rd upd s = Done () (upd (\<lambda>l. l\<lparr>sl_locked := 1, sl_pid := pid\<rparr>) s)"
proof -
  have "in_proc (s\<lparr>held := insert lk (held s)\<rparr>) pid"
    using assms(3,7) by (auto simp: in_proc_def ptable_ok_def)
  note p = mypid_eq[OF this]
  have h: "insert lk (held s) - {lk} = held s" using assms(1) by simp
  let ?u = "upd (\<lambda>l. l\<lparr>sl_locked := 1, sl_pid := pid\<rparr>)"
  have "(?u s)\<lparr>held := held (?u s)\<rparr> = ?u s" by simp
  then have "(?u s)\<lparr>held := held s\<rparr> = ?u s" unfolding assms(6) .
  then show ?thesis
    using assms(1,2,4-6) p h unfolding acquiresleep_def by (simp add: bind_def acquire_def release_def)
qed

lemma acquiresleep_busy:
  assumes "lk \<notin> held s" and "sl_locked (rd s) \<noteq> 0" and "\<And>s h. rd (s\<lparr>held := h\<rparr>) = rd s"
  shows "acquiresleep lk ch rd upd s = sleep ch lk (s\<lparr>held := insert lk (held s)\<rparr>)"
  using assms by (simp add: acquiresleep_def bind_def acquire_def)

lemma holdingsleep_eq:
  assumes "lk \<notin> held s" and "in_proc s pid" and "\<And>s h. rd (s\<lparr>held := h\<rparr>) = rd s" and "\<And>i. lk \<noteq> ProcLock i"
  shows "holdingsleep lk rd s = Done (sl_locked (rd s) \<noteq> 0 \<and> sl_pid (rd s) = pid) s"
proof -
  have "in_proc (s\<lparr>held := insert lk (held s)\<rparr>) pid"
    using assms(2,4) by (auto simp: in_proc_def ptable_ok_def)
  note p = mypid_eq[OF this]
  have h: "insert lk (held s) - {lk} = held s" using assms(1) by simp
  show ?thesis
    using assms(1,3) p h by (simp add: holdingsleep_def bind_def acquire_def release_def)
qed

lemma releasesleep_eq:
  assumes "lk \<notin> held s" and "ptable_ok s" and "\<And>i. lk \<noteq> ProcLock i"
    and "\<And>f s h. upd f (s\<lparr>held := h\<rparr>) = (upd f s)\<lparr>held := h\<rparr>" and "\<And>f s. held (upd f s) = held s"
    and "\<And>f s. procs (upd f s) = procs s"
  shows "releasesleep lk ch upd s = Done () (woken ch (upd (\<lambda>l. l\<lparr>sl_locked := 0, sl_pid := 0\<rparr>) s))"
proof -
  let ?u = "upd (\<lambda>l. l\<lparr>sl_locked := 0, sl_pid := 0\<rparr>) s"
  let ?t = "?u\<lparr>held := insert lk (held s)\<rparr>"
  have ok: "ptable_ok ?t" using assms(2,3,6) by (auto simp: ptable_ok_def)
  have h: "insert lk (held s) - {lk} = held s" using assms(1) by simp
  have w: "wakeup (Some ch) ?t = Done () (woken ch ?t)"
    unfolding woken_def by (rule wakeup_eq[OF ok])
  have "(woken ch ?t)\<lparr>held := held s\<rparr> = woken ch (?u\<lparr>held := held s\<rparr>)" by (simp add: woken_def)
  also have "?u\<lparr>held := held s\<rparr> = ?u"
  proof -
    have "?u\<lparr>held := held ?u\<rparr> = ?u" by simp
    then show ?thesis unfolding assms(5) .
  qed
  finally show ?thesis
    using assms(1,4) w h unfolding releasesleep_def by (simp add: bind_def acquire_def release_def woken_def)
qed

text \<open>Invariants of the process table survive all three.\<close>

lemma keeps_mypid [keeps_intros]: "keeps v mypid"
  unfolding mypid_def by (intro keeps_bind keeps_ret keeps_myproc keeps_the_proc)

lemma keeps_sleep [keeps_intros]: "keeps v (sleep c lk)"
  by (rule keepsI) (auto simp: sleep_def bind_eq_Done)

lemma keeps_acquiresleep:
  assumes "\<And>s h. v (s\<lparr>held := h\<rparr>) = v s" and "\<And>f s. v (upd f s) = v s"
  shows "keeps v (acquiresleep lk ch rd upd)"
  unfolding acquiresleep_def
  by (intro keeps_bind keeps_if keeps_acquire keeps_release keeps_gets keeps_modify keeps_mypid keeps_sleep)
    (simp_all add: assms)

lemma keeps_releasesleep:
  assumes "\<And>s h. v (s\<lparr>held := h\<rparr>) = v s" and "\<And>f s. v (upd f s) = v s" and "keeps v (wakeup (Some ch))"
  shows "keeps v (releasesleep lk ch upd)"
  unfolding releasesleep_def
  by (intro keeps_bind keeps_acquire keeps_release keeps_modify assms)

lemma keeps_holdingsleep:
  assumes "\<And>s h. v (s\<lparr>held := h\<rparr>) = v s"
  shows "keeps v (holdingsleep lk rd)"
  unfolding holdingsleep_def
  by (intro keeps_bind keeps_if keeps_acquire keeps_release keeps_gets keeps_ret keeps_mypid) (simp_all add: assms)

end
