(* ===== verification/Bio.thy ===== *)
theory Bio
  imports Sleeplock
begin

text \<open>
  The buffer cache, \<^verbatim>\<open>kernel/bio.c\<close>, with \<open>struct buf\<close> of \<^verbatim>\<open>kernel/buf.h\<close>. The cache is a circular
  doubly linked list through \<open>prev\<close> and \<open>next\<close> fields with a list head, kept here as pointers and
  related to the list of the buffers in order of use.

  \<open>disk_rw\<close> is what a call of \<open>virtio_disk_rw\<close> does once the device has answered: one block moves
  between the buffer and the disk. The disk is addressed by block number only, as in the driver.
  \<open>wtrace\<close> records the writes in the order in which the disk takes them; it is what a crash can cut.
\<close>

section \<open>Buffers and the cache\<close>

datatype bptr = BHead | Buf nat

record buf =
  b_valid :: int
  b_disk :: int
  b_dev :: u32
  b_blockno :: u32
  b_lock :: sleeplock
  b_refcnt :: u32
  b_prev :: bptr
  b_next :: bptr
  b_data :: bytes

record kbio = kproc +
  bufs :: "buf list"
  head_prev :: bptr
  head_next :: bptr
  dblocks :: "u32 \<Rightarrow> bytes"
  wtrace :: "(u32 \<times> bytes) list"

definition the_buf :: "nat \<Rightarrow> ('x kbio_scheme, buf) kfun" where
  "the_buf i = gets (\<lambda>s. bufs s ! i)"

definition upd_buf :: "nat \<Rightarrow> (buf \<Rightarrow> buf) \<Rightarrow> ('x kbio_scheme, unit) kfun" where
  "upd_buf i f = modify (\<lambda>s. s\<lparr>bufs := (bufs s)[i := f (bufs s ! i)]\<rparr>)"

definition nxt :: "'x kbio_scheme \<Rightarrow> bptr \<Rightarrow> bptr" where
  "nxt s p = (case p of BHead \<Rightarrow> head_next s | Buf i \<Rightarrow> b_next (bufs s ! i))"

definition prv :: "'x kbio_scheme \<Rightarrow> bptr \<Rightarrow> bptr" where
  "prv s p = (case p of BHead \<Rightarrow> head_prev s | Buf i \<Rightarrow> b_prev (bufs s ! i))"

definition set_nxt :: "bptr \<Rightarrow> bptr \<Rightarrow> 'x kbio_scheme \<Rightarrow> 'x kbio_scheme" where
  "set_nxt p q s = (case p of BHead \<Rightarrow> s\<lparr>head_next := q\<rparr>
     | Buf i \<Rightarrow> s\<lparr>bufs := (bufs s)[i := (bufs s ! i)\<lparr>b_next := q\<rparr>]\<rparr>)"

definition set_prv :: "bptr \<Rightarrow> bptr \<Rightarrow> 'x kbio_scheme \<Rightarrow> 'x kbio_scheme" where
  "set_prv p q s = (case p of BHead \<Rightarrow> s\<lparr>head_prev := q\<rparr>
     | Buf i \<Rightarrow> s\<lparr>bufs := (bufs s)[i := (bufs s ! i)\<lparr>b_prev := q\<rparr>]\<rparr>)"

definition buf_lock_upd :: "nat \<Rightarrow> (sleeplock \<Rightarrow> sleeplock) \<Rightarrow> 'x kbio_scheme \<Rightarrow> 'x kbio_scheme" where
  "buf_lock_upd i f s = s\<lparr>bufs := (bufs s)[i := (bufs s ! i)\<lparr>b_lock := f (b_lock (bufs s ! i))\<rparr>]\<rparr>"

section \<open>bio.c\<close>

text \<open>Insertion of buffer \<open>i\<close> after the head, as \<open>binit\<close> and \<open>brelse\<close> have it.\<close>

definition link_front :: "nat \<Rightarrow> 'x kbio_scheme \<Rightarrow> 'x kbio_scheme" where
  "link_front i s =
     (let s = set_nxt (Buf i) (nxt s BHead) s;
          s = set_prv (Buf i) BHead s;
          s = set_prv (nxt s BHead) (Buf i) s
      in set_nxt BHead (Buf i) s)"

definition unlink :: "nat \<Rightarrow> 'x kbio_scheme \<Rightarrow> 'x kbio_scheme" where
  "unlink i s =
     (let s = set_prv (nxt s (Buf i)) (prv s (Buf i)) s
      in set_nxt (prv s (Buf i)) (nxt s (Buf i)) s)"

definition binit :: "('x kbio_scheme, unit) kfun" where
  "binit =
     bind (modify (set_prv BHead BHead)) (\<lambda>_.
     bind (modify (set_nxt BHead BHead)) (\<lambda>_.
     foreach [0..<NBUF] (\<lambda>i.
       bind (modify (buf_lock_upd i (\<lambda>_. initsleeplock ''buffer''))) (\<lambda>_.
       modify (link_front i)))))"

definition buf_acquiresleep :: "nat \<Rightarrow> ('x kbio_scheme, unit) kfun" where
  "buf_acquiresleep i = acquiresleep (BufSleepLk i) (ChanBufLock i) (\<lambda>s. b_lock (bufs s ! i)) (buf_lock_upd i)"

definition buf_releasesleep :: "nat \<Rightarrow> ('x kbio_scheme, unit) kfun" where
  "buf_releasesleep i = releasesleep (BufSleepLk i) (ChanBufLock i) (buf_lock_upd i)"

definition buf_holdingsleep :: "nat \<Rightarrow> ('x kbio_scheme, bool) kfun" where
  "buf_holdingsleep i = holdingsleep (BufSleepLk i) (\<lambda>s. b_lock (bufs s ! i))"

text \<open>
  The two loops of \<open>bget\<close>. They follow pointers until they meet the head; the first argument bounds
  the number of steps, and a list of \<open>NBUF\<close> buffers never needs more.
\<close>

fun bget_find :: "nat \<Rightarrow> bptr \<Rightarrow> u32 \<Rightarrow> u32 \<Rightarrow> ('x kbio_scheme, nat option) kfun" where
  "bget_find n BHead dev blockno = ret None"
| "bget_find 0 (Buf i) dev blockno = hang"
| "bget_find (Suc n) (Buf i) dev blockno =
     bind (the_buf i) (\<lambda>b.
     if b_dev b = dev \<and> b_blockno b = blockno then ret (Some i)
     else bget_find n (b_next b) dev blockno)"

fun bget_lru :: "nat \<Rightarrow> bptr \<Rightarrow> ('x kbio_scheme, nat option) kfun" where
  "bget_lru n BHead = ret None"
| "bget_lru 0 (Buf i) = hang"
| "bget_lru (Suc n) (Buf i) =
     bind (the_buf i) (\<lambda>b.
     if b_refcnt b = 0 then ret (Some i) else bget_lru n (b_prev b))"

definition bget :: "u32 \<Rightarrow> u32 \<Rightarrow> ('x kbio_scheme, nat) kfun" where
  "bget dev blockno =
     bind (acquire BcacheLock) (\<lambda>_.
     bind (gets (\<lambda>s. nxt s BHead)) (\<lambda>b.
     bind (bget_find NBUF b dev blockno) (\<lambda>found. case found of
       Some i \<Rightarrow>
         bind (upd_buf i (\<lambda>b. b\<lparr>b_refcnt := b_refcnt b + 1\<rparr>)) (\<lambda>_.
         bind (release BcacheLock) (\<lambda>_.
         bind (buf_acquiresleep i) (\<lambda>_.
         ret i)))
     | None \<Rightarrow>
         bind (gets (\<lambda>s. prv s BHead)) (\<lambda>b.
         bind (bget_lru NBUF b) (\<lambda>free. case free of
           Some i \<Rightarrow>
             bind (upd_buf i (\<lambda>b. b\<lparr>b_dev := dev, b_blockno := blockno, b_valid := 0, b_refcnt := 1\<rparr>)) (\<lambda>_.
             bind (release BcacheLock) (\<lambda>_.
             bind (buf_acquiresleep i) (\<lambda>_.
             ret i)))
         | None \<Rightarrow> panic ''bget: no buffers'')))))"

definition disk_rw :: "nat \<Rightarrow> bool \<Rightarrow> ('x kbio_scheme, unit) kfun" where
  "disk_rw i write = modify (\<lambda>s. let b = bufs s ! i in
     if write then s\<lparr>dblocks := (dblocks s)(b_blockno b := b_data b), wtrace := wtrace s @ [(b_blockno b, b_data b)]\<rparr>
     else s\<lparr>bufs := (bufs s)[i := b\<lparr>b_data := dblocks s (b_blockno b)\<rparr>]\<rparr>)"

definition bread :: "u32 \<Rightarrow> u32 \<Rightarrow> ('x kbio_scheme, nat) kfun" where
  "bread dev blockno =
     bind (bget dev blockno) (\<lambda>i.
     bind (the_buf i) (\<lambda>b.
     bind (if b_valid b = 0
           then bind (disk_rw i False) (\<lambda>_. upd_buf i (\<lambda>b. b\<lparr>b_valid := 1\<rparr>))
           else ret ()) (\<lambda>_.
     ret i)))"

definition bwrite :: "nat \<Rightarrow> ('x kbio_scheme, unit) kfun" where
  "bwrite i =
     bind (buf_holdingsleep i) (\<lambda>h.
     if \<not> h then panic ''bwrite'' else disk_rw i True)"

definition brelse :: "nat \<Rightarrow> ('x kbio_scheme, unit) kfun" where
  "brelse i =
     bind (buf_holdingsleep i) (\<lambda>h.
     if \<not> h then panic ''brelse'' else
     bind (buf_releasesleep i) (\<lambda>_.
     bind (acquire BcacheLock) (\<lambda>_.
     bind (upd_buf i (\<lambda>b. b\<lparr>b_refcnt := b_refcnt b - 1\<rparr>)) (\<lambda>_.
     bind (the_buf i) (\<lambda>b.
     bind (if b_refcnt b = 0 then bind (modify (unlink i)) (\<lambda>_. modify (link_front i)) else ret ()) (\<lambda>_.
     release BcacheLock))))))"

definition bpin :: "nat \<Rightarrow> ('x kbio_scheme, unit) kfun" where
  "bpin i =
     bind (acquire BcacheLock) (\<lambda>_.
     bind (upd_buf i (\<lambda>b. b\<lparr>b_refcnt := b_refcnt b + 1\<rparr>)) (\<lambda>_.
     release BcacheLock))"

definition bunpin :: "nat \<Rightarrow> ('x kbio_scheme, unit) kfun" where
  "bunpin i =
     bind (acquire BcacheLock) (\<lambda>_.
     bind (upd_buf i (\<lambda>b. b\<lparr>b_refcnt := b_refcnt b - 1\<rparr>)) (\<lambda>_.
     release BcacheLock))"

section \<open>The list of buffers\<close>

fun valid_ptr :: "'x kbio_scheme \<Rightarrow> bptr \<Rightarrow> bool" where
  "valid_ptr s BHead = True"
| "valid_ptr s (Buf i) = (i < length (bufs s))"

lemma nxt_set_nxt [simp]: "valid_ptr s p \<Longrightarrow> nxt (set_nxt p q s) r = (if r = p then q else nxt s r)"
  by (cases p; cases r) (auto simp: nxt_def set_nxt_def nth_list_update)

lemma prv_set_prv [simp]: "valid_ptr s p \<Longrightarrow> prv (set_prv p q s) r = (if r = p then q else prv s r)"
  by (cases p; cases r) (auto simp: prv_def set_prv_def nth_list_update)

lemma nxt_set_prv [simp]: "valid_ptr s p \<Longrightarrow> nxt (set_prv p q s) r = nxt s r"
  by (cases p; cases r) (auto simp: nxt_def set_prv_def nth_list_update)

lemma prv_set_nxt [simp]: "valid_ptr s p \<Longrightarrow> prv (set_nxt p q s) r = prv s r"
  by (cases p; cases r) (auto simp: prv_def set_nxt_def nth_list_update)

lemma length_set [simp]: "length (bufs (set_nxt p q s)) = length (bufs s)" "length (bufs (set_prv p q s)) = length (bufs s)"
  by (cases p; simp add: set_nxt_def set_prv_def)+

lemma valid_ptr_set [simp]: "valid_ptr (set_nxt p q s) r = valid_ptr s r" "valid_ptr (set_prv p q s) r = valid_ptr s r"
  by (cases r; cases p; simp add: set_nxt_def set_prv_def)+

text \<open>\<open>seg s p xs q\<close>: from \<open>p\<close> the \<open>next\<close> pointers lead through the buffers \<open>xs\<close> to \<open>q\<close>, and the \<open>prev\<close>
  pointers back.\<close>

fun seg :: "'x kbio_scheme \<Rightarrow> bptr \<Rightarrow> nat list \<Rightarrow> bptr \<Rightarrow> bool" where
  "seg s p [] q \<longleftrightarrow> nxt s p = q \<and> prv s q = p"
| "seg s p (x # xs) q \<longleftrightarrow> nxt s p = Buf x \<and> prv s (Buf x) = p \<and> seg s (Buf x) xs q"

definition lru :: "'x kbio_scheme \<Rightarrow> nat list \<Rightarrow> bool" where
  "lru s xs \<longleftrightarrow> seg s BHead xs BHead \<and> distinct xs \<and> (\<forall>x\<in>set xs. x < length (bufs s))"

lemma seg_append: "seg s p (as @ i # bs) q \<longleftrightarrow> seg s p as (Buf i) \<and> seg s (Buf i) bs q"
  by (induction as arbitrary: p) auto

lemma seg_cong:
  assumes "\<And>r. r = p \<or> r \<in> Buf ` set xs \<Longrightarrow> nxt t r = nxt s r" and "\<And>r. r = q \<or> r \<in> Buf ` set xs \<Longrightarrow> prv t r = prv s r"
  shows "seg t p xs q = seg s p xs q"
  using assms by (induction xs arbitrary: p) auto

lemma seg_first: "seg s p xs q \<Longrightarrow> nxt s p = (case xs of [] \<Rightarrow> q | x # _ \<Rightarrow> Buf x)"
  by (cases xs) auto

lemma seg_last: "seg s p xs q \<Longrightarrow> prv s q = (if xs = [] then p else Buf (last xs))"
  by (induction xs arbitrary: p) auto

lemma seg_unlink:
  assumes "seg s p as (Buf i)" and "seg s (Buf i) bs q" and "distinct (as @ i # bs)"
    and "p \<notin> Buf ` set (as @ i # bs)" and "q \<notin> Buf ` set (as @ i # bs)"
    and "\<And>r. nxt t r = (if r = prv s (Buf i) then nxt s (Buf i) else nxt s r)"
    and "\<And>r. prv t r = (if r = nxt s (Buf i) then prv s (Buf i) else prv s r)"
  shows "seg t p (as @ bs) q"
  using assms(1-5)
proof (induction as arbitrary: p)
  case Nil
  then have pi: "prv s (Buf i) = p" "nxt s p = Buf i" by auto
  show ?case
  proof (cases bs)
    case Nil
    then show ?thesis using Nil.prems pi assms(6,7) by auto
  next
    case (Cons b bs')
    then have b: "nxt s (Buf i) = Buf b" "seg s (Buf b) bs' q" using Nil.prems by auto
    have "seg t (Buf b) bs' q = seg s (Buf b) bs' q"
      by (rule seg_cong) (use Nil.prems Cons pi b assms(6,7) in auto)
    then show ?thesis using Cons b pi assms(6,7) by simp
  qed
next
  case (Cons a as)
  have "prv s (Buf i) \<noteq> p"
    using seg_last[OF Cons.prems(1)] Cons.prems(4) by auto
  moreover have "nxt s (Buf i) \<noteq> Buf a"
    using seg_first[OF Cons.prems(2)] Cons.prems(3,5) by (cases bs) auto
  moreover have "seg t (Buf a) (as @ bs) q"
    using Cons.prems by (intro Cons.IH) auto
  ultimately show ?case using Cons.prems(1) assms(6,7) by simp
qed

lemma bufs_links [simp]: "length (bufs (link_front i s)) = length (bufs s)" "length (bufs (unlink i s)) = length (bufs s)"
  by (simp_all add: link_front_def unlink_def Let_def set_nxt_def set_prv_def split: bptr.splits)

lemma valid_links [simp]: "valid_ptr (link_front i s) p = valid_ptr s p" "valid_ptr (unlink i s) p = valid_ptr s p"
  by (cases p; simp)+

lemma lru_unlink:
  assumes "lru s (as @ i # bs)"
  shows "lru (unlink i s) (as @ bs)"
proof -
  have sg: "seg s BHead as (Buf i)" "seg s (Buf i) bs BHead" and d: "distinct (as @ i # bs)"
    and len: "\<forall>x\<in>set (as @ i # bs). x < length (bufs s)"
    using assms by (auto simp: lru_def seg_append)
  have vp: "valid_ptr s (prv s (Buf i))" using seg_last[OF sg(1)] len by (cases as rule: rev_cases) auto
  have vn: "valid_ptr s (nxt s (Buf i))" using seg_first[OF sg(2)] len by (cases bs) auto
  have np: "nxt s (Buf i) \<noteq> Buf i" using seg_first[OF sg(2)] d by (cases bs) auto
  have "nxt (unlink i s) r = (if r = prv s (Buf i) then nxt s (Buf i) else nxt s r)" for r
    using vp vn np by (simp add: unlink_def Let_def)
  moreover have "prv (unlink i s) r = (if r = nxt s (Buf i) then prv s (Buf i) else prv s r)" for r
    using vp vn np by (simp add: unlink_def Let_def)
  ultimately have "seg (unlink i s) BHead (as @ bs) BHead"
    by (intro seg_unlink[OF sg d]) auto
  then show ?thesis using d len by (simp add: lru_def)
qed

lemma lru_link_front:
  assumes "lru s xs" and "i \<notin> set xs" and "i < length (bufs s)"
  shows "lru (link_front i s) (i # xs)"
proof -
  have sg: "seg s BHead xs BHead" and d: "distinct xs" and len: "\<forall>x\<in>set xs. x < length (bufs s)"
    using assms(1) by (auto simp: lru_def)
  let ?f = "nxt s BHead"
  have f: "?f = (case xs of [] \<Rightarrow> BHead | x # _ \<Rightarrow> Buf x)" by (rule seg_first[OF sg])
  have vf: "valid_ptr s ?f" using f len by (cases xs) auto
  have fi: "?f \<noteq> Buf i" using f assms(2) by (cases xs) auto
  let ?t = "set_prv (Buf i) BHead (set_nxt (Buf i) ?f s)"
  have "nxt ?t BHead = ?f" using assms(3) by simp
  then have l: "link_front i s = set_nxt BHead (Buf i) (set_prv ?f (Buf i) ?t)"
    by (simp add: link_front_def Let_def)
  have n: "nxt (link_front i s) r = (if r = BHead then Buf i else if r = Buf i then ?f else nxt s r)" for r
    unfolding l using vf assms(3) by simp
  have p: "prv (link_front i s) r = (if r = ?f then Buf i else if r = Buf i then BHead else prv s r)" for r
    unfolding l using vf assms(3) fi by simp
  have "seg (link_front i s) (Buf i) xs BHead"
  proof (cases xs)
    case Nil
    then show ?thesis using f n p by simp
  next
    case (Cons x ys)
    have "seg (link_front i s) (Buf x) ys BHead = seg s (Buf x) ys BHead"
      by (rule seg_cong) (use n p f Cons assms(2) d in auto)
    then show ?thesis using Cons sg f n p assms(2) by simp
  qed
  then show ?thesis using n p fi d len assms(2,3) by (simp add: lru_def)
qed

end
