(* ===== verification/Bcache.thy ===== *)
theory Bcache
  imports Bio
begin

text \<open>
  What the buffer cache promises. Its abstract state gives for each block of the device the
  contents a reader sees, the contents on disk, how many references are held and which process has
  it locked. The functions of \<open>Bio\<close>, on linked buffers that are recycled, implement the obvious
  operations on that state; recycling is never seen, since a buffer without references is clean.
\<close>

section \<open>The abstract cache\<close>

record cache =
  c_view :: "u32 \<Rightarrow> bytes"
  c_disk :: "u32 \<Rightarrow> bytes"
  c_trace :: "(u32 \<times> bytes) list"
  c_refs :: "u32 \<Rightarrow> nat"
  c_owner :: "u32 \<Rightarrow> int option"

definition is_id :: "u32 \<Rightarrow> u32 \<Rightarrow> buf \<Rightarrow> bool" where
  "is_id d n b \<longleftrightarrow> b_dev b = d \<and> b_blockno b = n"

definition slot :: "u32 \<Rightarrow> 'x kbio_scheme \<Rightarrow> u32 \<Rightarrow> nat option" where
  "slot d s n = find (\<lambda>i. is_id d n (bufs s ! i)) [0..<length (bufs s)]"

definition view_of :: "bytes \<Rightarrow> buf \<Rightarrow> bytes" where
  "view_of on_disk b = (if b_valid b \<noteq> 0 then b_data b else on_disk)"

definition owner_of :: "buf \<Rightarrow> int option" where
  "owner_of b = (if sl_locked (b_lock b) \<noteq> 0 then Some (sl_pid (b_lock b)) else None)"

definition cache_of :: "u32 \<Rightarrow> 'x kbio_scheme \<Rightarrow> cache" where
  "cache_of d s = \<lparr>
     c_view = (\<lambda>n. case slot d s n of None \<Rightarrow> dblocks s n | Some i \<Rightarrow> view_of (dblocks s n) (bufs s ! i)),
     c_disk = dblocks s, c_trace = wtrace s,
     c_refs = (\<lambda>n. case slot d s n of None \<Rightarrow> 0 | Some i \<Rightarrow> unat (b_refcnt (bufs s ! i))),
     c_owner = (\<lambda>n. case slot d s n of None \<Rightarrow> None | Some i \<Rightarrow> owner_of (bufs s ! i))\<rparr>"

section \<open>The invariant\<close>

definition BSIZE :: nat where [simp]: "BSIZE = 1024"

definition buf_ok :: "u32 \<Rightarrow> (u32 \<Rightarrow> bytes) \<Rightarrow> buf \<Rightarrow> bool" where
  "buf_ok d D b \<longleftrightarrow> (b_refcnt b \<noteq> 0 \<longrightarrow> b_dev b = d) \<and>
     (b_refcnt b = 0 \<and> b_valid b \<noteq> 0 \<and> b_dev b = d \<longrightarrow> b_data b = D (b_blockno b)) \<and>
     (b_refcnt b = 0 \<longrightarrow> sl_locked (b_lock b) = 0) \<and>
     (b_valid b \<noteq> 0 \<and> b_dev b = d \<longrightarrow> length (b_data b) = BSIZE)"

definition uniq :: "u32 \<Rightarrow> 'x kbio_scheme \<Rightarrow> bool" where
  "uniq d s \<longleftrightarrow> (\<forall>i<length (bufs s). \<forall>j<length (bufs s). \<forall>n.
     is_id d n (bufs s ! i) \<and> is_id d n (bufs s ! j) \<longrightarrow> i = j)"

definition bio_ok :: "u32 \<Rightarrow> 'x kbio_scheme \<Rightarrow> bool" where
  "bio_ok d s \<longleftrightarrow> length (bufs s) = NBUF \<and> (\<exists>xs. lru s xs \<and> set xs = {0..<NBUF}) \<and> uniq d s \<and>
     (\<forall>i<NBUF. buf_ok d (dblocks s) (bufs s ! i)) \<and> (\<forall>n. length (dblocks s n) = BSIZE)"

text \<open>The caller is a process that holds none of the locks the cache takes.\<close>

definition ready :: "'x kbio_scheme \<Rightarrow> int \<Rightarrow> bool" where
  "ready s pid \<longleftrightarrow> in_proc s pid \<and> BcacheLock \<notin> held s \<and> (\<forall>i. BufSleepLk i \<notin> held s)"

lemma find_SomeD: "find P xs = Some x \<Longrightarrow> x \<in> set xs \<and> P x"
  by (induction xs) (auto split: if_splits)

lemma uniqD:
  "uniq d s \<Longrightarrow> i < length (bufs s) \<Longrightarrow> j < length (bufs s) \<Longrightarrow> is_id d n (bufs s ! i) \<Longrightarrow> is_id d n (bufs s ! j) \<Longrightarrow> i = j"
  unfolding uniq_def by blast

lemma uniqI:
  "(\<And>i j n. i < length (bufs s) \<Longrightarrow> j < length (bufs s) \<Longrightarrow> is_id d n (bufs s ! i) \<Longrightarrow> is_id d n (bufs s ! j) \<Longrightarrow> i = j) \<Longrightarrow>
   uniq d s"
  unfolding uniq_def by blast

lemma slot_Some:
  assumes "slot d s n = Some i"
  shows "i < length (bufs s)" and "is_id d n (bufs s ! i)"
  using assms by (auto simp: slot_def find_Some_iff)

lemma slot_None: "slot d s n = None \<longleftrightarrow> (\<forall>i<length (bufs s). \<not> is_id d n (bufs s ! i))"
  by (auto simp: slot_def find_None_iff)

lemma slot_eq:
  assumes "uniq d s" and "i < length (bufs s)" and "is_id d n (bufs s ! i)"
  shows "slot d s n = Some i"
proof (cases "slot d s n")
  case None
  then show ?thesis using assms by (auto simp: slot_None)
next
  case (Some j)
  then have "j = i" using slot_Some[OF Some] assms by (intro uniqD[OF assms(1), of j i n])
  then show ?thesis using Some by simp
qed

lemma find_any:
  assumes "slot d s n = r" and "uniq d s" and "set xs = {0..<length (bufs s)}"
  shows "find (\<lambda>i. is_id d n (bufs s ! i)) xs = r"
proof (cases r)
  case None
  then have "\<forall>i<length (bufs s). \<not> is_id d n (bufs s ! i)" using assms(1) slot_None by blast
  then show ?thesis using assms(3) None by (auto simp: find_None_iff)
next
  case (Some i)
  note i = slot_Some[OF assms(1)[unfolded Some]]
  obtain j where j: "find (\<lambda>i. is_id d n (bufs s ! i)) xs = Some j"
    using i assms(3) by (cases "find (\<lambda>i. is_id d n (bufs s ! i)) xs") (auto simp: find_None_iff)
  then have "j \<in> set xs" "is_id d n (bufs s ! j)" by (auto simp: find_Some_iff)
  then have "j = i" using i assms(3) by (intro uniqD[OF assms(2), of j i n]) auto
  then show ?thesis using j Some by simp
qed

section \<open>The loops of bget\<close>

lemma bget_find_eq:
  assumes "seg s p xs BHead" and "length xs \<le> n"
  shows "bget_find n (nxt s p) d b s = Done (find (\<lambda>i. is_id d b (bufs s ! i)) xs) s"
  using assms
proof (induction xs arbitrary: p n)
  case Nil
  then show ?case by simp
next
  case (Cons x xs)
  then obtain m where n: "n = Suc m" "length xs \<le> m" by (cases n) auto
  have x: "nxt s p = Buf x" "seg s (Buf x) xs BHead" using Cons.prems by auto
  have "b_next (bufs s ! x) = nxt s (Buf x)" by (simp add: nxt_def)
  then show ?case
    using Cons.IH[OF x(2) n(2)] unfolding n(1) x(1) by (simp add: the_buf_def is_id_def)
qed

lemma bget_lru_eq:
  assumes "seg s BHead xs q" and "length xs \<le> n"
  shows "bget_lru n (prv s q) s = Done (find (\<lambda>i. b_refcnt (bufs s ! i) = 0) (rev xs)) s"
  using assms
proof (induction xs arbitrary: q n rule: rev_induct)
  case Nil
  then show ?case by simp
next
  case (snoc x xs)
  then obtain m where n: "n = Suc m" "length xs \<le> m" by (cases n) auto
  have x: "prv s q = Buf x" "seg s BHead xs (Buf x)" using snoc.prems(1) by (auto simp: seg_append)
  have "b_prev (bufs s ! x) = prv s (Buf x)" by (simp add: prv_def)
  then show ?case
    using snoc.IH[OF x(2) n(2)] unfolding n(1) x(1) by (simp add: the_buf_def)
qed

section \<open>Changing one buffer\<close>

lemma seg_upd:
  assumes "b_next b' = b_next (bufs s ! i)" and "b_prev b' = b_prev (bufs s ! i)"
  shows "seg (s\<lparr>bufs := (bufs s)[i := b']\<rparr>) p xs q = seg s p xs q"
proof (rule seg_cong)
  show "nxt (s\<lparr>bufs := (bufs s)[i := b']\<rparr>) r = nxt s r" for r
    using assms(1) by (cases r; cases "i < length (bufs s)") (auto simp: nxt_def nth_list_update list_update_beyond)
  show "prv (s\<lparr>bufs := (bufs s)[i := b']\<rparr>) r = prv s r" for r
    using assms(2) by (cases r; cases "i < length (bufs s)") (auto simp: prv_def nth_list_update list_update_beyond)
qed

text \<open>Buffer \<open>i\<close>, which was the buffer of block \<open>n\<close> or one that could be recycled, is now the buffer \<open>b'\<close>
  of block \<open>n\<close>.\<close>

definition may_hold :: "u32 \<Rightarrow> 'x kbio_scheme \<Rightarrow> u32 \<Rightarrow> nat \<Rightarrow> bool" where
  "may_hold d s n i \<longleftrightarrow> i < NBUF \<and>
     (is_id d n (bufs s ! i) \<or> slot d s n = None \<and> b_refcnt (bufs s ! i) = 0)"

lemma replace_slot:
  assumes ok: "bio_ok d s" and i: "may_hold d s n i" and id: "is_id d n b'"
    and t: "length (bufs t) = NBUF" "\<And>k. bufs t ! k = (if k = i then b' else bufs s ! k)"
  shows "uniq d t"
    and "slot d t m = (if m = n then Some i else if slot d s m = Some i then None else slot d s m)"
proof -
  have len: "length (bufs s) = NBUF" and u: "uniq d s" using ok by (auto simp: bio_ok_def)
  have iN: "i < NBUF" using i by (simp add: may_hold_def)
  have only: "j = i" if "j < NBUF" "is_id d n (bufs s ! j)" for j
  proof (cases "is_id d n (bufs s ! i)")
    case True
    then show ?thesis using that len iN by (intro uniqD[OF u, of j i n]) simp_all
  next
    case False
    then have "slot d s n = None" using i by (simp add: may_hold_def)
    then show ?thesis using that len by (auto simp: slot_None)
  qed
  have n_eq: "is_id d m b' \<longleftrightarrow> m = n" for m using id by (auto simp: is_id_def)
  show ut: "uniq d t"
  proof (rule uniqI)
    fix j k m assume jk: "j < length (bufs t)" "k < length (bufs t)" "is_id d m (bufs t ! j)" "is_id d m (bufs t ! k)"
    show "j = k"
    proof (cases "m = n")
      case True
      then have "j = i" "k = i" using jk only[of j] only[of k] t by (auto split: if_splits)
      then show ?thesis by simp
    next
      case False
      then have "j \<noteq> i" "k \<noteq> i" using jk(3,4) n_eq t(2) by auto
      then show ?thesis using jk t len by (intro uniqD[OF u, of j k m]) simp_all
    qed
  qed
  show "slot d t m = (if m = n then Some i else if slot d s m = Some i then None else slot d s m)"
  proof (cases "m = n")
    case True
    then have "slot d t m = Some i"
      using iN id t by (intro slot_eq[OF ut]) simp_all
    then show ?thesis using True by simp
  next
    case mn: False
    show ?thesis
    proof (cases "slot d s m")
      case None
      then have "slot d t m = None"
        using n_eq mn t len unfolding slot_None by simp
      then show ?thesis using mn None by simp
    next
      case (Some j)
      note j = slot_Some[OF Some]
      show ?thesis
      proof (cases "j = i")
        case True
        have "\<not> is_id d m (bufs t ! k)" if "k < length (bufs t)" for k
          using that n_eq mn t len j True uniqD[OF u, of k i m] by (cases "k = i") auto
        then have "slot d t m = None" unfolding slot_None by blast
        then show ?thesis using mn Some True by simp
      next
        case False
        then have "slot d t m = Some j" using j t len by (intro slot_eq[OF ut]) simp_all
        then show ?thesis using mn Some False by simp
      qed
    qed
  qed
qed

lemma cache_replace:
  assumes ok: "bio_ok d s" and i: "may_hold d s n i" and id: "is_id d n b'"
    and b: "buf_ok d (dblocks s) b'"
    and links: "b_next b' = b_next (bufs s ! i)" "b_prev b' = b_prev (bufs s ! i)"
  shows "bio_ok d (s\<lparr>bufs := (bufs s)[i := b']\<rparr>)"
    and "cache_of d (s\<lparr>bufs := (bufs s)[i := b']\<rparr>) = (cache_of d s)\<lparr>
      c_view := (c_view (cache_of d s))(n := view_of (dblocks s n) b'),
      c_refs := (c_refs (cache_of d s))(n := unat (b_refcnt b')),
      c_owner := (c_owner (cache_of d s))(n := owner_of b')\<rparr>"
proof -
  define t where "t = s\<lparr>bufs := (bufs s)[i := b']\<rparr>"
  have len: "length (bufs s) = NBUF" and bs: "\<forall>i<NBUF. buf_ok d (dblocks s) (bufs s ! i)"
    and dl: "\<forall>n. length (dblocks s n) = BSIZE"
    using ok by (auto simp: bio_ok_def)
  have iN: "i < NBUF" using i by (simp add: may_hold_def)
  have lent: "length (bufs t) = NBUF" using len by (simp add: t_def)
  have nth: "bufs t ! k = (if k = i then b' else bufs s ! k)" for k
    using iN len by (simp add: t_def nth_list_update)
  have dt: "dblocks t = dblocks s" "wtrace t = wtrace s" by (simp_all add: t_def)
  obtain xs where xs: "lru s xs" "set xs = {0..<NBUF}" using ok by (auto simp: bio_ok_def)
  have "seg t BHead xs BHead = seg s BHead xs BHead" unfolding t_def by (rule seg_upd[OF links])
  then have "lru t xs" using xs(1) len lent by (simp add: lru_def)
  moreover have "\<forall>j<NBUF. buf_ok d (dblocks t) (bufs t ! j)"
    using bs b unfolding nth dt by simp
  moreover note ut = replace_slot(1)[OF ok i id lent nth]
  ultimately have "bio_ok d t"
    using xs(2) lent dl unfolding bio_ok_def dt by blast
  then show "bio_ok d (s\<lparr>bufs := (bufs s)[i := b']\<rparr>)" unfolding t_def .
  have stale: "view_of (dblocks s m) (bufs s ! i) = dblocks s m" "b_refcnt (bufs s ! i) = 0"
    "owner_of (bufs s ! i) = None" if "slot d s m = Some i" "m \<noteq> n" for m
  proof -
    note j = slot_Some[OF that(1)]
    have "\<not> is_id d n (bufs s ! i)" using j(2) that(2) by (auto simp: is_id_def)
    then show r: "b_refcnt (bufs s ! i) = 0" using i by (simp add: may_hold_def)
    have "buf_ok d (dblocks s) (bufs s ! i)" using bs iN by blast
    then show "view_of (dblocks s m) (bufs s ! i) = dblocks s m" "owner_of (bufs s ! i) = None"
      using r j(2) by (auto simp: buf_ok_def view_of_def owner_of_def is_id_def)
  qed
  have sl: "slot d t m = (if m = n then Some i else if slot d s m = Some i then None else slot d s m)" for m
    by (rule replace_slot(2)[OF ok i id lent nth])
  have "c_view (cache_of d t) = (c_view (cache_of d s))(n := view_of (dblocks s n) b')"
    by (rule ext) (auto simp: cache_of_def sl nth stale dt split: option.splits)
  moreover have "c_refs (cache_of d t) = (c_refs (cache_of d s))(n := unat (b_refcnt b'))"
    by (rule ext) (auto simp: cache_of_def sl nth stale split: option.splits)
  moreover have "c_owner (cache_of d t) = (c_owner (cache_of d s))(n := owner_of b')"
    by (rule ext) (auto simp: cache_of_def sl nth stale split: option.splits)
  moreover have "c_disk (cache_of d t) = c_disk (cache_of d s)" "c_trace (cache_of d t) = c_trace (cache_of d s)"
    by (simp_all add: cache_of_def dt)
  ultimately have "cache_of d t = (cache_of d s)\<lparr>
      c_view := (c_view (cache_of d s))(n := view_of (dblocks s n) b'),
      c_refs := (c_refs (cache_of d s))(n := unat (b_refcnt b')),
      c_owner := (c_owner (cache_of d s))(n := owner_of b')\<rparr>"
    by simp
  then show "cache_of d (s\<lparr>bufs := (bufs s)[i := b']\<rparr>) = (cache_of d s)\<lparr>
      c_view := (c_view (cache_of d s))(n := view_of (dblocks s n) b'),
      c_refs := (c_refs (cache_of d s))(n := unat (b_refcnt b')),
      c_owner := (c_owner (cache_of d s))(n := owner_of b')\<rparr>"
    unfolding t_def .
qed

section \<open>Reading a block\<close>

definition bio_frame :: "'x kbio_scheme \<Rightarrow> 'x kbio_scheme \<Rightarrow> bool" where
  "bio_frame s t \<longleftrightarrow> (\<exists>ps bs hp hn D W. t = s\<lparr>procs := ps, bufs := bs, head_prev := hp, head_next := hn,
     dblocks := D, wtrace := W\<rparr>)"

lemma bio_frame_refl [simp]: "bio_frame s s"
proof -
  have "s = s\<lparr>procs := procs s, bufs := bufs s, head_prev := head_prev s, head_next := head_next s,
     dblocks := dblocks s, wtrace := wtrace s\<rparr>" by simp
  then show ?thesis unfolding bio_frame_def by blast
qed

lemma bio_frame_trans:
  assumes "bio_frame s t" and "bio_frame t u"
  shows "bio_frame s u"
proof -
  obtain ps bs hp hn D W where t: "t = s\<lparr>procs := ps, bufs := bs, head_prev := hp, head_next := hn,
     dblocks := D, wtrace := W\<rparr>" using assms(1) unfolding bio_frame_def by blast
  obtain ps' bs' hp' hn' D' W' where u: "u = t\<lparr>procs := ps', bufs := bs', head_prev := hp', head_next := hn',
     dblocks := D', wtrace := W'\<rparr>" using assms(2) unfolding bio_frame_def by blast
  have "u = s\<lparr>procs := ps', bufs := bs', head_prev := hp', head_next := hn', dblocks := D', wtrace := W'\<rparr>"
    unfolding u t by simp
  then show ?thesis unfolding bio_frame_def by blast
qed

lemma bio_frame_bufs: "bio_frame s (s\<lparr>bufs := bs\<rparr>)"
proof -
  have "s\<lparr>bufs := bs\<rparr> = s\<lparr>procs := procs s, bufs := bs, head_prev := head_prev s, head_next := head_next s,
     dblocks := dblocks s, wtrace := wtrace s\<rparr>" by simp
  then show ?thesis unfolding bio_frame_def by blast
qed

definition take_lock :: "int \<Rightarrow> buf \<Rightarrow> buf" where
  "take_lock pid b = b\<lparr>b_lock := (b_lock b)\<lparr>sl_locked := 1, sl_pid := pid\<rparr>\<rparr>"

lemma buf_acquiresleep_free:
  assumes "ready s pid" and "sl_locked (b_lock (bufs s ! i)) = 0"
  shows "buf_acquiresleep i s = Done () (s\<lparr>bufs := (bufs s)[i := take_lock pid (bufs s ! i)]\<rparr>)"
proof -
  have "acquiresleep (BufSleepLk i) (ChanBufLock i) (\<lambda>s. b_lock (bufs s ! i)) (buf_lock_upd i) s =
      Done () (buf_lock_upd i (\<lambda>l. l\<lparr>sl_locked := 1, sl_pid := pid\<rparr>) s)"
    by (rule acquiresleep_free) (use assms in \<open>simp_all add: ready_def buf_lock_upd_def\<close>)
  then show ?thesis by (simp add: buf_acquiresleep_def buf_lock_upd_def take_lock_def)
qed

text \<open>The buffer \<open>bget\<close> takes for block \<open>n\<close>, before it is locked.\<close>

definition got :: "u32 \<Rightarrow> u32 \<Rightarrow> buf \<Rightarrow> buf" where
  "got d n b = (if is_id d n b then b\<lparr>b_refcnt := b_refcnt b + 1\<rparr>
     else b\<lparr>b_dev := d, b_blockno := n, b_valid := 0, b_refcnt := 1\<rparr>)"

lemma bget_eq:
  assumes rd: "ready s pid" and ok: "bio_ok d s"
    and free: "slot d s n \<noteq> None \<or> (\<exists>i<NBUF. b_refcnt (bufs s ! i) = 0)"
    and own: "c_owner (cache_of d s) n = None"
  shows "\<exists>i. may_hold d s n i \<and> sl_locked (b_lock (bufs s ! i)) = 0 \<and>
    bget d n s = Done i (s\<lparr>bufs := (bufs s)[i := take_lock pid (got d n (bufs s ! i))]\<rparr>)"
proof -
  obtain xs where xs: "lru s xs" "set xs = {0..<NBUF}" and len: "length (bufs s) = NBUF" and u: "uniq d s"
    and bs: "\<forall>i<NBUF. buf_ok d (dblocks s) (bufs s ! i)"
    using ok by (auto simp: bio_ok_def)
  have sg: "seg s BHead xs BHead" and nx: "length xs \<le> NBUF"
    using xs by (auto simp: lru_def distinct_card[symmetric])
  let ?s = "s\<lparr>held := insert BcacheLock (held s)\<rparr>"
  have nh: "BcacheLock \<notin> held s" "insert BcacheLock (held s) - {BcacheLock} = held s"
    using rd by (auto simp: ready_def)
  have seg_h: "seg ?s BHead xs BHead"
    using sg seg_cong[of BHead xs ?s s BHead] by (simp add: nxt_def prv_def split: bptr.splits)
  have find: "bget_find NBUF (nxt ?s BHead) d n ?s = Done (slot d s n) ?s"
    using bget_find_eq[OF seg_h nx, of d n] find_any[OF refl u] xs(2) len by simp
  have ready_upd: "ready (s\<lparr>bufs := bs\<rparr>) pid" for bs using rd by (simp add: ready_def in_proc_def ptable_ok_def)
  have fin: "bind (upd_buf i f) (\<lambda>_. bind (release BcacheLock) (\<lambda>_. bind (buf_acquiresleep i) (\<lambda>_. ret i))) ?s =
      Done i (s\<lparr>bufs := (bufs s)[i := take_lock pid (f (bufs s ! i))]\<rparr>)"
    if "i < NBUF" "sl_locked (b_lock (f (bufs s ! i))) = 0" for i f
  proof -
    have "buf_acquiresleep i (s\<lparr>bufs := (bufs s)[i := f (bufs s ! i)]\<rparr>) =
        Done () (s\<lparr>bufs := (bufs s)[i := take_lock pid (f (bufs s ! i))]\<rparr>)"
      using buf_acquiresleep_free[OF ready_upd, of "(bufs s)[i := f (bufs s ! i)]" i] that len by simp
    then show ?thesis using nh by (simp add: upd_buf_def bind_def release_def)
  qed
  show ?thesis
  proof (cases "slot d s n")
    case (Some i)
    note i = slot_Some[OF Some]
    have lk: "sl_locked (b_lock (bufs s ! i)) = 0"
      using own Some by (simp add: cache_of_def owner_of_def split: if_splits)
    have "bget d n s = Done i (s\<lparr>bufs := (bufs s)[i := take_lock pid (got d n (bufs s ! i))]\<rparr>)"
      using find Some nh fin[of i "\<lambda>b. b\<lparr>b_refcnt := b_refcnt b + 1\<rparr>"] i lk len
      unfolding bget_def by (simp add: bind_Done[of "acquire _" _ "()" ?s] acquire_def got_def)
    then show ?thesis using i lk len by (auto simp: may_hold_def)
  next
    case None
    have lru_eq: "bget_lru NBUF (prv ?s BHead) ?s = Done (find (\<lambda>i. b_refcnt (bufs s ! i) = 0) (rev xs)) ?s"
      using bget_lru_eq[OF seg_h nx] by simp
    obtain i where i: "find (\<lambda>i. b_refcnt (bufs s ! i) = 0) (rev xs) = Some i"
      using free None xs(2) by (cases "find (\<lambda>i. b_refcnt (bufs s ! i) = 0) (rev xs)") (auto simp: find_None_iff)
    then have "i \<in> set (rev xs)" and rc: "b_refcnt (bufs s ! i) = 0" by (auto dest: find_SomeD)
    then have iN: "i < NBUF" using xs(2) by simp
    have lk: "sl_locked (b_lock (bufs s ! i)) = 0" using bs iN rc by (simp add: buf_ok_def)
    have nid: "\<not> is_id d n (bufs s ! i)" using None iN len by (simp add: slot_None)
    have "bget d n s = Done i (s\<lparr>bufs := (bufs s)[i := take_lock pid (got d n (bufs s ! i))]\<rparr>)"
      using find None nh lru_eq i fin[of i "\<lambda>b. b\<lparr>b_dev := d, b_blockno := n, b_valid := 0, b_refcnt := 1\<rparr>"] iN lk nid
      unfolding bget_def by (simp add: bind_Done[of "acquire _" _ "()" ?s] acquire_def got_def)
    then show ?thesis using None iN rc lk by (auto simp: may_hold_def)
  qed
qed

text \<open>A locked buffer with the contents of its block.\<close>

definition handle :: "u32 \<Rightarrow> 'x kbio_scheme \<Rightarrow> nat \<Rightarrow> u32 \<Rightarrow> bool" where
  "handle d s i n \<longleftrightarrow> slot d s n = Some i \<and> b_valid (bufs s ! i) \<noteq> 0"

lemma handle_data: "handle d s i n \<Longrightarrow> b_data (bufs s ! i) = c_view (cache_of d s) n"
  by (simp add: handle_def cache_of_def view_of_def)

lemma handle_replace:
  assumes "bio_ok d s" and "may_hold d s n i" and "is_id d n b'"
    and h: "handle d s j m" "c_refs (cache_of d s) m \<noteq> 0 \<or> is_id d n (bufs s ! i)"
    and v: "m = n \<Longrightarrow> b_valid b' \<noteq> 0"
  shows "handle d (s\<lparr>bufs := (bufs s)[i := b']\<rparr>) j m"
proof -
  let ?t = "s\<lparr>bufs := (bufs s)[i := b']\<rparr>"
  have len: "length (bufs s) = NBUF" and u: "uniq d s" using assms(1) by (auto simp: bio_ok_def)
  have iN: "i < NBUF" using assms(2) by (simp add: may_hold_def)
  have sj: "slot d s m = Some j" and vj: "b_valid (bufs s ! j) \<noteq> 0" using h(1) by (simp_all add: handle_def)
  have sl: "slot d ?t m = (if m = n then Some i else if slot d s m = Some i then None else slot d s m)"
    by (rule replace_slot(2)[OF assms(1-3)]) (use iN len in \<open>simp_all add: nth_list_update\<close>)
  show ?thesis
  proof (cases "m = n")
    case True
    then have "j = i" using assms(2) sj slot_Some[OF sj] uniqD[OF u, of j i n] iN len by (auto simp: may_hold_def)
    then show ?thesis using sl True v iN len by (simp add: handle_def)
  next
    case False
    have "j \<noteq> i"
    proof
      assume "j = i"
      then have "\<not> is_id d n (bufs s ! i)" using slot_Some(2)[OF sj] False by (auto simp: is_id_def)
      moreover from this have "b_refcnt (bufs s ! i) = 0" using assms(2) by (simp add: may_hold_def)
      ultimately show False using h(2) sj \<open>j = i\<close> by (simp add: cache_of_def)
    qed
    then show ?thesis using sl False sj vj iN len by (simp add: handle_def)
  qed
qed

definition has_room :: "cache \<Rightarrow> u32 \<Rightarrow> bool" where
  "has_room c n \<longleftrightarrow> c_refs c n \<noteq> 0 \<or> card {m. c_refs c m \<noteq> 0} < NBUF"

lemma finite_refs: "finite {m. c_refs (cache_of d s) m \<noteq> 0}"
proof (rule finite_subset)
  show "{m. c_refs (cache_of d s) m \<noteq> 0} \<subseteq> b_blockno ` set (bufs s)"
  proof
    fix m assume "m \<in> {m. c_refs (cache_of d s) m \<noteq> 0}"
    then obtain i where "slot d s m = Some i" by (auto simp: cache_of_def split: option.splits)
    from slot_Some[OF this] show "m \<in> b_blockno ` set (bufs s)" by (auto simp: is_id_def)
  qed
qed simp

lemma has_room_free:
  assumes ok: "bio_ok d s" and "has_room (cache_of d s) n"
  shows "slot d s n \<noteq> None \<or> (\<exists>i<NBUF. b_refcnt (bufs s ! i) = 0)"
proof (rule ccontr)
  assume "\<not> ?thesis"
  then have none: "slot d s n = None" and all: "\<forall>i<NBUF. b_refcnt (bufs s ! i) \<noteq> 0" by auto
  have len: "length (bufs s) = NBUF" and u: "uniq d s" and bs: "\<forall>i<NBUF. buf_ok d (dblocks s) (bufs s ! i)"
    using ok by (auto simp: bio_ok_def)
  let ?f = "\<lambda>i. b_blockno (bufs s ! i)"
  have id: "is_id d (?f i) (bufs s ! i)" if "i < NBUF" for i
    using bs all that by (simp add: buf_ok_def is_id_def)
  have "inj_on ?f {0..<NBUF}"
    using id uniqD[OF u] len by (intro inj_onI) (metis atLeastLessThan_iff)
  then have "card (?f ` {0..<NBUF}) = NBUF" by (simp add: card_image)
  moreover have "?f ` {0..<NBUF} \<subseteq> {m. c_refs (cache_of d s) m \<noteq> 0}"
  proof
    fix m assume "m \<in> ?f ` {0..<NBUF}"
    then obtain i where i: "i < NBUF" "m = ?f i" by auto
    then have "slot d s m = Some i" using id len by (intro slot_eq[OF u]) simp_all
    then show "m \<in> {m. c_refs (cache_of d s) m \<noteq> 0}"
      using all i word_neq_0_iff_unat[of "b_refcnt (bufs s ! i)"] by (simp add: cache_of_def)
  qed
  then have "card (?f ` {0..<NBUF}) \<le> card {m. c_refs (cache_of d s) m \<noteq> 0}"
    by (rule card_mono[OF finite_refs])
  ultimately have "NBUF \<le> card {m. c_refs (cache_of d s) m \<noteq> 0}" by simp
  then have "c_refs (cache_of d s) n \<noteq> 0" using assms(2) by (simp add: has_room_def)
  then show False using none by (simp add: cache_of_def)
qed

lemma ready_bufs: "ready s pid \<Longrightarrow> ready (s\<lparr>bufs := bs\<rparr>) pid"
  by (simp add: ready_def in_proc_def ptable_ok_def)

text \<open>A buffer whose block has been read, and the buffer \<open>bread\<close> returns.\<close>

definition filled :: "bytes \<Rightarrow> buf \<Rightarrow> buf" where
  "filled on_disk b = (if b_valid b = 0 then b\<lparr>b_data := on_disk, b_valid := 1\<rparr> else b)"

definition opened :: "'x kbio_scheme \<Rightarrow> u32 \<Rightarrow> int \<Rightarrow> u32 \<Rightarrow> buf \<Rightarrow> buf" where
  "opened s d pid n b = filled (dblocks s n) (take_lock pid (got d n b))"

lemma opened_fields:
  "is_id d n (opened s d pid n b)" "b_valid (opened s d pid n b) \<noteq> 0"
  "b_next (opened s d pid n b) = b_next b" "b_prev (opened s d pid n b) = b_prev b"
  "owner_of (opened s d pid n b) = Some pid"
  "b_refcnt (opened s d pid n b) = (if is_id d n b then b_refcnt b + 1 else 1)"
  "b_data (opened s d pid n b) = (if is_id d n b \<and> b_valid b \<noteq> 0 then b_data b else dblocks s n)"
  by (auto simp: opened_def filled_def take_lock_def got_def is_id_def owner_of_def)

lemma bread_eq:
  assumes rd: "ready s pid" and ok: "bio_ok d s" and room: "has_room (cache_of d s) n"
    and own: "c_owner (cache_of d s) n = None"
  shows "\<exists>i. may_hold d s n i \<and> bread d n s = Done i (s\<lparr>bufs := (bufs s)[i := opened s d pid n (bufs s ! i)]\<rparr>)"
proof -
  obtain i where i: "may_hold d s n i"
    and g: "bget d n s = Done i (s\<lparr>bufs := (bufs s)[i := take_lock pid (got d n (bufs s ! i))]\<rparr>)"
    using bget_eq[OF rd ok has_room_free[OF ok room] own] by blast
  have iN: "i < length (bufs s)" using i ok by (simp add: may_hold_def bio_ok_def)
  have "b_blockno (take_lock pid (got d n (bufs s ! i))) = n"
    by (simp add: take_lock_def got_def is_id_def)
  then have "bread d n s = Done i (s\<lparr>bufs := (bufs s)[i := opened s d pid n (bufs s ! i)]\<rparr>)"
    using g iN by (simp add: bread_def the_buf_def disk_rw_def upd_buf_def opened_def filled_def Let_def bind_def)
  then show ?thesis using i by blast
qed

lemma opened_view:
  assumes "bio_ok d s" and "may_hold d s n i"
  shows "view_of (dblocks s n) (opened s d pid n (bufs s ! i)) = c_view (cache_of d s) n"
    and "of_nat (c_refs (cache_of d s) n) + 1 = b_refcnt (opened s d pid n (bufs s ! i))"
proof -
  have len: "length (bufs s) = NBUF" and u: "uniq d s" using assms(1) by (auto simp: bio_ok_def)
  have "is_id d n (bufs s ! i) \<Longrightarrow> slot d s n = Some i"
    using assms(2) len by (intro slot_eq[OF u]) (simp_all add: may_hold_def)
  then have "(if is_id d n (bufs s ! i) then slot d s n = Some i else slot d s n = None)"
    using assms(2) by (auto simp: may_hold_def)
  then show "view_of (dblocks s n) (opened s d pid n (bufs s ! i)) = c_view (cache_of d s) n"
    "of_nat (c_refs (cache_of d s) n) + 1 = b_refcnt (opened s d pid n (bufs s ! i))"
    by (auto simp: cache_of_def view_of_def opened_fields split: if_splits)
qed

lemma opened_ok:
  assumes ok: "bio_ok d s" and i: "may_hold d s n i" and small: "c_refs (cache_of d s) n + 1 < 2 ^ 32"
  shows "buf_ok d (dblocks s) (opened s d pid n (bufs s ! i))"
    and "unat (b_refcnt (opened s d pid n (bufs s ! i))) = c_refs (cache_of d s) n + 1"
proof -
  let ?b = "opened s d pid n (bufs s ! i)"
  have "unat (of_nat (c_refs (cache_of d s) n + 1) :: u32) = c_refs (cache_of d s) n + 1"
    using small by (intro unat_of_nat_small) simp
  then show r: "unat (b_refcnt ?b) = c_refs (cache_of d s) n + 1"
    unfolding opened_view(2)[OF ok i, symmetric] by (simp add: add.commute)
  then have "b_refcnt ?b \<noteq> 0" by auto
  moreover have "length (b_data ?b) = BSIZE"
  proof -
    have l: "length (dblocks s n) = BSIZE" and "buf_ok d (dblocks s) (bufs s ! i)"
      using ok i by (simp_all add: bio_ok_def may_hold_def)
    then have "b_valid (bufs s ! i) \<noteq> 0 \<and> b_dev (bufs s ! i) = d \<longrightarrow> length (b_data (bufs s ! i)) = BSIZE"
      by (simp add: buf_ok_def)
    then show ?thesis using l by (simp add: opened_fields(7) is_id_def)
  qed
  ultimately show "buf_ok d (dblocks s) ?b"
    using opened_fields(1)[where d=d and n=n and s=s and pid=pid and b="bufs s ! i"] by (simp add: buf_ok_def is_id_def)
qed

lemma wp_bread:
  assumes rd: "ready s pid" and ok: "bio_ok d s" and room: "has_room (cache_of d s) n"
    and own: "c_owner (cache_of d s) n = None" and small: "c_refs (cache_of d s) n + 1 < 2 ^ 32"
  shows "wp (bread d n) (\<lambda>i t. bio_ok d t \<and> ready t pid \<and> bio_frame s t \<and> handle d t i n \<and>
    (\<forall>j m. handle d s j m \<and> c_refs (cache_of d s) m \<noteq> 0 \<longrightarrow> handle d t j m) \<and>
    cache_of d t = (cache_of d s)\<lparr>c_refs := (c_refs (cache_of d s))(n := c_refs (cache_of d s) n + 1),
      c_owner := (c_owner (cache_of d s))(n := Some pid)\<rparr>) s"
proof -
  obtain i where i: "may_hold d s n i"
    and br: "bread d n s = Done i (s\<lparr>bufs := (bufs s)[i := opened s d pid n (bufs s ! i)]\<rparr>)"
    using bread_eq[OF rd ok room own] by blast
  let ?b = "opened s d pid n (bufs s ! i)"
  let ?t = "s\<lparr>bufs := (bufs s)[i := ?b]\<rparr>"
  note b = opened_ok[OF ok i small, of pid] and v = opened_view(1)[OF ok i, of pid]
  note f = opened_fields[where d=d and n=n and s=s and pid=pid and b="bufs s ! i"]
  note c = cache_replace[OF ok i f(1) b(1) f(3,4)]
  have len: "i < length (bufs s)" using ok i by (simp add: bio_ok_def may_hold_def)
  have "slot d ?t n = Some i"
    using c(1) len f(1) by (intro slot_eq) (simp_all add: bio_ok_def)
  then have "handle d ?t i n" using f(2) len by (simp add: handle_def)
  moreover have "handle d ?t j m" if "handle d s j m" "c_refs (cache_of d s) m \<noteq> 0" for j m
    by (rule handle_replace[OF ok i f(1) that(1)]) (use that f(2) in simp_all)
  moreover have "cache_of d ?t = (cache_of d s)\<lparr>c_refs := (c_refs (cache_of d s))(n := c_refs (cache_of d s) n + 1),
      c_owner := (c_owner (cache_of d s))(n := Some pid)\<rparr>"
    unfolding c(2) v b(2) f(5) by simp
  ultimately show ?thesis
    unfolding wp_def br using c(1) ready_bufs[OF rd] bio_frame_bufs by auto
qed

section \<open>Using a buffer\<close>

lemma handle_may_hold: "bio_ok d s \<Longrightarrow> handle d s i n \<Longrightarrow> may_hold d s n i \<and> is_id d n (bufs s ! i) \<and> i < length (bufs s)"
  using slot_Some[of d s n i] by (auto simp: handle_def may_hold_def bio_ok_def)

lemma owner_holding:
  assumes "ready s pid" and "handle d s i n" and "c_owner (cache_of d s) n = Some pid"
  shows "buf_holdingsleep i s = Done True s"
proof -
  have "sl_locked (b_lock (bufs s ! i)) \<noteq> 0 \<and> sl_pid (b_lock (bufs s ! i)) = pid"
    using assms(2,3) by (auto simp: cache_of_def handle_def owner_of_def split: if_splits)
  moreover have "holdingsleep (BufSleepLk i) (\<lambda>s. b_lock (bufs s ! i)) s =
      Done (sl_locked (b_lock (bufs s ! i)) \<noteq> 0 \<and> sl_pid (b_lock (bufs s ! i)) = pid) s"
    by (rule holdingsleep_eq) (use assms(1) in \<open>simp_all add: ready_def\<close>)
  ultimately show ?thesis by (simp add: buf_holdingsleep_def)
qed

lemma not_owner_holding:
  assumes "ready s pid" and "handle d s i n" and "c_owner (cache_of d s) n \<noteq> Some pid"
  shows "buf_holdingsleep i s = Done False s"
proof -
  have "\<not> (sl_locked (b_lock (bufs s ! i)) \<noteq> 0 \<and> sl_pid (b_lock (bufs s ! i)) = pid)"
    using assms(2,3) by (auto simp: cache_of_def handle_def owner_of_def split: if_splits)
  moreover have "holdingsleep (BufSleepLk i) (\<lambda>s. b_lock (bufs s ! i)) s =
      Done (sl_locked (b_lock (bufs s ! i)) \<noteq> 0 \<and> sl_pid (b_lock (bufs s ! i)) = pid) s"
    by (rule holdingsleep_eq) (use assms(1) in \<open>simp_all add: ready_def\<close>)
  ultimately show ?thesis by (simp add: buf_holdingsleep_def)
qed

text \<open>Changing fields of a buffer that leave its block, links and validity as they are.\<close>

lemma wp_upd_buf:
  assumes rd: "ready s pid" and ok: "bio_ok d s" and h: "handle d s i n"
    and f: "is_id d n (f (bufs s ! i))" "b_valid (f (bufs s ! i)) \<noteq> 0" "buf_ok d (dblocks s) (f (bufs s ! i))"
      "b_next (f (bufs s ! i)) = b_next (bufs s ! i)" "b_prev (f (bufs s ! i)) = b_prev (bufs s ! i)"
  shows "wp (upd_buf i f) (\<lambda>_ t. bio_ok d t \<and> ready t pid \<and> bio_frame s t \<and>
    (\<forall>j m. handle d s j m \<longrightarrow> handle d t j m) \<and>
    cache_of d t = (cache_of d s)\<lparr>c_view := (c_view (cache_of d s))(n := b_data (f (bufs s ! i))),
      c_refs := (c_refs (cache_of d s))(n := unat (b_refcnt (f (bufs s ! i)))),
      c_owner := (c_owner (cache_of d s))(n := owner_of (f (bufs s ! i)))\<rparr>) s"
proof -
  let ?b = "f (bufs s ! i)"
  let ?t = "s\<lparr>bufs := (bufs s)[i := ?b]\<rparr>"
  have i: "may_hold d s n i" "is_id d n (bufs s ! i)" using handle_may_hold[OF ok h] by simp_all
  note c = cache_replace[OF ok i(1) f(1,3,4,5)]
  have "handle d ?t j m" if "handle d s j m" for j m
    by (rule handle_replace[OF ok i(1) f(1) that]) (use i f(2) in simp_all)
  moreover have "view_of (dblocks s n) ?b = b_data ?b" using f(2) by (simp add: view_of_def)
  ultimately show ?thesis
    unfolding upd_buf_def wp_modify using c ready_bufs[OF rd] bio_frame_bufs by simp
qed

lemma buf_refcnt:
  assumes "handle d s i n"
  shows "unat (b_refcnt (bufs s ! i)) = c_refs (cache_of d s) n"
    and "owner_of (bufs s ! i) = c_owner (cache_of d s) n"
  using assms by (simp_all add: handle_def cache_of_def)

lemma refcnt_plus: "unat (r :: u32) + 1 < 2 ^ 32 \<Longrightarrow> unat (r + 1) = unat r + 1"
  using unat_add_lem[of r 1] by simp

lemma refcnt_minus: "r \<noteq> (0 :: u32) \<Longrightarrow> unat (r - 1) = unat r - 1"
  using unat_minus_one[of r] by simp

text \<open>The holder of the lock changes the contents.\<close>

lemma wp_set_data:
  assumes rd: "ready s pid" and ok: "bio_ok d s" and h: "handle d s i n"
    and "c_refs (cache_of d s) n \<noteq> 0" and "\<And>b. length b = BSIZE \<Longrightarrow> length (g b) = BSIZE"
  shows "wp (upd_buf i (\<lambda>b. b\<lparr>b_data := g (b_data b)\<rparr>)) (\<lambda>_ t. bio_ok d t \<and> ready t pid \<and> bio_frame s t \<and>
    (\<forall>j m. handle d s j m \<longrightarrow> handle d t j m) \<and>
    cache_of d t = (cache_of d s)\<lparr>c_view := (c_view (cache_of d s))(n := g (c_view (cache_of d s) n))\<rparr>) s"
proof -
  let ?b = "(bufs s ! i)\<lparr>b_data := g (b_data (bufs s ! i))\<rparr>"
  note hm = handle_may_hold[OF ok h]
  have bo: "buf_ok d (dblocks s) (bufs s ! i)" using ok hm by (simp add: bio_ok_def may_hold_def)
  have rc: "b_refcnt (bufs s ! i) \<noteq> 0" using buf_refcnt(1)[OF h] assms(4) by auto
  have vd: "b_valid (bufs s ! i) \<noteq> 0" using h by (simp add: handle_def)
  have "wp (upd_buf i (\<lambda>b. b\<lparr>b_data := g (b_data b)\<rparr>)) (\<lambda>_ t. bio_ok d t \<and> ready t pid \<and> bio_frame s t \<and>
    (\<forall>j m. handle d s j m \<longrightarrow> handle d t j m) \<and>
    cache_of d t = (cache_of d s)\<lparr>c_view := (c_view (cache_of d s))(n := b_data ?b),
      c_refs := (c_refs (cache_of d s))(n := unat (b_refcnt ?b)),
      c_owner := (c_owner (cache_of d s))(n := owner_of ?b)\<rparr>) s"
  proof (rule wp_upd_buf[OF rd ok h])
    show "buf_ok d (dblocks s) ?b" using bo rc assms(5) by (auto simp: buf_ok_def)
  qed (use hm vd in \<open>simp_all add: is_id_def\<close>)
  moreover have "owner_of ?b = owner_of (bufs s ! i)" by (simp add: owner_of_def)
  ultimately show ?thesis
    using buf_refcnt[OF h] handle_data[OF h] by simp
qed

lemma slot_cong: "bufs t = bufs s \<Longrightarrow> slot d t = slot d s"
  by (rule ext) (simp add: slot_def)

lemma cache_of_write:
  assumes "bufs t = bufs s" and "dblocks t = (dblocks s)(n := v)" and "wtrace t = wtrace s @ [(n, v)]"
    and "handle d s i n"
  shows "cache_of d t = (cache_of d s)\<lparr>c_disk := (c_disk (cache_of d s))(n := v),
      c_trace := c_trace (cache_of d s) @ [(n, v)]\<rparr>"
proof -
  have "c_view (cache_of d t) m = c_view (cache_of d s) m" for m
  proof (cases "m = n")
    case True
    then show ?thesis using assms(4) by (simp add: cache_of_def slot_cong[OF assms(1)] assms(1) handle_def view_of_def)
  next
    case False
    then show ?thesis using assms(2) by (simp add: cache_of_def slot_cong[OF assms(1)] assms(1) split: option.split)
  qed
  then have v: "c_view (cache_of d t) = c_view (cache_of d s)" by (rule ext)
  have r: "c_refs (cache_of d t) = c_refs (cache_of d s)" "c_owner (cache_of d t) = c_owner (cache_of d s)"
    unfolding cache_of_def slot_cong[OF assms(1)] assms(1) by simp_all
  have "c_disk (cache_of d t) = (c_disk (cache_of d s))(n := v)" "c_trace (cache_of d t) = c_trace (cache_of d s) @ [(n, v)]"
    by (simp_all add: cache_of_def assms(2,3))
  with v r show ?thesis by simp
qed

lemma wp_bwrite:
  assumes rd: "ready s pid" and ok: "bio_ok d s" and h: "handle d s i n"
    and own: "c_owner (cache_of d s) n = Some pid"
  shows "wp (bwrite i) (\<lambda>_ t. bio_ok d t \<and> ready t pid \<and> bio_frame s t \<and>
    (\<forall>j m. handle d t j m \<longleftrightarrow> handle d s j m) \<and>
    cache_of d t = (cache_of d s)\<lparr>c_disk := (c_disk (cache_of d s))(n := c_view (cache_of d s) n),
      c_trace := c_trace (cache_of d s) @ [(n, c_view (cache_of d s) n)]\<rparr>) s"
proof -
  let ?b = "bufs s ! i" and ?v = "c_view (cache_of d s) n"
  let ?t = "s\<lparr>dblocks := (dblocks s)(n := ?v), wtrace := wtrace s @ [(n, ?v)]\<rparr>"
  note hm = handle_may_hold[OF ok h]
  have bn: "b_blockno ?b = n" "b_data ?b = ?v" using hm handle_data[OF h] by (simp_all add: is_id_def)
  have len: "length (bufs s) = NBUF" and u: "uniq d s" and bs: "\<forall>i<NBUF. buf_ok d (dblocks s) (bufs s ! i)"
    using ok by (auto simp: bio_ok_def)
  have lk: "b_refcnt ?b \<noteq> 0"
    using own bs hm len h by (auto simp: cache_of_def handle_def owner_of_def buf_ok_def split: if_splits)
  have sl: "slot d ?t m = slot d s m" for m by (simp add: slot_def)
  have "buf_ok d (dblocks ?t) (bufs s ! j)" if j: "j < NBUF" for j
  proof (cases "is_id d n (bufs s ! j)")
    case True
    then have "j = i" using hm j len uniqD[OF u, of j i n] by simp
    then show ?thesis using bs j lk by (simp add: buf_ok_def)
  next
    case False
    then show ?thesis using bs j by (auto simp: buf_ok_def is_id_def)
  qed
  moreover have "length ?v = BSIZE"
    using bs hm len h bn(2) by (auto simp: buf_ok_def handle_def is_id_def)
  moreover obtain xs where xs: "lru s xs" "set xs = {0..<NBUF}" using ok by (auto simp: bio_ok_def)
  moreover have "lru ?t xs"
    using xs(1) seg_cong[of BHead xs ?t s BHead] by (simp add: lru_def nxt_def prv_def split: bptr.splits)
  moreover have "uniq d ?t" using u by (simp add: uniq_def)
  ultimately have "bio_ok d ?t" using ok len unfolding bio_ok_def by auto
  moreover have "cache_of d ?t = (cache_of d s)\<lparr>c_disk := (c_disk (cache_of d s))(n := ?v),
      c_trace := c_trace (cache_of d s) @ [(n, ?v)]\<rparr>"
    by (rule cache_of_write[OF _ _ _ h]) simp_all
  moreover have "bio_frame s ?t"
  proof -
    have "?t = s\<lparr>procs := procs s, bufs := bufs s, head_prev := head_prev s, head_next := head_next s,
       dblocks := dblocks ?t, wtrace := wtrace ?t\<rparr>" by simp
    then show ?thesis unfolding bio_frame_def by blast
  qed
  moreover have "ready ?t pid" using rd by (simp add: ready_def in_proc_def ptable_ok_def)
  moreover have "handle d ?t j m \<longleftrightarrow> handle d s j m" for j m by (simp add: handle_def sl)
  moreover have "bwrite i s = Done () ?t"
    using owner_holding[OF rd h own] bn by (simp add: bwrite_def disk_rw_def Let_def)
  ultimately show ?thesis unfolding wp_def by simp
qed

lemma bpin_eq: "BcacheLock \<notin> held s \<Longrightarrow> bpin i s = upd_buf i (\<lambda>b. b\<lparr>b_refcnt := b_refcnt b + 1\<rparr>) s"
  and bunpin_eq: "BcacheLock \<notin> held s \<Longrightarrow> bunpin i s = upd_buf i (\<lambda>b. b\<lparr>b_refcnt := b_refcnt b - 1\<rparr>) s"
  by (simp_all add: bpin_def bunpin_def upd_buf_def acquire_def release_def bind_def)

lemma wp_refcnt:
  assumes rd: "ready s pid" and ok: "bio_ok d s" and h: "handle d s i n"
    and r: "unat (g (b_refcnt (bufs s ! i))) = r'" "r' \<noteq> 0"
  shows "wp (upd_buf i (\<lambda>b. b\<lparr>b_refcnt := g (b_refcnt b)\<rparr>)) (\<lambda>_ t. bio_ok d t \<and> ready t pid \<and> bio_frame s t \<and>
    (\<forall>j m. handle d s j m \<longrightarrow> handle d t j m) \<and>
    cache_of d t = (cache_of d s)\<lparr>c_refs := (c_refs (cache_of d s))(n := r')\<rparr>) s"
proof -
  let ?b = "(bufs s ! i)\<lparr>b_refcnt := g (b_refcnt (bufs s ! i))\<rparr>"
  note hm = handle_may_hold[OF ok h]
  have bo: "buf_ok d (dblocks s) (bufs s ! i)" using ok hm by (simp add: bio_ok_def may_hold_def)
  have vd: "b_valid (bufs s ! i) \<noteq> 0" using h by (simp add: handle_def)
  have nz: "g (b_refcnt (bufs s ! i)) \<noteq> 0" using r by auto
  have "wp (upd_buf i (\<lambda>b. b\<lparr>b_refcnt := g (b_refcnt b)\<rparr>)) (\<lambda>_ t. bio_ok d t \<and> ready t pid \<and> bio_frame s t \<and>
    (\<forall>j m. handle d s j m \<longrightarrow> handle d t j m) \<and>
    cache_of d t = (cache_of d s)\<lparr>c_view := (c_view (cache_of d s))(n := b_data ?b),
      c_refs := (c_refs (cache_of d s))(n := unat (b_refcnt ?b)),
      c_owner := (c_owner (cache_of d s))(n := owner_of ?b)\<rparr>) s"
  proof (rule wp_upd_buf[OF rd ok h])
    show "buf_ok d (dblocks s) ?b" using bo nz hm vd by (auto simp: buf_ok_def is_id_def)
  qed (use hm vd in \<open>simp_all add: is_id_def\<close>)
  moreover have "owner_of ?b = owner_of (bufs s ! i)" by (simp add: owner_of_def)
  ultimately show ?thesis
    using buf_refcnt[OF h] handle_data[OF h] r(1) by simp
qed

lemma wp_bpin:
  assumes "ready s pid" and "bio_ok d s" and "handle d s i n" and "c_refs (cache_of d s) n + 1 < 2 ^ 32"
  shows "wp (bpin i) (\<lambda>_ t. bio_ok d t \<and> ready t pid \<and> bio_frame s t \<and>
    (\<forall>j m. handle d s j m \<longrightarrow> handle d t j m) \<and>
    cache_of d t = (cache_of d s)\<lparr>c_refs := (c_refs (cache_of d s))(n := c_refs (cache_of d s) n + 1)\<rparr>) s"
  using wp_refcnt[OF assms(1-3), of "\<lambda>r. r + 1" "c_refs (cache_of d s) n + 1"] assms
    refcnt_plus[of "b_refcnt (bufs s ! i)"] buf_refcnt(1)[OF assms(3)]
  by (simp add: wp_def bpin_eq ready_def)

lemma wp_bunpin:
  assumes "ready s pid" and "bio_ok d s" and "handle d s i n" and "1 < c_refs (cache_of d s) n"
  shows "wp (bunpin i) (\<lambda>_ t. bio_ok d t \<and> ready t pid \<and> bio_frame s t \<and>
    (\<forall>j m. handle d s j m \<longrightarrow> handle d t j m) \<and>
    cache_of d t = (cache_of d s)\<lparr>c_refs := (c_refs (cache_of d s))(n := c_refs (cache_of d s) n - 1)\<rparr>) s"
proof -
  note r = buf_refcnt(1)[OF assms(3)]
  have "b_refcnt (bufs s ! i) \<noteq> 0" using r assms(4) by auto
  then have "unat (b_refcnt (bufs s ! i) - 1) = c_refs (cache_of d s) n - 1" using refcnt_minus r by metis
  moreover have "c_refs (cache_of d s) n - 1 \<noteq> 0" using assms(4) by simp
  moreover have eq: "bunpin i s = upd_buf i (\<lambda>b. b\<lparr>b_refcnt := b_refcnt b - 1\<rparr>) s"
    by (rule bunpin_eq) (use assms(1) in \<open>simp add: ready_def\<close>)
  ultimately show ?thesis
    using wp_refcnt[OF assms(1-3), of "\<lambda>r. r - 1" "c_refs (cache_of d s) n - 1"] unfolding wp_def eq by blast
qed

section \<open>Releasing a buffer\<close>

text \<open>Only the list has changed.\<close>

definition relinked :: "'x kbio_scheme \<Rightarrow> 'x kbio_scheme \<Rightarrow> bool" where
  "relinked s t \<longleftrightarrow> (\<exists>bs hp hn. t = s\<lparr>bufs := bs, head_prev := hp, head_next := hn\<rparr> \<and> length bs = length (bufs s) \<and>
     (\<forall>j<length bs. \<exists>p q. bs ! j = (bufs s ! j)\<lparr>b_prev := p, b_next := q\<rparr>))"

lemma relinkedI:
  assumes "t = s\<lparr>bufs := bs, head_prev := hp, head_next := hn\<rparr>" and "length bs = length (bufs s)"
    and "\<And>j. j < length bs \<Longrightarrow> \<exists>p q. bs ! j = (bufs s ! j)\<lparr>b_prev := p, b_next := q\<rparr>"
  shows "relinked s t"
  unfolding relinked_def using assms by blast

lemma relinked_trans:
  assumes "relinked s t" and "relinked t u"
  shows "relinked s u"
proof -
  obtain bs hp hn where t: "t = s\<lparr>bufs := bs, head_prev := hp, head_next := hn\<rparr>" "length bs = length (bufs s)"
    "\<forall>j<length bs. \<exists>p q. bs ! j = (bufs s ! j)\<lparr>b_prev := p, b_next := q\<rparr>"
    using assms(1) unfolding relinked_def by blast
  obtain cs hp' hn' where u: "u = t\<lparr>bufs := cs, head_prev := hp', head_next := hn'\<rparr>" "length cs = length (bufs t)"
    "\<forall>j<length cs. \<exists>p q. cs ! j = (bufs t ! j)\<lparr>b_prev := p, b_next := q\<rparr>"
    using assms(2) unfolding relinked_def by blast
  have bt: "bufs t = bs" by (simp add: t(1))
  show ?thesis
  proof (rule relinkedI)
    show "u = s\<lparr>bufs := cs, head_prev := hp', head_next := hn'\<rparr>" by (simp add: u(1) t(1))
    show "length cs = length (bufs s)" using u(2) t(2) bt by simp
    fix j assume j: "j < length cs"
    then obtain p q where c: "cs ! j = (bs ! j)\<lparr>b_prev := p, b_next := q\<rparr>" using u(3) bt by auto
    obtain p' q' where "bs ! j = (bufs s ! j)\<lparr>b_prev := p', b_next := q'\<rparr>" using t(3) j u(2) bt by auto
    with c have "cs ! j = (bufs s ! j)\<lparr>b_prev := p, b_next := q\<rparr>" by simp
    then show "\<exists>p q. cs ! j = (bufs s ! j)\<lparr>b_prev := p, b_next := q\<rparr>" by blast
  qed
qed

lemma relinked_upd:
  assumes "bs = bufs s \<or> (\<exists>i p q. bs = (bufs s)[i := (bufs s ! i)\<lparr>b_prev := p, b_next := q\<rparr>])"
  shows "relinked s (s\<lparr>bufs := bs, head_prev := hp, head_next := hn\<rparr>)"
proof (rule relinkedI[OF refl])
  show "length bs = length (bufs s)" using assms by auto
  have self: "\<exists>p q. b = b\<lparr>b_prev := p, b_next := q\<rparr>" for b :: buf
    by (intro exI[of _ "b_prev b"] exI[of _ "b_next b"]) simp
  fix j assume j: "j < length bs"
  from assms show "\<exists>p q. bs ! j = (bufs s ! j)\<lparr>b_prev := p, b_next := q\<rparr>"
  proof (elim disjE exE)
    assume "bs = bufs s"
    then show ?thesis using self[of "bufs s ! j"] by simp
  next
    fix i p q assume bs: "bs = (bufs s)[i := (bufs s ! i)\<lparr>b_prev := p, b_next := q\<rparr>]"
    show ?thesis
    proof (cases "i = j")
      case True
      then have "bs ! j = (bufs s ! j)\<lparr>b_prev := p, b_next := q\<rparr>" using bs j by simp
      then show ?thesis by blast
    next
      case False
      then show ?thesis using bs self[of "bufs s ! j"] by simp
    qed
  qed
qed

lemma relinked_set: "relinked s (set_nxt p q s)" "relinked s (set_prv p q s)"
proof -
  have st: "s\<lparr>head_next := q\<rparr> = s\<lparr>bufs := bufs s, head_prev := head_prev s, head_next := q\<rparr>"
    "s\<lparr>head_prev := q\<rparr> = s\<lparr>bufs := bufs s, head_prev := q, head_next := head_next s\<rparr>"
    by simp_all
  show "relinked s (set_nxt p q s)"
  proof (cases p)
    case BHead
    then show ?thesis unfolding set_nxt_def BHead bptr.case st(1) by (intro relinked_upd) simp
  next
    case (Buf i)
    have "set_nxt p q s = s\<lparr>bufs := (bufs s)[i := (bufs s ! i)\<lparr>b_prev := b_prev (bufs s ! i), b_next := q\<rparr>],
       head_prev := head_prev s, head_next := head_next s\<rparr>"
      by (simp add: set_nxt_def Buf)
    then show ?thesis using relinked_upd by metis
  qed
  show "relinked s (set_prv p q s)"
  proof (cases p)
    case BHead
    then show ?thesis unfolding set_prv_def BHead bptr.case st(2) by (intro relinked_upd) simp
  next
    case (Buf i)
    have "set_prv p q s = s\<lparr>bufs := (bufs s)[i := (bufs s ! i)\<lparr>b_prev := q, b_next := b_next (bufs s ! i)\<rparr>],
       head_prev := head_prev s, head_next := head_next s\<rparr>"
      by (simp add: set_prv_def Buf)
    then show ?thesis using relinked_upd by metis
  qed
qed

lemma relinked_links: "relinked s (unlink i s)" "relinked s (link_front i s)"
  unfolding unlink_def link_front_def Let_def
  by (rule relinked_set relinked_trans[OF _ relinked_set(1)] relinked_trans[OF _ relinked_set(2)])+

lemma relinked_cache:
  assumes "relinked s t"
  shows "cache_of d t = cache_of d s" and "handle d t i n \<longleftrightarrow> handle d s i n"
    and "bio_ok d s \<Longrightarrow> lru t xs \<Longrightarrow> set xs = {0..<NBUF} \<Longrightarrow> bio_ok d t"
    and "bio_frame s t" and "ready s pid \<Longrightarrow> ready t pid"
proof -
  obtain bs hp hn where t: "t = s\<lparr>bufs := bs, head_prev := hp, head_next := hn\<rparr>" and len: "length bs = length (bufs s)"
    and l: "\<forall>j<length bs. \<exists>p q. bs ! j = (bufs s ! j)\<lparr>b_prev := p, b_next := q\<rparr>"
    using assms unfolding relinked_def by blast
  have bt: "bufs t = bs" "dblocks t = dblocks s" "wtrace t = wtrace s" by (simp_all add: t)
  have same: "is_id d m (bs ! j) = is_id d m (bufs s ! j)" "view_of D (bs ! j) = view_of D (bufs s ! j)"
    "owner_of (bs ! j) = owner_of (bufs s ! j)" "b_refcnt (bs ! j) = b_refcnt (bufs s ! j)"
    "b_valid (bs ! j) = b_valid (bufs s ! j)" "buf_ok d E (bs ! j) = buf_ok d E (bufs s ! j)"
    if j: "j < length (bufs s)" for j m D E
  proof -
    obtain p q where "bs ! j = (bufs s ! j)\<lparr>b_prev := p, b_next := q\<rparr>" using l j len by auto
    then show "is_id d m (bs ! j) = is_id d m (bufs s ! j)" "view_of D (bs ! j) = view_of D (bufs s ! j)"
      "owner_of (bs ! j) = owner_of (bufs s ! j)" "b_refcnt (bs ! j) = b_refcnt (bufs s ! j)"
      "b_valid (bs ! j) = b_valid (bufs s ! j)" "buf_ok d E (bs ! j) = buf_ok d E (bufs s ! j)"
      by (simp_all add: is_id_def view_of_def owner_of_def buf_ok_def)
  qed
  have sl: "slot d t m = slot d s m" for m
    unfolding slot_def bt(1) len by (rule find_cong) (simp_all add: same)
  have sm: "j < length (bufs s)" if "slot d s m = Some j" for m j using slot_Some(1)[OF that] .
  show "cache_of d t = cache_of d s"
    unfolding cache_of_def bt sl by (auto simp: same sm fun_eq_iff split: option.split)
  show "handle d t i n \<longleftrightarrow> handle d s i n"
    unfolding handle_def bt sl using same(5)[of i] sm by auto
  show "bio_ok d t" if "bio_ok d s" "lru t xs" "set xs = {0..<NBUF}"
  proof -
    have "uniq d t"
    proof (rule uniqI)
      fix i j n assume "i < length (bufs t)" "j < length (bufs t)" "is_id d n (bufs t ! i)" "is_id d n (bufs t ! j)"
      then show "i = j" using that(1) len unfolding bt bio_ok_def by (intro uniqD[of d s i j n]) (simp_all add: same)
    qed
    then show ?thesis using that len unfolding bio_ok_def bt by (auto simp: same)
  qed
  have "t = s\<lparr>procs := procs s, bufs := bs, head_prev := hp, head_next := hn, dblocks := dblocks s, wtrace := wtrace s\<rparr>"
    by (simp add: t)
  then show "bio_frame s t" unfolding bio_frame_def by blast
  show "ready s pid \<Longrightarrow> ready t pid" by (simp add: t ready_def in_proc_def ptable_ok_def)
qed

definition free_lock :: "buf \<Rightarrow> buf" where
  "free_lock b = b\<lparr>b_lock := (b_lock b)\<lparr>sl_locked := 0, sl_pid := 0\<rparr>, b_refcnt := b_refcnt b - 1\<rparr>"

lemma links_held [simp]:
  "nxt (s\<lparr>held := h\<rparr>) p = nxt s p" "prv (s\<lparr>held := h\<rparr>) p = prv s p"
  "set_nxt p q (s\<lparr>held := h\<rparr>) = (set_nxt p q s)\<lparr>held := h\<rparr>" "set_prv p q (s\<lparr>held := h\<rparr>) = (set_prv p q s)\<lparr>held := h\<rparr>"
  "held (set_nxt p q s) = held s" "held (set_prv p q s) = held s"
  by (cases p; simp add: nxt_def prv_def set_nxt_def set_prv_def)+

lemma relink_held [simp]:
  "link_front i (s\<lparr>held := h\<rparr>) = (link_front i s)\<lparr>held := h\<rparr>" "held (link_front i s) = held s"
  "unlink i (s\<lparr>held := h\<rparr>) = (unlink i s)\<lparr>held := h\<rparr>" "held (unlink i s) = held s"
  by (simp_all add: link_front_def unlink_def Let_def)

lemma brelse_eq:
  assumes rd: "ready s pid" and h: "buf_holdingsleep i s = Done True s" and i: "i < length (bufs s)"
  shows "brelse i s = Done () (
    let t = (woken (ChanBufLock i) s)\<lparr>bufs := (bufs s)[i := free_lock (bufs s ! i)]\<rparr>
    in if b_refcnt (bufs s ! i) - 1 = 0 then link_front i (unlink i t) else t)"
proof -
  have "ptable_ok s" "BufSleepLk i \<notin> held s" "BcacheLock \<notin> held s"
    using rd by (auto simp: ready_def in_proc_def)
  note nh = this
  let ?u = "buf_lock_upd i (\<lambda>l. l\<lparr>sl_locked := 0, sl_pid := 0\<rparr>) s"
  have rel: "buf_releasesleep i s = Done () (woken (ChanBufLock i) ?u)"
    unfolding buf_releasesleep_def
    by (rule releasesleep_eq) (use nh in \<open>simp_all add: buf_lock_upd_def\<close>)
  let ?t = "(woken (ChanBufLock i) s)\<lparr>bufs := (bufs s)[i := free_lock (bufs s ! i)]\<rparr>"
  have u: "upd_buf i (\<lambda>b. b\<lparr>b_refcnt := b_refcnt b - 1\<rparr>) ((woken (ChanBufLock i) ?u)\<lparr>held := insert BcacheLock (held s)\<rparr>) =
      Done () (?t\<lparr>held := insert BcacheLock (held s)\<rparr>)"
    using i by (simp add: upd_buf_def buf_lock_upd_def woken_def free_lock_def)
  have h2: "insert BcacheLock (held s) - {BcacheLock} = held s" using nh by simp
  have hw: "held (woken (ChanBufLock i) ?u) = held s" by (simp add: woken_def buf_lock_upd_def)
  have rt: "b_refcnt (bufs ?t ! i) = b_refcnt (bufs s ! i) - 1" using i by (simp add: free_lock_def)
  have ht: "held ?t = held s" by (simp add: woken_def)
  let ?th = "?t\<lparr>held := insert BcacheLock (held s)\<rparr>"
  have "brelse i s = bind (the_buf i) (\<lambda>b.
     bind (if b_refcnt b = 0 then bind (modify (unlink i)) (\<lambda>_. modify (link_front i)) else ret ()) (\<lambda>_.
     release BcacheLock)) ?th"
    unfolding brelse_def using h rel nh(3) u hw by (simp add: acquire_def bind_def)
  also have "\<dots> = Done () (if b_refcnt (bufs s ! i) - 1 = 0 then link_front i (unlink i ?t) else ?t)"
    using rt h2 ht by (simp add: the_buf_def release_def bind_def)
  finally show ?thesis by (simp add: Let_def)
qed

text \<open>The abstract cache depends on the buffers and the disk only.\<close>

lemma cache_of_cong:
  assumes "bufs t = bufs s" and "dblocks t = dblocks s" and "wtrace t = wtrace s"
  shows "cache_of d t = cache_of d s"
  unfolding cache_of_def slot_cong[OF assms(1)] assms ..

lemma bio_ok_cong:
  assumes "bufs t = bufs s" and "dblocks t = dblocks s" and "head_prev t = head_prev s" and "head_next t = head_next s"
  shows "bio_ok d t = bio_ok d s"
proof -
  have "seg t p xs q = seg s p xs q" for p xs q
    by (rule seg_cong) (simp_all only: nxt_def prv_def assms)
  then show ?thesis
    unfolding bio_ok_def uniq_def lru_def assms by simp
qed

lemma procs_upd [simp]:
  "cache_of d (s\<lparr>procs := ps\<rparr>) = cache_of d s" "handle d (s\<lparr>procs := ps\<rparr>) i n = handle d s i n"
  "bio_ok d (s\<lparr>procs := ps\<rparr>) = bio_ok d s"
proof -
  have sl: "slot d (s\<lparr>procs := ps\<rparr>) = slot d s" by (rule slot_cong) simp
  show "handle d (s\<lparr>procs := ps\<rparr>) i n = handle d s i n" by (simp add: handle_def sl)
  show "cache_of d (s\<lparr>procs := ps\<rparr>) = cache_of d s" by (rule cache_of_cong) simp_all
  show "bio_ok d (s\<lparr>procs := ps\<rparr>) = bio_ok d s" by (rule bio_ok_cong) simp_all
qed

lemma ready_woken: "ready s pid \<Longrightarrow> ready (woken c s) pid"
  using in_proc_woken[of s pid c] by (auto simp: ready_def woken_def)

lemma wp_brelse:
  assumes rd: "ready s pid" and ok: "bio_ok d s" and h: "handle d s i n"
    and own: "c_owner (cache_of d s) n = Some pid" and ref: "c_refs (cache_of d s) n \<noteq> 0"
    and clean: "c_refs (cache_of d s) n = 1 \<Longrightarrow> c_view (cache_of d s) n = c_disk (cache_of d s) n"
  shows "wp (brelse i) (\<lambda>_ t. bio_ok d t \<and> ready t pid \<and> bio_frame s t \<and>
    (\<forall>j m. handle d s j m \<longrightarrow> handle d t j m) \<and>
    cache_of d t = (cache_of d s)\<lparr>c_refs := (c_refs (cache_of d s))(n := c_refs (cache_of d s) n - 1),
      c_owner := (c_owner (cache_of d s))(n := None)\<rparr>) s"
proof -
  let ?b = "free_lock (bufs s ! i)" and ?c = "cache_of d s"
  define s1 where "s1 = s\<lparr>bufs := (bufs s)[i := ?b]\<rparr>"
  define t where "t = s1\<lparr>procs := procs (woken (ChanBufLock i) s)\<rparr>"
  have t_eq: "(woken (ChanBufLock i) s)\<lparr>bufs := (bufs s)[i := ?b]\<rparr> = t"
    by (simp add: t_def s1_def woken_def)
  note hm = handle_may_hold[OF ok h] and rc = buf_refcnt(1)[OF h]
  have vd: "b_valid (bufs s ! i) \<noteq> 0" using h by (simp add: handle_def)
  have nz: "b_refcnt (bufs s ! i) \<noteq> 0" using rc ref by auto
  have r1: "unat (b_refcnt ?b) = c_refs ?c n - 1" using refcnt_minus[OF nz] rc by (simp add: free_lock_def)
  have bo: "buf_ok d (dblocks s) (bufs s ! i)" using ok hm by (simp add: bio_ok_def may_hold_def)
  have cl: "b_data (bufs s ! i) = dblocks s n" if "b_refcnt ?b = 0"
  proof -
    have "c_refs ?c n = 1" using r1 that ref by simp
    from clean[OF this] show ?thesis using handle_data[OF h] by (simp add: cache_of_def)
  qed
  have b: "buf_ok d (dblocks s) ?b"
    using bo cl hm vd by (auto simp: buf_ok_def free_lock_def is_id_def)
  have id: "is_id d n ?b" and lk: "b_next ?b = b_next (bufs s ! i)" "b_prev ?b = b_prev (bufs s ! i)"
    using hm by (simp_all add: free_lock_def is_id_def)
  have own': "owner_of ?b = None" and vw: "view_of (dblocks s n) ?b = c_view ?c n"
    using vd handle_data[OF h] by (simp_all add: free_lock_def owner_of_def view_of_def)
  note c = cache_replace[OF ok conjunct1[OF hm] id b lk, folded s1_def]
  have ok_t: "bio_ok d t" and ct: "cache_of d t = ?c\<lparr>c_refs := (c_refs ?c)(n := c_refs ?c n - 1),
      c_owner := (c_owner ?c)(n := None)\<rparr>"
    using c unfolding t_def vw r1 own' by simp_all
  have "handle d s1 j m" if "handle d s j m" for j m
    unfolding s1_def by (rule handle_replace[OF ok conjunct1[OF hm] id that]) (use hm vd in \<open>simp_all add: free_lock_def\<close>)
  then have ht: "\<forall>j m. handle d s j m \<longrightarrow> handle d t j m" by (simp add: t_def)
  have rt: "ready t pid" using ready_bufs[OF ready_woken[OF rd]] unfolding t_eq[symmetric] .
  have ft: "bio_frame s t"
  proof -
    have "t = s\<lparr>procs := procs t, bufs := bufs t, head_prev := head_prev s, head_next := head_next s,
       dblocks := dblocks s, wtrace := wtrace s\<rparr>" by (simp add: t_def s1_def)
    then show ?thesis unfolding bio_frame_def by blast
  qed
  let ?l = "link_front i (unlink i t)"
  have rl: "relinked t ?l" by (rule relinked_trans[OF relinked_links(1) relinked_links(2)])
  obtain xs where xs: "lru t xs" "set xs = {0..<NBUF}" using ok_t by (auto simp: bio_ok_def)
  have "i \<in> set xs" using xs(2) hm ok by (simp add: bio_ok_def)
  then obtain as bs where sp: "xs = as @ i # bs" by (meson split_list)
  have d: "distinct xs" using xs(1) by (simp add: lru_def)
  have len: "length (bufs t) = NBUF" using ok_t by (simp add: bio_ok_def)
  have "lru (unlink i t) (as @ bs)" using lru_unlink xs(1) unfolding sp by blast
  then have "lru ?l (i # as @ bs)"
    by (rule lru_link_front) (use d sp hm ok len in \<open>auto simp: bio_ok_def\<close>)
  moreover have "set (i # as @ bs) = {0..<NBUF}" using xs(2) unfolding sp by auto
  ultimately have "bio_ok d ?l" by (rule relinked_cache(3)[OF rl ok_t])
  note l = this relinked_cache(1,2,4)[OF rl] relinked_cache(5)[OF rl rt]
  have fl: "bio_frame s ?l" by (rule bio_frame_trans[OF ft l(4)])
  have br: "brelse i s = Done () (if b_refcnt (bufs s ! i) - 1 = 0 then ?l else t)"
    using brelse_eq[OF rd owner_holding[OF rd h own]] hm unfolding t_eq by (simp add: Let_def)
  show ?thesis
  proof (cases "b_refcnt (bufs s ! i) - 1 = 0")
    case True
    then show ?thesis unfolding wp_def br using l fl ct ht by simp
  next
    case False
    then show ?thesis unfolding wp_def br using ok_t rt ft ct ht by simp
  qed
qed

end
