(* ===== verification/Blockio.thy ===== *)
theory Blockio
  imports Bcache
begin

text \<open>
  The interface through which the log uses the buffer cache, what a client derives from it once and
  for all (copying one block over another), and the proof that the buffer cache of \<open>Bio\<close> provides it.
\<close>

section \<open>The interface the log uses\<close>

text \<open>
  A block cache as its client sees it: \<open>st s c\<close> says that the state \<open>s\<close> shows the cache \<open>c\<close> to the process
  \<open>me\<close>, \<open>hand s i n\<close> that buffer \<open>i\<close> holds block \<open>n\<close>, and \<open>frame\<close> relates states that differ only inside
  the cache. The laws give the effect of each operation on the cache.
\<close>

locale block_cache =
  fixes st :: "'s \<Rightarrow> cache \<Rightarrow> bool" and hand :: "'s \<Rightarrow> nat \<Rightarrow> u32 \<Rightarrow> bool" and me :: int
    and frame :: "'s \<Rightarrow> 's \<Rightarrow> bool"
    and read :: "u32 \<Rightarrow> ('s, nat) kfun" and look :: "nat \<Rightarrow> ('s, buf) kfun"
    and edit :: "nat \<Rightarrow> (buf \<Rightarrow> buf) \<Rightarrow> ('s, unit) kfun"
    and writ :: "nat \<Rightarrow> ('s, unit) kfun" and rel :: "nat \<Rightarrow> ('s, unit) kfun" and unpin :: "nat \<Rightarrow> ('s, unit) kfun"
  assumes frame_refl: "frame s s"
    and frame_trans: "frame s t \<Longrightarrow> frame t u \<Longrightarrow> frame s u"
    and view_size: "st s c \<Longrightarrow> length (c_view c n) = BSIZE"
    and read_law: "st s c \<Longrightarrow> has_room c n \<Longrightarrow> c_owner c n = None \<Longrightarrow> c_refs c n + 1 < 2 ^ 32 \<Longrightarrow>
      (\<And>i t. st t (c\<lparr>c_refs := (c_refs c)(n := c_refs c n + 1), c_owner := (c_owner c)(n := Some me)\<rparr>) \<Longrightarrow>
        frame s t \<Longrightarrow> hand t i n \<Longrightarrow> (\<And>j m. hand s j m \<Longrightarrow> c_refs c m \<noteq> 0 \<Longrightarrow> hand t j m) \<Longrightarrow> Q i t) \<Longrightarrow>
      wp (read n) Q s"
    and look_law: "st s c \<Longrightarrow> hand s i n \<Longrightarrow> (\<And>b. b_data b = c_view c n \<Longrightarrow> b_blockno b = n \<Longrightarrow> R b s) \<Longrightarrow>
      wp (look i) R s"
    and edit_law: "st s c \<Longrightarrow> hand s i n \<Longrightarrow> c_refs c n \<noteq> 0 \<Longrightarrow>
      (\<And>b. length b = BSIZE \<Longrightarrow> length (f b) = BSIZE) \<Longrightarrow>
      (\<And>t. st t (c\<lparr>c_view := (c_view c)(n := f (c_view c n))\<rparr>) \<Longrightarrow> frame s t \<Longrightarrow>
        (\<And>j m. hand s j m \<Longrightarrow> hand t j m) \<Longrightarrow> P () t) \<Longrightarrow>
      wp (edit i (\<lambda>b. b\<lparr>b_data := f (b_data b)\<rparr>)) P s"
    and writ_law: "st s c \<Longrightarrow> hand s i n \<Longrightarrow> c_owner c n = Some me \<Longrightarrow>
      (\<And>t. st t (c\<lparr>c_disk := (c_disk c)(n := c_view c n), c_trace := c_trace c @ [(n, c_view c n)]\<rparr>) \<Longrightarrow> frame s t \<Longrightarrow>
        (\<And>j m. hand s j m \<Longrightarrow> hand t j m) \<Longrightarrow> P () t) \<Longrightarrow> wp (writ i) P s"
    and rel_law: "st s c \<Longrightarrow> hand s i n \<Longrightarrow> c_owner c n = Some me \<Longrightarrow> c_refs c n \<noteq> 0 \<Longrightarrow>
      (c_refs c n = 1 \<Longrightarrow> c_view c n = c_disk c n) \<Longrightarrow>
      (\<And>t. st t (c\<lparr>c_refs := (c_refs c)(n := c_refs c n - 1), c_owner := (c_owner c)(n := None)\<rparr>) \<Longrightarrow> frame s t \<Longrightarrow>
        (\<And>j m. hand s j m \<Longrightarrow> hand t j m) \<Longrightarrow> P () t) \<Longrightarrow> wp (rel i) P s"
    and unpin_law: "st s c \<Longrightarrow> hand s i n \<Longrightarrow> 1 < c_refs c n \<Longrightarrow>
      (\<And>t. st t (c\<lparr>c_refs := (c_refs c)(n := c_refs c n - 1)\<rparr>) \<Longrightarrow> frame s t \<Longrightarrow>
        (\<And>j m. hand s j m \<Longrightarrow> hand t j m) \<Longrightarrow> P () t) \<Longrightarrow> wp (unpin i) P s"
begin

text \<open>Block \<open>b\<close> is copied over block \<open>a\<close>, the target opened first, and the copy written to disk.\<close>

lemma copy_over:
  assumes c: "st s c" and room: "has_room c a" and ne: "a \<noteq> b" and own: "c_owner c a = None" "c_owner c b = None"
    and pin: "c_refs c b \<noteq> 0" and small: "c_refs c a + 1 < 2 ^ 32" "c_refs c b + 1 < 2 ^ 32"
  shows "wp (bind (read a) (\<lambda>to. bind (read b) (\<lambda>fr. bind (look fr) (\<lambda>fb.
      bind (edit to (\<lambda>x. x\<lparr>b_data := b_data fb\<rparr>)) (\<lambda>_. bind (writ to) (\<lambda>_. bind (rel fr) (\<lambda>_. rel to)))))))
    (\<lambda>_ t. frame s t \<and> st t (c\<lparr>c_view := (c_view c)(a := c_view c b), c_disk := (c_disk c)(a := c_view c b),
      c_trace := c_trace c @ [(a, c_view c b)]\<rparr>)) s"
proof -
  have vl: "length (c_view c b) = BSIZE" by (rule view_size[OF c])
  have oid: "c\<lparr>c_view := v, c_disk := w, c_trace := h, c_owner := (c_owner c)(b := None, a := None)\<rparr> =
      c\<lparr>c_view := v, c_disk := w, c_trace := h\<rparr>" for v w h
    using own by (cases c) (auto simp: fun_eq_iff)
  have "0 < c_refs c b" using pin by simp
  note side = this ne ne[symmetric] own pin small[simplified] vl[simplified] has_room_def
  show ?thesis
    unfolding wp_bind
    apply (rule read_law[OF c room own(1) small(1)])
    subgoal premises p1 for tb t1
      apply (rule read_law[OF p1(1)], simp_all add: side)
      subgoal premises p2 for fb t2
        apply (rule look_law[OF p2(1,3)])
        apply (rule edit_law[OF p2(1) p2(4)[OF p1(3)]], simp_all add: side)
        subgoal premises p3 for buf t3
          apply (rule writ_law[OF p3(3) p3(5)[OF p2(4)[OF p1(3)]]], simp_all add: side)
          subgoal premises p4 for t4
            apply (rule rel_law[OF p4(1) p4(3)[OF p3(5)[OF p2(3)]]], simp_all add: side)
            subgoal premises p5 for t5
              apply (rule rel_law[OF p5(1) p5(3)[OF p4(3)[OF p3(5)[OF p2(4)[OF p1(3)]]]]], simp_all add: side)
              subgoal premises p6 for t6
                using p6(1) frame_trans[OF p1(2) frame_trans[OF p2(2) frame_trans[OF p3(4)
                  frame_trans[OF p4(2) frame_trans[OF p5(2) p6(2)]]]]]
                by (simp add: oid)
              done
            done
          done
        done
      done
    done
qed

text \<open>Block \<open>a\<close> is copied over block \<open>b\<close>, the source opened first.\<close>

lemma copy_both_open:
  assumes c: "st s c" and room: "has_room c a" "c_refs c b \<noteq> 0 \<or> card {m. c_refs c m \<noteq> 0} + 1 < NBUF"
    and ne: "a \<noteq> b" and own: "c_owner c a = None" "c_owner c b = None"
    and small: "c_refs c a + 1 < 2 ^ 32" "c_refs c b + 1 < 2 ^ 32"
    and k: "\<And>t fr to. frame s t \<Longrightarrow> hand t fr a \<Longrightarrow> hand t to b \<Longrightarrow>
      st t (c\<lparr>c_refs := (c_refs c)(a := c_refs c a + 1, b := c_refs c b + 1),
        c_owner := (c_owner c)(a := Some me, b := Some me),
        c_view := (c_view c)(b := c_view c a), c_disk := (c_disk c)(b := c_view c a),
        c_trace := c_trace c @ [(b, c_view c a)]\<rparr>) \<Longrightarrow> wp (K fr to) Q t"
  shows "wp (bind (read a) (\<lambda>fr. bind (read b) (\<lambda>to. bind (look fr) (\<lambda>fb.
      bind (edit to (\<lambda>x. x\<lparr>b_data := b_data fb\<rparr>)) (\<lambda>_. bind (writ to) (\<lambda>_. K fr to)))))) Q s"
proof -
  have vl: "length (c_view c a) = BSIZE" by (rule view_size[OF c])
  have card: "card (insert a A) \<le> Suc (card A)" for A :: "u32 set"
    by (cases "finite A") (simp_all add: card_insert_if)
  have "{m. ((c_refs c)(a := c_refs c a + 1)) m \<noteq> 0} = insert a {m. c_refs c m \<noteq> 0}" by auto
  then have room2: "has_room (c\<lparr>c_refs := (c_refs c)(a := c_refs c a + 1), c_owner := z\<rparr>) b" for z
    using room(2) ne card[of "{m. c_refs c m \<noteq> 0}"] unfolding has_room_def by auto
  note side = ne ne[symmetric] own small[simplified] vl[simplified]
  show ?thesis
    unfolding wp_bind
    apply (rule read_law[OF c room(1) own(1) small(1)])
    subgoal premises p1 for fb t1
      apply (rule read_law[OF p1(1) room2], simp_all add: side)
      subgoal premises p2 for tb t2
        apply (rule look_law[OF p2(1) p2(4)[OF p1(3)]])
        apply simp
        apply (rule edit_law[OF p2(1,3)], simp_all add: side)
        subgoal premises p3 for buf t3
          apply (rule writ_law[OF p3(3) p3(5)[OF p2(3)]], simp_all add: side)
          subgoal premises p4 for t4
            apply (rule k[OF frame_trans[OF p1(2) frame_trans[OF p2(2) frame_trans[OF p3(4) p4(2)]]]
              p4(3)[OF p3(5)[OF p2(4)[OF p1(3)]]] p4(3)[OF p3(5)[OF p2(3)]]])
            using p4(1) by (simp_all add: side)
          done
        done
      done
    done
qed

text \<open>Then both are released, a pin on \<open>b\<close> dropped first if asked.\<close>

lemma copy_out:
  assumes c: "st s c" and room: "has_room c a" "c_refs c b \<noteq> 0 \<or> card {m. c_refs c m \<noteq> 0} + 1 < NBUF"
    and ne: "a \<noteq> b" and own: "c_owner c a = None" "c_owner c b = None"
    and pin: "drop_pin \<Longrightarrow> c_refs c b \<noteq> 0" and small: "c_refs c a + 1 < 2 ^ 32" "c_refs c b + 1 < 2 ^ 32"
    and clean: "c_view c a = c_disk c a"
  shows "wp (bind (read a) (\<lambda>fr. bind (read b) (\<lambda>to. bind (look fr) (\<lambda>fb.
      bind (edit to (\<lambda>x. x\<lparr>b_data := b_data fb\<rparr>)) (\<lambda>_. bind (writ to) (\<lambda>_.
      bind (if drop_pin then unpin to else ret ()) (\<lambda>_. bind (rel fr) (\<lambda>_. rel to))))))))
    (\<lambda>_ t. frame s t \<and> st t (c\<lparr>c_refs := (c_refs c)(b := c_refs c b - (if drop_pin then 1 else 0)),
        c_view := (c_view c)(b := c_view c a), c_disk := (c_disk c)(b := c_view c a),
        c_trace := c_trace c @ [(b, c_view c a)]\<rparr>)) s"
proof (rule copy_both_open[OF c room ne own small])
  fix t fr to
  let ?c = "c\<lparr>c_refs := (c_refs c)(a := c_refs c a + 1, b := c_refs c b + 1),
        c_owner := (c_owner c)(a := Some me, b := Some me),
        c_view := (c_view c)(b := c_view c a), c_disk := (c_disk c)(b := c_view c a),
        c_trace := c_trace c @ [(b, c_view c a)]\<rparr>"
  assume t: "frame s t" "hand t fr a" "hand t to b" "st t ?c"
  define r where "r = (if drop_pin then c_refs c b else c_refs c b + 1)"
  have r: "r \<noteq> 0" "r - 1 = c_refs c b - (if drop_pin then 1 else 0)" using pin by (auto simp: r_def)
  have oid: "c\<lparr>c_view := v, c_disk := w, c_trace := h, c_refs := x, c_owner := (c_owner c)(a := None, b := None)\<rparr> =
      c\<lparr>c_refs := x, c_view := v, c_disk := w, c_trace := h\<rparr>" for v w h x
    using own by (cases c) (auto simp: fun_eq_iff)
  have rels: "wp (bind (rel fr) (\<lambda>_. rel to)) (\<lambda>_ u. frame s u \<and> st u (c\<lparr>c_refs := (c_refs c)(b := r - 1),
        c_view := (c_view c)(b := c_view c a), c_disk := (c_disk c)(b := c_view c a),
        c_trace := c_trace c @ [(b, c_view c a)]\<rparr>)) u"
    if u: "frame s u" "hand u fr a" "hand u to b" "st u (?c\<lparr>c_refs := (c_refs c)(a := c_refs c a + 1, b := r)\<rparr>)" for u
    unfolding wp_bind
    apply (rule rel_law[OF u(4) u(2)], simp_all add: ne ne[symmetric] clean)
    subgoal premises q for w
      apply (rule rel_law[OF q(1) q(3)[OF u(3)]], simp_all add: ne ne[symmetric] r)
      subgoal premises q2 for x
        using q2(1) frame_trans[OF u(1) frame_trans[OF q(2) q2(2)]] by (simp add: oid clean)
      done
    done
  show "wp (bind (if drop_pin then unpin to else ret ()) (\<lambda>_. bind (rel fr) (\<lambda>_. rel to)))
     (\<lambda>_ t. frame s t \<and> st t (c\<lparr>c_refs := (c_refs c)(b := c_refs c b - (if drop_pin then 1 else 0)),
        c_view := (c_view c)(b := c_view c a), c_disk := (c_disk c)(b := c_view c a),
        c_trace := c_trace c @ [(b, c_view c a)]\<rparr>)) t"
  proof (cases drop_pin)
    case True
    have "wp (unpin to) (\<lambda>_. wp (bind (rel fr) (\<lambda>_. rel to)) (\<lambda>_ u. frame s u \<and> st u (c\<lparr>c_refs := (c_refs c)(b := r - 1),
        c_view := (c_view c)(b := c_view c a), c_disk := (c_disk c)(b := c_view c a),
        c_trace := c_trace c @ [(b, c_view c a)]\<rparr>))) t"
    proof (rule unpin_law[OF t(4,3)])
      show "1 < c_refs ?c b" using pin[OF True] by simp
      fix u assume u: "st u (?c\<lparr>c_refs := (c_refs ?c)(b := c_refs ?c b - 1)\<rparr>)" "frame t u" "\<And>j m. hand t j m \<Longrightarrow> hand u j m"
      show "wp (bind (rel fr) (\<lambda>_. rel to)) (\<lambda>_ u. frame s u \<and> st u (c\<lparr>c_refs := (c_refs c)(b := r - 1),
        c_view := (c_view c)(b := c_view c a), c_disk := (c_disk c)(b := c_view c a),
        c_trace := c_trace c @ [(b, c_view c a)]\<rparr>)) u"
        by (rule rels) (use u t frame_trans[OF t(1) u(2)] True in \<open>simp_all add: r_def\<close>)
    qed
    then show ?thesis using True r(2) by (simp add: wp_bind)
  next
    case False
    then have "?c\<lparr>c_refs := (c_refs c)(a := c_refs c a + 1, b := r)\<rparr> = ?c" by (cases c) (simp add: r_def)
    then have "st t (?c\<lparr>c_refs := (c_refs c)(a := c_refs c a + 1, b := r)\<rparr>)" using t(4) by metis
    from rels[OF t(1-3) this] show ?thesis unfolding r(2) wp_bind using False by (simp add: wp_ret)
  qed
qed

end

text \<open>The buffer cache of \<open>Bio\<close> provides the interface.\<close>

definition cst :: "u32 \<Rightarrow> 'x kbio_scheme \<Rightarrow> int \<Rightarrow> cache \<Rightarrow> bool" where
  "cst d s pid c \<longleftrightarrow> bio_ok d s \<and> ready s pid \<and> cache_of d s = c"

lemma bread_step:
  assumes "cst d s pid c" and "has_room c n" and "c_owner c n = None" and "c_refs c n + 1 < 2 ^ 32"
    and "\<And>i t. cst d t pid (c\<lparr>c_refs := (c_refs c)(n := c_refs c n + 1), c_owner := (c_owner c)(n := Some pid)\<rparr>) \<Longrightarrow>
      bio_frame s t \<Longrightarrow> handle d t i n \<Longrightarrow> (\<And>j m. handle d s j m \<Longrightarrow> c_refs c m \<noteq> 0 \<Longrightarrow> handle d t j m) \<Longrightarrow> Q i t"
  shows "wp (bread d n) Q s"
  by (rule wp_mono[OF wp_bread[of s pid]]) (use assms in \<open>auto simp: cst_def\<close>)

lemma the_buf_step:
  assumes "cst d s pid c" and "handle d s i n"
    and "\<And>b. b_data b = c_view c n \<Longrightarrow> b_blockno b = n \<Longrightarrow> Q b s"
  shows "wp (the_buf i) Q s"
  using assms handle_data[OF assms(2)] handle_may_hold[of d s i n]
  by (auto simp: the_buf_def wp_gets cst_def is_id_def)

lemma set_data_step:
  assumes "cst d s pid c" and "handle d s i n" and "c_refs c n \<noteq> 0"
    and "\<And>b. length b = BSIZE \<Longrightarrow> length (f b) = BSIZE"
    and "\<And>t. cst d t pid (c\<lparr>c_view := (c_view c)(n := f (c_view c n))\<rparr>) \<Longrightarrow> bio_frame s t \<Longrightarrow>
      (\<And>j m. handle d s j m \<Longrightarrow> handle d t j m) \<Longrightarrow> Q () t"
  shows "wp (upd_buf i (\<lambda>b. b\<lparr>b_data := f (b_data b)\<rparr>)) Q s"
  by (rule wp_mono[OF wp_set_data[of s pid]]) (use assms in \<open>auto simp: cst_def\<close>)

lemma bwrite_step:
  assumes "cst d s pid c" and "handle d s i n" and "c_owner c n = Some pid"
    and "\<And>t. cst d t pid (c\<lparr>c_disk := (c_disk c)(n := c_view c n), c_trace := c_trace c @ [(n, c_view c n)]\<rparr>) \<Longrightarrow>
      bio_frame s t \<Longrightarrow> (\<And>j m. handle d s j m \<Longrightarrow> handle d t j m) \<Longrightarrow> Q () t"
  shows "wp (bwrite i) Q s"
  by (rule wp_mono[OF wp_bwrite[of s pid]]) (use assms in \<open>auto simp: cst_def\<close>)

lemma bunpin_step:
  assumes "cst d s pid c" and "handle d s i n" and "1 < c_refs c n"
    and "\<And>t. cst d t pid (c\<lparr>c_refs := (c_refs c)(n := c_refs c n - 1)\<rparr>) \<Longrightarrow>
      bio_frame s t \<Longrightarrow> (\<And>j m. handle d s j m \<Longrightarrow> handle d t j m) \<Longrightarrow> Q () t"
  shows "wp (bunpin i) Q s"
  by (rule wp_mono[OF wp_bunpin[of s pid]]) (use assms in \<open>auto simp: cst_def\<close>)

lemma brelse_step:
  assumes "cst d s pid c" and "handle d s i n" and "c_owner c n = Some pid" and "c_refs c n \<noteq> 0"
    and "c_refs c n = 1 \<Longrightarrow> c_view c n = c_disk c n"
    and "\<And>t. cst d t pid (c\<lparr>c_refs := (c_refs c)(n := c_refs c n - 1), c_owner := (c_owner c)(n := None)\<rparr>) \<Longrightarrow>
      bio_frame s t \<Longrightarrow> (\<And>j m. handle d s j m \<Longrightarrow> handle d t j m) \<Longrightarrow> Q () t"
  shows "wp (brelse i) Q s"
  by (rule wp_mono[OF wp_brelse[of s pid]]) (use assms in \<open>auto simp: cst_def\<close>)

lemma view_length:
  assumes "cst d s pid c"
  shows "length (c_view c n) = BSIZE"
proof -
  have ok: "bio_ok d s" and c: "c = cache_of d s" using assms by (simp_all add: cst_def)
  show ?thesis
  proof (cases "slot d s n")
    case None
    then show ?thesis using ok unfolding c by (simp add: cache_of_def bio_ok_def)
  next
    case (Some i)
    have "i < NBUF" "is_id d n (bufs s ! i)" using slot_Some[OF Some] ok by (simp_all add: bio_ok_def)
    then show ?thesis
      using ok Some unfolding c by (auto simp: cache_of_def bio_ok_def view_of_def buf_ok_def is_id_def)
  qed
qed


interpretation bc: block_cache "\<lambda>s. cst d s pid" "handle d" pid bio_frame "bread d" the_buf upd_buf bwrite brelse bunpin
  for d pid
proof (unfold_locales, goal_cases)
  case 1 show ?case by (rule bio_frame_refl)
next
  case 2 then show ?case by (rule bio_frame_trans)
next
  case 3 then show ?case by (rule view_length)
next
  case 4 show ?case by (rule bread_step[OF 4])
next
  case 5 show ?case by (rule the_buf_step[OF 5(1,2)]) (rule 5(3))
next
  case 6 show ?case by (rule set_data_step[OF 6(1-3)]) (fact 6(4), rule 6(5))
next
  case 7 show ?case by (rule bwrite_step[OF 7(1-3)]) (rule 7(4))
next
  case 8 show ?case by (rule brelse_step[OF 8(1-4)]) (erule 8(5), rule 8(6))
next
  case 9 show ?case by (rule bunpin_step[OF 9(1-3)]) (rule 9(4))
qed

section \<open>The cache at boot\<close>

text \<open>The buffers are zero before \<open>binit\<close>, which links them all; the cache is then empty.\<close>

definition unused_buf :: "buf \<Rightarrow> bool" where
  "unused_buf b \<longleftrightarrow> b_refcnt b = 0 \<and> b_valid b = 0 \<and> b_dev b = 0 \<and> sl_locked (b_lock b) = 0"

definition only_cache :: "'x kbio_scheme \<Rightarrow> 'x kbio_scheme \<Rightarrow> bool" where
  "only_cache s t \<longleftrightarrow> (\<exists>bs hp hn. t = s\<lparr>bufs := bs, head_prev := hp, head_next := hn\<rparr>)"

lemma only_cacheI: "t = s\<lparr>bufs := bs, head_prev := hp, head_next := hn\<rparr> \<Longrightarrow> only_cache s t"
  by (auto simp: only_cache_def)

lemma only_cache_trans:
  assumes "only_cache s t" and "only_cache t u"
  shows "only_cache s u"
proof -
  obtain bs hp hn bs' hp' hn' where "t = s\<lparr>bufs := bs, head_prev := hp, head_next := hn\<rparr>"
    "u = t\<lparr>bufs := bs', head_prev := hp', head_next := hn'\<rparr>" using assms unfolding only_cache_def by blast
  then have "u = s\<lparr>bufs := bs', head_prev := hp', head_next := hn'\<rparr>" by simp
  then show ?thesis by (rule only_cacheI)
qed

definition linked_upto :: "nat \<Rightarrow> 'x kbio_scheme \<Rightarrow> bool" where
  "linked_upto k s \<longleftrightarrow> length (bufs s) = NBUF \<and> (\<exists>xs. lru s xs \<and> set xs = {0..<k}) \<and> (\<forall>j<NBUF. unused_buf (bufs s ! j))"

lemma relinked_unused:
  assumes "relinked s t" and "\<forall>j<NBUF. unused_buf (bufs s ! j)" and "length (bufs s) = NBUF"
  shows "\<forall>j<NBUF. unused_buf (bufs t ! j)" and "only_cache s t"
proof -
  obtain bs hp hn where t: "t = s\<lparr>bufs := bs, head_prev := hp, head_next := hn\<rparr>" and len: "length bs = length (bufs s)"
    and l: "\<forall>j<length bs. \<exists>p q. bs ! j = (bufs s ! j)\<lparr>b_prev := p, b_next := q\<rparr>"
    using assms(1) unfolding relinked_def by blast
  show "only_cache s t" by (rule only_cacheI[OF t])
  show "\<forall>j<NBUF. unused_buf (bufs t ! j)"
  proof (intro allI impI)
    fix j assume j: "j < NBUF"
    then obtain p q where "bs ! j = (bufs s ! j)\<lparr>b_prev := p, b_next := q\<rparr>" using l len assms(3) by auto
    then show "unused_buf (bufs t ! j)" using assms(2) j by (simp add: t unused_buf_def)
  qed
qed

lemma binit_links_buf:
  assumes "linked_upto k s" and "k < NBUF"
  shows "linked_upto (Suc k) (link_front k (buf_lock_upd k (\<lambda>_. initsleeplock nm) s))"
    and "only_cache s (link_front k (buf_lock_upd k (\<lambda>_. initsleeplock nm) s))"
proof -
  let ?s = "buf_lock_upd k (\<lambda>_. initsleeplock nm) s"
  obtain xs where xs: "lru s xs" "set xs = {0..<k}" and len: "length (bufs s) = NBUF" and un: "\<forall>j<NBUF. unused_buf (bufs s ! j)"
    using assms(1) unfolding linked_upto_def by blast
  have l: "lru ?s xs" using xs(1) unfolding lru_def buf_lock_upd_def by (simp add: seg_upd)
  have len': "length (bufs ?s) = NBUF" using len by (simp add: buf_lock_upd_def)
  have un': "\<forall>j<NBUF. unused_buf (bufs ?s ! j)"
  proof (intro allI impI)
    fix j assume "j < NBUF"
    then have "unused_buf (bufs s ! j)" using un by blast
    then show "unused_buf (bufs ?s ! j)"
      using len assms(2) by (cases "j = k") (simp_all add: buf_lock_upd_def unused_buf_def initsleeplock_def)
  qed
  have "lru (link_front k ?s) (k # xs)" by (rule lru_link_front[OF l]) (use xs len' assms(2) in simp_all)
  moreover have "set (k # xs) = {0..<Suc k}" using xs(2) by auto
  moreover note relinked_unused[OF relinked_links(2) un' len']
  ultimately show "linked_upto (Suc k) (link_front k ?s)" using len' unfolding linked_upto_def by auto
  have "only_cache s ?s"
    by (rule only_cacheI[where bs = "(bufs s)[k := (bufs s ! k)\<lparr>b_lock := initsleeplock nm\<rparr>]" and hp = "head_prev s" and hn = "head_next s"])
      (simp add: buf_lock_upd_def)
  then show "only_cache s (link_front k ?s)"
    by (rule only_cache_trans) (rule relinked_unused(2)[OF relinked_links(2) un' len'])
qed

lemma binit_links:
  assumes "length (bufs s) = NBUF" and "\<forall>j<NBUF. unused_buf (bufs s ! j)"
  shows "\<exists>t. binit s = Done () t \<and> linked_upto NBUF t \<and> only_cache s t"
proof -
  let ?s = "set_nxt BHead BHead (set_prv BHead BHead s)"
  let ?f = "\<lambda>i. bind (modify (buf_lock_upd i (\<lambda>_. initsleeplock ''buffer''))) (\<lambda>_. modify (link_front i))"
  have s0: "linked_upto 0 ?s"
    using assms by (simp add: linked_upto_def lru_def set_nxt_def set_prv_def) (simp add: nxt_def prv_def)
  have s1: "only_cache s ?s"
    by (rule only_cacheI[where bs = "bufs s" and hp = BHead and hn = BHead]) (simp add: set_nxt_def set_prv_def)
  have "wp (foreach [0..<NBUF] ?f) (\<lambda>_ t. linked_upto (length [0..<NBUF]) t \<and> only_cache s t) ?s"
  proof (rule wp_foreach)
    show "linked_upto 0 ?s \<and> only_cache s ?s" using s0 s1 by blast
  next
    fix k t assume k: "k < length [0..<NBUF]" and I: "linked_upto k t \<and> only_cache s t"
    then have "k < NBUF" "[0..<NBUF] ! k = k" by simp_all
    then show "wp (?f ([0..<NBUF] ! k)) (\<lambda>_ t. linked_upto (Suc k) t \<and> only_cache s t) t"
      using binit_links_buf[of k t "''buffer''"] only_cache_trans I by (auto simp: wp_rules simp del: NBUF_def)
  qed
  then show ?thesis unfolding binit_def by (auto simp: wp_iff simp del: NBUF_def)
qed

lemma linked_empty:
  assumes "linked_upto NBUF t" and "d \<noteq> 0" and "\<forall>n. length (dblocks t n) = BSIZE"
  shows "bio_ok d t" and "cache_of d t = \<lparr>c_view = dblocks t, c_disk = dblocks t, c_trace = wtrace t, c_refs = \<lambda>_. 0, c_owner = \<lambda>_. None\<rparr>"
proof -
  have len: "length (bufs t) = NBUF" and un: "\<forall>j<NBUF. unused_buf (bufs t ! j)" using assms(1) unfolding linked_upto_def by blast+
  then have no: "\<not> is_id d n (bufs t ! j)" if "j < NBUF" for n j using assms(2) that by (auto simp: unused_buf_def is_id_def)
  have "slot d t n = None" for n
    unfolding slot_def using no len by (auto simp: find_None_iff)
  then show "cache_of d t = \<lparr>c_view = dblocks t, c_disk = dblocks t, c_trace = wtrace t, c_refs = \<lambda>_. 0, c_owner = \<lambda>_. None\<rparr>"
    by (simp add: cache_of_def)
  have "uniq d t" using no len unfolding uniq_def by auto
  moreover have "buf_ok d (dblocks t) (bufs t ! j)" if "j < NBUF" for j
    using un that assms(2) by (simp add: buf_ok_def unused_buf_def)
  ultimately show "bio_ok d t" using assms(1,3) len unfolding bio_ok_def linked_upto_def by blast
qed

section \<open>Properties\<close>

definition zero_buf :: buf where
  "zero_buf = \<lparr>b_valid = 0, b_disk = 0, b_dev = 0, b_blockno = 0, b_lock = initsleeplock [], b_refcnt = 0,
     b_prev = BHead, b_next = BHead, b_data = replicate 1024 0\<rparr>"

definition bio_demo :: kbio where
  "bio_demo = kproc.extend proc_demo \<lparr>bufs = replicate NBUF zero_buf, head_prev = BHead, head_next = BHead,
     dblocks = \<lambda>n. replicate 1024 (if n = 7 then 9 else 0), wtrace = []\<rparr>"

text \<open>C20: \<open>binit\<close>, called on zeroed buffers, returns and leaves every buffer on the list exactly once. The
  cache is then empty: no block is referenced or locked, and each block reads as it is on disk.\<close>

theorem binit_empty_cache:
  assumes "length (bufs s) = NBUF" and "\<forall>j<NBUF. unused_buf (bufs s ! j)" and "\<forall>n. length (dblocks s n) = BSIZE" and "d \<noteq> 0"
  shows "\<exists>t. binit s = Done () t \<and> bio_ok d t \<and> dblocks t = dblocks s \<and> cache_of d t =
    \<lparr>c_view = dblocks s, c_disk = dblocks s, c_trace = wtrace s, c_refs = \<lambda>_. 0, c_owner = \<lambda>_. None\<rparr>"
proof -
  obtain t where t: "binit s = Done () t" "linked_upto NBUF t" "only_cache s t" using binit_links[OF assms(1,2)] by blast
  have e: "dblocks t = dblocks s" "wtrace t = wtrace s" using t(3) unfolding only_cache_def by auto
  have "\<forall>n. length (dblocks t n) = BSIZE" using assms(3) e by simp
  then show ?thesis using linked_empty[OF t(2) assms(4)] t(1) e by auto
qed

lemma bio_demo_fields:
  "length (bufs bio_demo) = NBUF" "\<forall>j<NBUF. unused_buf (bufs bio_demo ! j)" "dblocks bio_demo = (\<lambda>n. replicate 1024 (if n = 7 then 9 else 0))"
  "held bio_demo = {}" "procs bio_demo = procs proc_demo" "curproc bio_demo = Some 0" "ready bio_demo 1"
proof -
  show b: "length (bufs bio_demo) = NBUF" "dblocks bio_demo = (\<lambda>n. replicate 1024 (if n = 7 then 9 else 0))"
    "held bio_demo = {}" "procs bio_demo = procs proc_demo" "curproc bio_demo = Some 0"
    by (simp_all add: bio_demo_def kproc.defs proc_demo_def)
  have "unused_buf zero_buf" by (simp add: unused_buf_def zero_buf_def initsleeplock_def)
  then show "\<forall>j<NBUF. unused_buf (bufs bio_demo ! j)" by (auto simp: bio_demo_def kproc.defs simp del: NBUF_def)
  show "ready bio_demo 1" by (simp add: ready_def in_proc_def ptable_ok_def b) (simp add: proc_demo_def)
qed

theorem binit_empty_cache_witness:
  "\<exists>t. binit bio_demo = Done () t \<and> bio_ok 1 t \<and> c_view (cache_of 1 t) 7 = replicate 1024 9 \<and> c_refs (cache_of 1 t) 7 = 0"
proof -
  have "\<forall>n. length (dblocks bio_demo n) = BSIZE" "(1 :: u32) \<noteq> 0" by (simp_all add: bio_demo_fields)
  from binit_empty_cache[OF bio_demo_fields(1,2) this] show ?thesis by (auto simp: bio_demo_fields(3))
qed

text \<open>C21: \<open>bread\<close> gives the caller a locked buffer with the current contents of the block it asked for,
  whichever buffer had to be recycled for it: in the abstract cache it takes a reference and the lock
  on that block and changes nothing else. It needs the block to be unlocked, and cached or a buffer
  to be free.\<close>

theorem bread_gives_block:
  assumes "ready s pid" and "bio_ok d s" and "has_room (cache_of d s) n"
    and "c_owner (cache_of d s) n = None" and "c_refs (cache_of d s) n + 1 < 2 ^ 32"
  shows "\<exists>i t. bread d n s = Done i t \<and> bio_ok d t \<and> b_blockno (bufs t ! i) = n \<and> b_data (bufs t ! i) = c_view (cache_of d s) n \<and>
    cache_of d t = (cache_of d s)\<lparr>c_refs := (c_refs (cache_of d s))(n := c_refs (cache_of d s) n + 1),
      c_owner := (c_owner (cache_of d s))(n := Some pid)\<rparr>"
proof -
  obtain i t where t: "bread d n s = Done i t" "bio_ok d t" "handle d t i n"
    "cache_of d t = (cache_of d s)\<lparr>c_refs := (c_refs (cache_of d s))(n := c_refs (cache_of d s) n + 1),
      c_owner := (c_owner (cache_of d s))(n := Some pid)\<rparr>"
    using wp_bread[OF assms] unfolding wp_iff by blast
  have "b_blockno (bufs t ! i) = n" using handle_may_hold[OF t(2,3)] by (simp add: is_id_def)
  moreover have "b_data (bufs t ! i) = c_view (cache_of d s) n" using handle_data[OF t(3)] t(4) by simp
  ultimately show ?thesis using t by blast
qed

lemma bio_booted: "\<exists>t. binit bio_demo = Done () t \<and> linked_upto NBUF t \<and> ready t 1 \<and> dblocks t = dblocks bio_demo \<and> held t = {}"
proof -
  obtain t where t: "binit bio_demo = Done () t" "linked_upto NBUF t" "only_cache bio_demo t"
    using binit_links[OF bio_demo_fields(1,2)] by blast
  then have "ready t 1" using bio_demo_fields(7) by (auto simp: only_cache_def ready_def in_proc_def ptable_ok_def simp del: NBUF_def)
  then show ?thesis using t bio_demo_fields(4) by (auto simp: only_cache_def simp del: NBUF_def)
qed

theorem bread_gives_block_witness:
  "\<exists>t i u. binit bio_demo = Done () t \<and> bread 1 7 t = Done i u \<and> b_data (bufs u ! i) = replicate 1024 9 \<and>
    c_owner (cache_of 1 u) 7 = Some 1"
proof -
  obtain t where t: "binit bio_demo = Done () t" "linked_upto NBUF t" "ready t 1" "dblocks t = dblocks bio_demo"
    using bio_booted by blast
  have "(1 :: u32) \<noteq> 0" "\<forall>n. length (dblocks t n) = BSIZE" by (simp_all add: t(4) bio_demo_fields)
  note e = linked_empty[OF t(2) this]
  have "has_room (cache_of 1 t) 7" "c_owner (cache_of 1 t) 7 = None" "c_refs (cache_of 1 t) 7 + 1 < 2 ^ 32"
    by (simp_all add: e(2) has_room_def)
  from bread_gives_block[OF t(3) e(1) this] show ?thesis using t(1) by (auto simp: e(2) t(4) bio_demo_fields)
qed

lemma bread_full:
  assumes "lru s xs" and "set xs = {0..<NBUF}" and "BcacheLock \<notin> held s"
    and "\<forall>i<NBUF. b_refcnt (bufs s ! i) \<noteq> 0" and "\<forall>i<NBUF. \<not> (b_dev (bufs s ! i) = d \<and> b_blockno (bufs s ! i) = n)"
  shows "bread d n s = Panic ''bget: no buffers''"
proof -
  let ?s = "s\<lparr>held := insert BcacheLock (held s)\<rparr>"
  have sg: "seg s BHead xs BHead" and nx: "length xs \<le> NBUF"
    using assms(1,2) by (auto simp: lru_def distinct_card[symmetric])
  have seg_h: "seg ?s BHead xs BHead"
    using sg seg_cong[of BHead xs ?s s BHead] by (simp add: nxt_def prv_def split: bptr.splits)
  have "find (\<lambda>i. is_id d n (bufs ?s ! i)) xs = None" "find (\<lambda>i. b_refcnt (bufs ?s ! i) = 0) (rev xs) = None"
    using assms(2,4,5) by (auto simp: find_None_iff is_id_def simp del: NBUF_def)
  then have "bget_find NBUF (nxt ?s BHead) d n ?s = Done None ?s" "bget_lru NBUF (prv ?s BHead) ?s = Done None ?s"
    using bget_find_eq[OF seg_h nx, of d n] bget_lru_eq[OF seg_h nx] by simp_all
  moreover have "acquire BcacheLock s = Done () ?s" using assms(3) by (simp add: acquire_def)
  ultimately have "bget d n s = Panic ''bget: no buffers''" unfolding bget_def by simp
  then show ?thesis unfolding bread_def by (rule bind_Panic)
qed

text \<open>C22: when every buffer is referenced and none holds the block, \<open>bread\<close> panics; it never hands out a
  buffer in use for another block.\<close>

theorem bread_panics_when_full:
  assumes "lru s xs" and "set xs = {0..<NBUF}" and "BcacheLock \<notin> held s"
    and "\<forall>i<NBUF. b_refcnt (bufs s ! i) \<noteq> 0" and "\<forall>i<NBUF. \<not> (b_dev (bufs s ! i) = d \<and> b_blockno (bufs s ! i) = n)"
  shows "bread d n s = Panic ''bget: no buffers''"
  by (rule bread_full[OF assms])

theorem bread_panics_when_full_witness:
  "\<exists>t. binit bio_demo = Done () t \<and>
    bread 1 7 (t\<lparr>bufs := map (\<lambda>b. b\<lparr>b_refcnt := 1\<rparr>) (bufs t)\<rparr>) = Panic ''bget: no buffers''"
proof -
  obtain t where t: "binit bio_demo = Done () t" "linked_upto NBUF t" "held t = {}" using bio_booted by blast
  obtain xs where xs: "lru t xs" "set xs = {0..<NBUF}" and len: "length (bufs t) = NBUF"
    and un: "\<forall>j<NBUF. unused_buf (bufs t ! j)" using t(2) unfolding linked_upto_def by blast
  let ?u = "t\<lparr>bufs := map (\<lambda>b. b\<lparr>b_refcnt := 1\<rparr>) (bufs t)\<rparr>"
  have "seg ?u BHead xs BHead = seg t BHead xs BHead"
    by (rule seg_cong) (use xs len in \<open>auto simp: nxt_def prv_def simp del: NBUF_def split: bptr.splits\<close>)
  then have "lru ?u xs" using xs(1) by (simp add: lru_def)
  moreover have "\<forall>i<NBUF. b_refcnt (bufs ?u ! i) \<noteq> 0" using len by (simp del: NBUF_def)
  moreover have "\<forall>i<NBUF. \<not> (b_dev (bufs ?u ! i) = 1 \<and> b_blockno (bufs ?u ! i) = 7)"
    using len un by (simp add: unused_buf_def del: NBUF_def)
  ultimately have "bread 1 7 ?u = Panic ''bget: no buffers''"
    using xs(2) t(3) by (intro bread_panics_when_full) simp_all
  then show ?thesis using t(1) by blast
qed

end
