(* ===== verification/Log.thy ===== *)
theory Log
  imports Blockio
begin

text \<open>
  The write-ahead log, \<^verbatim>\<open>kernel/log.c\<close>. The header block of the log holds the number of logged
  blocks and their numbers as little-endian 32-bit words. A system call brackets its updates with
  \<open>begin_op\<close> and \<open>end_op\<close> and records every block it changes with \<open>log_write\<close>; the last \<open>end_op\<close>
  commits. A wait of \<open>begin_op\<close> or \<open>sys_sync\<close> is the outcome \<open>Sleep\<close>; the loop is entered again
  after the wake-up.
\<close>

section \<open>Words in a block\<close>

definition get32 :: "bytes \<Rightarrow> nat \<Rightarrow> u32" where
  "get32 bs off = of_nat (le_val (take 4 (drop off bs)))"

definition put32 :: "bytes \<Rightarrow> nat \<Rightarrow> u32 \<Rightarrow> bytes" where
  "put32 bs off v = take off bs @ le_bytes 4 (unat v) @ drop (off + 4) bs"

section \<open>log.c\<close>

record klog = kbio +
  l_start :: u32
  l_outstanding :: int
  l_committing :: int
  l_dev :: u32
  l_ncommit :: int
  l_n :: int
  l_block :: "u32 list"

definition sizeof_logheader :: nat where
  "sizeof_logheader = 4 + 4 * LOGBLOCKS"

text \<open>Writing \<open>log.lh.block[i]\<close>; an index past the array is undefined in C, and an error here.\<close>

definition set_block :: "nat \<Rightarrow> u32 \<Rightarrow> ('x klog_scheme, unit) kfun" where
  "set_block i v = (\<lambda>s. if LOGBLOCKS \<le> i then Panic ''log.lh.block: index out of range''
     else Done () (s\<lparr>l_block := (l_block s)[i := v]\<rparr>))"

text \<open>The message \<open>install_trans\<close> prints while recovering is left out.\<close>

definition install_block :: "bool \<Rightarrow> nat \<Rightarrow> ('x klog_scheme, unit) kfun" where
  "install_block recovering tail =
     bind (gets (\<lambda>s. (l_dev s, l_start s, l_block s ! tail))) (\<lambda>(dev, start, dst).
     bind (bread dev (start + of_nat tail + 1)) (\<lambda>lbuf.
     bind (bread dev dst) (\<lambda>dbuf.
     bind (the_buf lbuf) (\<lambda>lb.
     bind (upd_buf dbuf (\<lambda>b. b\<lparr>b_data := b_data lb\<rparr>)) (\<lambda>_.
     bind (bwrite dbuf) (\<lambda>_.
     bind (if \<not> recovering then bunpin dbuf else ret ()) (\<lambda>_.
     bind (brelse lbuf) (\<lambda>_.
     brelse dbuf))))))))"

definition install_trans :: "bool \<Rightarrow> ('x klog_scheme, unit) kfun" where
  "install_trans recovering =
     bind (gets l_n) (\<lambda>n. foreach [0..<nat n] (install_block recovering))"

definition read_head :: "('x klog_scheme, unit) kfun" where
  "read_head =
     bind (gets (\<lambda>s. (l_dev s, l_start s))) (\<lambda>(dev, start).
     bind (bread dev start) (\<lambda>buf.
     bind (the_buf buf) (\<lambda>b.
     bind (modify (\<lambda>s. s\<lparr>l_n := sint (get32 (b_data b) 0)\<rparr>)) (\<lambda>_.
     bind (gets l_n) (\<lambda>n.
     bind (foreach [0..<nat n] (\<lambda>i. set_block i (get32 (b_data b) (4 + 4 * i)))) (\<lambda>_.
     brelse buf))))))"

fun put_blocks :: "u32 list \<Rightarrow> nat \<Rightarrow> nat \<Rightarrow> bytes \<Rightarrow> bytes" where
  "put_blocks bl 0 i hb = hb"
| "put_blocks bl (Suc k) i hb = put_blocks bl k (Suc i) (put32 hb (4 + 4 * i) (bl ! i))"

definition write_head :: "('x klog_scheme, unit) kfun" where
  "write_head =
     bind (gets (\<lambda>s. (l_dev s, l_start s))) (\<lambda>(dev, start).
     bind (bread dev start) (\<lambda>buf.
     bind (gets (\<lambda>s. (l_n s, l_block s))) (\<lambda>(n, bl).
     bind (upd_buf buf (\<lambda>b. b\<lparr>b_data := put32 (b_data b) 0 (of_int n)\<rparr>)) (\<lambda>_.
     bind (upd_buf buf (\<lambda>b. b\<lparr>b_data := put_blocks bl (nat n) 0 (b_data b)\<rparr>)) (\<lambda>_.
     bind (bwrite buf) (\<lambda>_.
     brelse buf))))))"

definition recover_from_log :: "('x klog_scheme, unit) kfun" where
  "recover_from_log =
     bind read_head (\<lambda>_.
     bind (install_trans True) (\<lambda>_.
     bind (modify (\<lambda>s. s\<lparr>l_n := 0\<rparr>)) (\<lambda>_.
     write_head)))"

definition initlog :: "u32 \<Rightarrow> u32 \<Rightarrow> ('x klog_scheme, unit) kfun" where
  "initlog dev logstart =
     (if BSIZE \<le> sizeof_logheader then panic ''initlog: too big logheader'' else
      bind (modify (\<lambda>s. s\<lparr>l_start := logstart, l_dev := dev\<rparr>)) (\<lambda>_.
      recover_from_log))"

definition begin_op :: "('x klog_scheme, unit) kfun" where
  "begin_op =
     bind (acquire LogLock) (\<lambda>_.
     bind (gets (\<lambda>s. (l_committing s, l_n s, l_outstanding s))) (\<lambda>(committing, n, outstanding).
     if committing \<noteq> 0 then sleep ChanLog LogLock
     else if n + (outstanding + 1) * int MAXOPBLOCKS > int LOGBLOCKS then sleep ChanLog LogLock
     else
       bind (modify (\<lambda>s. s\<lparr>l_outstanding := l_outstanding s + 1\<rparr>)) (\<lambda>_.
       release LogLock)))"

definition write_log_block :: "nat \<Rightarrow> ('x klog_scheme, unit) kfun" where
  "write_log_block tail =
     bind (gets (\<lambda>s. (l_dev s, l_start s, l_block s ! tail))) (\<lambda>(dev, start, src).
     bind (bread dev (start + of_nat tail + 1)) (\<lambda>to.
     bind (bread dev src) (\<lambda>from.
     bind (the_buf from) (\<lambda>fb.
     bind (upd_buf to (\<lambda>b. b\<lparr>b_data := b_data fb\<rparr>)) (\<lambda>_.
     bind (bwrite to) (\<lambda>_.
     bind (brelse from) (\<lambda>_.
     brelse to)))))))"

definition write_log :: "('x klog_scheme, unit) kfun" where
  "write_log = bind (gets l_n) (\<lambda>n. foreach [0..<nat n] write_log_block)"

definition commit :: "('x klog_scheme, unit) kfun" where
  "commit =
     bind (gets l_n) (\<lambda>n.
     if 0 < n then
       bind write_log (\<lambda>_.
       bind write_head (\<lambda>_.
       bind (install_trans False) (\<lambda>_.
       bind (modify (\<lambda>s. s\<lparr>l_n := 0\<rparr>)) (\<lambda>_.
       write_head))))
     else ret ())"

definition end_op :: "('x klog_scheme, unit) kfun" where
  "end_op =
     bind (acquire LogLock) (\<lambda>_.
     bind (modify (\<lambda>s. s\<lparr>l_outstanding := l_outstanding s - 1\<rparr>)) (\<lambda>_.
     bind (gets (\<lambda>s. (l_committing s, l_outstanding s))) (\<lambda>(committing, outstanding).
     if committing \<noteq> 0 then panic ''log.committing'' else
     bind (if outstanding = 0
           then bind (modify (\<lambda>s. s\<lparr>l_committing := 1\<rparr>)) (\<lambda>_. ret True)
           else bind (wakeup (Some ChanLog)) (\<lambda>_. ret False)) (\<lambda>do_commit.
     bind (release LogLock) (\<lambda>_.
     if do_commit then
       bind commit (\<lambda>_.
       bind (acquire LogLock) (\<lambda>_.
       bind (modify (\<lambda>s. s\<lparr>l_committing := 0, l_ncommit := l_ncommit s + 1\<rparr>)) (\<lambda>_.
       bind (wakeup (Some ChanLog)) (\<lambda>_.
       release LogLock))))
     else ret ())))))"

text \<open>The search of \<open>log_write\<close>: the index of the block in the log, or the log's length.\<close>

fun find_logged :: "u32 list \<Rightarrow> nat \<Rightarrow> nat \<Rightarrow> u32 \<Rightarrow> nat" where
  "find_logged bl 0 i b = i"
| "find_logged bl (Suc k) i b = (if bl ! i = b then i else find_logged bl k (Suc i) b)"

definition log_write :: "nat \<Rightarrow> ('x klog_scheme, unit) kfun" where
  "log_write b =
     bind (acquire LogLock) (\<lambda>_.
     bind (gets (\<lambda>s. (l_n s, l_outstanding s, l_block s))) (\<lambda>(n, outstanding, bl).
     if int LOGBLOCKS \<le> n then panic ''too big a transaction''
     else if outstanding < 1 then panic ''log_write outside of trans''
     else
       bind (the_buf b) (\<lambda>buf.
       let i = find_logged bl (nat n) 0 (b_blockno buf) in
       bind (set_block i (b_blockno buf)) (\<lambda>_.
       bind (if int i = n
             then bind (bpin b) (\<lambda>_. modify (\<lambda>s. s\<lparr>l_n := l_n s + 1\<rparr>))
             else ret ()) (\<lambda>_.
       release LogLock)))))"

definition sys_sync_wait :: "int \<Rightarrow> ('x klog_scheme, u64) kfun" where
  "sys_sync_wait n =
     bind (gets l_ncommit) (\<lambda>ncommit.
     if ncommit < n then sleep ChanLog LogLock
     else bind (release LogLock) (\<lambda>_. ret 0))"

definition sys_sync :: "('x klog_scheme, u64) kfun" where
  "sys_sync =
     bind (acquire LogLock) (\<lambda>_.
     bind (gets (\<lambda>s. (l_committing s, l_outstanding s, l_ncommit s))) (\<lambda>(committing, outstanding, ncommit).
     if committing \<noteq> 0 \<or> 0 < outstanding then sys_sync_wait (ncommit + 1)
     else bind (release LogLock) (\<lambda>_. ret 0)))"

text \<open>A state just after boot, with an empty log, on which properties are instantiated.\<close>

definition log_demo :: klog where
  "log_demo = kbio.extend bio_demo \<lparr>l_start = 2, l_outstanding = 0, l_committing = 0, l_dev = 1, l_ncommit = 0, l_n = 0,
     l_block = replicate 30 0\<rparr>"


end
