(* ===== verification/Recovery.thy ===== *)
theory Recovery
  imports Log
begin

text \<open>
  What the log is for: a transaction is atomic with respect to crashes. The first part is about
  sequences of block writes only: recovery from the disk as any prefix of a commit's writes leaves
  it gives either all the blocks of the transaction or none. The second part runs the code of \<open>Log\<close> on
  the cache interface and shows that these are the writes \<open>commit\<close> and \<open>recover_from_log\<close> issue.
\<close>

section \<open>Words in a block\<close>

lemma length_put32 [simp]: "off + 4 \<le> length bs \<Longrightarrow> length (put32 bs off v) = length bs"
  by (simp add: put32_def)

lemma get32_put32_same [simp]:
  assumes "off + 4 \<le> length bs"
  shows "get32 (put32 bs off v) off = v"
proof -
  have "unat v mod 256 ^ 4 = unat v" using unat_u32[of v] by (simp add: mod_less)
  then show ?thesis using assms by (simp add: get32_def put32_def)
qed

lemma get32_put32_other:
  assumes "off + 4 \<le> length bs" and "off + 4 \<le> o' \<or> o' + 4 \<le> off"
  shows "get32 (put32 bs off v) o' = get32 bs o'"
proof -
  have "take 4 (drop o' (put32 bs off v)) = take 4 (drop o' bs)"
    using assms(2)
  proof
    assume "off + 4 \<le> o'"
    then show ?thesis using assms(1) by (simp add: put32_def)
  next
    assume "o' + 4 \<le> off"
    moreover from this have "4 \<le> off - o'" by linarith
    ultimately show ?thesis using assms(1) by (simp add: put32_def drop_take min_def)
  qed
  then show ?thesis by (simp add: get32_def)
qed

lemma length_put_blocks [simp]: "4 + 4 * (i + k) \<le> length hb \<Longrightarrow> length (put_blocks bl k i hb) = length hb"
  by (induction bl k i hb rule: put_blocks.induct) simp_all

lemma get32_put_blocks_before:
  "4 + 4 * (i + k) \<le> length hb \<Longrightarrow> off + 4 \<le> 4 + 4 * i \<Longrightarrow> get32 (put_blocks bl k i hb) off = get32 hb off"
  by (induction bl k i hb rule: put_blocks.induct) (simp_all add: get32_put32_other)

lemma get32_put_blocks:
  "4 + 4 * (i + k) \<le> length hb \<Longrightarrow> i \<le> j \<Longrightarrow> j < i + k \<Longrightarrow> get32 (put_blocks bl k i hb) (4 + 4 * j) = bl ! j"
proof (induction bl k i hb rule: put_blocks.induct)
  case (1 bl i hb)
  then show ?case by simp
next
  case (2 bl k i hb)
  then show ?case
    by (cases "i = j") (simp_all add: get32_put_blocks_before)
qed

section \<open>The log header\<close>

text \<open>The header block as \<open>write_head\<close> leaves it, and its two fields as \<open>read_head\<close> reads them.\<close>

definition head_bytes :: "u32 list \<Rightarrow> nat \<Rightarrow> bytes \<Rightarrow> bytes" where
  "head_bytes bl n hb = put_blocks bl n 0 (put32 hb 0 (of_nat n))"

definition head_n :: "bytes \<Rightarrow> nat" where
  "head_n hb = nat (sint (get32 hb 0))"

definition head_block :: "bytes \<Rightarrow> nat \<Rightarrow> u32" where
  "head_block hb i = get32 hb (4 + 4 * i)"

lemma sint_of_nat_small: "n < 2 ^ 31 \<Longrightarrow> sint (of_nat n :: u32) = int n"
  by (simp add: signed_of_nat signed_take_bit_int_eq_self)

lemma length_head_bytes [simp]: "length hb = BSIZE \<Longrightarrow> n \<le> LOGBLOCKS \<Longrightarrow> length (head_bytes bl n hb) = BSIZE"
  by (simp add: head_bytes_def)

lemma head_n_bytes: "length hb = BSIZE \<Longrightarrow> n \<le> LOGBLOCKS \<Longrightarrow> head_n (head_bytes bl n hb) = n"
  by (simp add: head_bytes_def head_n_def get32_put_blocks_before sint_of_nat_small)

lemma head_block_bytes: "length hb = BSIZE \<Longrightarrow> n \<le> LOGBLOCKS \<Longrightarrow> i < n \<Longrightarrow> head_block (head_bytes bl n hb) i = bl ! i"
  by (simp add: head_bytes_def head_block_def get32_put_blocks)

section \<open>Sequences of block writes\<close>

definition apply_writes :: "(u32 \<Rightarrow> bytes) \<Rightarrow> (u32 \<times> bytes) list \<Rightarrow> (u32 \<Rightarrow> bytes)" where
  "apply_writes D ws = fold (\<lambda>(n, b) D. D(n := b)) ws D"

lemma apply_writes_Nil [simp]: "apply_writes D [] = D"
  and apply_writes_single: "apply_writes D [(n, b)] = D(n := b)"
  and apply_writes_Cons: "apply_writes D ((n, b) # ws) = apply_writes (D(n := b)) ws"
  and apply_writes_append: "apply_writes D (ws @ vs) = apply_writes (apply_writes D ws) vs"
  by (simp_all add: apply_writes_def)

lemma apply_writes_other: "n \<notin> fst ` set ws \<Longrightarrow> apply_writes D ws n = D n"
  by (induction ws arbitrary: D) (auto simp: apply_writes_def)

lemma apply_writes_map:
  assumes "distinct (map f xs)" and "x \<in> set xs"
  shows "apply_writes D (map (\<lambda>x. (f x, g x)) xs) (f x) = g x"
  using assms
proof (induction xs rule: rev_induct)
  case Nil
  then show ?case by simp
next
  case (snoc y ys)
  then show ?case by (auto simp: apply_writes_append apply_writes_single image_iff)
qed

lemma apply_writes_upto: "apply_writes D (map h [0..<Suc k]) = (apply_writes D (map h [0..<k]))(fst (h k) := snd (h k))"
  by (simp add: apply_writes_append apply_writes_def split_beta)

section \<open>The writes of a commit and of a recovery\<close>

abbreviation log_block :: "u32 \<Rightarrow> nat \<Rightarrow> u32" where
  "log_block start i \<equiv> start + of_nat i + 1"

definition log_region :: "u32 \<Rightarrow> u32 set" where
  "log_region start = insert start {log_block start i | i. i < LOGBLOCKS}"

definition log_writes :: "u32 \<Rightarrow> u32 list \<Rightarrow> nat \<Rightarrow> (u32 \<Rightarrow> bytes) \<Rightarrow> (u32 \<times> bytes) list" where
  "log_writes start bl n v = map (\<lambda>i. (log_block start i, v (bl ! i))) [0..<n]"

definition install_writes :: "u32 list \<Rightarrow> nat \<Rightarrow> (u32 \<Rightarrow> bytes) \<Rightarrow> (u32 \<times> bytes) list" where
  "install_writes bl n v = map (\<lambda>i. (bl ! i, v (bl ! i))) [0..<n]"

definition commit_writes :: "u32 \<Rightarrow> u32 list \<Rightarrow> nat \<Rightarrow> (u32 \<Rightarrow> bytes) \<Rightarrow> bytes \<Rightarrow> (u32 \<times> bytes) list" where
  "commit_writes start bl n v hb =
     log_writes start bl n v @ [(start, head_bytes bl n hb)] @
     install_writes bl n v @ [(start, head_bytes bl 0 (head_bytes bl n hb))]"

definition recover_writes :: "u32 \<Rightarrow> (u32 \<Rightarrow> bytes) \<Rightarrow> (u32 \<times> bytes) list" where
  "recover_writes start D =
     map (\<lambda>i. (head_block (D start) i, D (log_block start i))) [0..<head_n (D start)] @
     [(start, head_bytes [] 0 (D start))]"

text \<open>A disk whose log header recovery may trust.\<close>

definition log_valid :: "u32 \<Rightarrow> (u32 \<Rightarrow> bytes) \<Rightarrow> bool" where
  "log_valid start D \<longleftrightarrow> length (D start) = BSIZE \<and> head_n (D start) \<le> LOGBLOCKS \<and>
     distinct (map (head_block (D start)) [0..<head_n (D start)]) \<and>
     (\<forall>i<head_n (D start). head_block (D start) i \<notin> log_region start)"

lemma log_block_inj: "i < 2 ^ 32 \<Longrightarrow> j < 2 ^ 32 \<Longrightarrow> log_block start i = log_block start j \<longleftrightarrow> i = j"
  by (auto simp: word_of_nat_eq_iff take_bit_nat_eq_self)

lemma log_block_neq_start: "i < LOGBLOCKS \<Longrightarrow> log_block start i \<noteq> start"
proof
  assume i: "i < LOGBLOCKS" and "log_block start i = start"
  then have "(of_nat (Suc i) :: u32) = of_nat 0" by (simp add: algebra_simps)
  then show False using i unfolding word_of_nat_eq_iff by (simp add: take_bit_nat_eq_self)
qed

lemma log_block_in_region [simp]: "i < LOGBLOCKS \<Longrightarrow> log_block start i \<in> log_region start"
  and start_in_region [simp]: "start \<in> log_region start"
  by (auto simp: log_region_def)

lemma distinct_log_blocks: "n \<le> LOGBLOCKS \<Longrightarrow> distinct (map (log_block start) [0..<n])"
  by (auto simp: distinct_map inj_on_def word_of_nat_eq_iff take_bit_nat_eq_self)

text \<open>Recovery puts every block the header names in place and touches nothing else but the log.\<close>

lemma recovered_logged:
  assumes "log_valid start D" and "i < head_n (D start)"
  shows "apply_writes D (recover_writes start D) (head_block (D start) i) = D (log_block start i)"
proof -
  have "head_block (D start) i \<noteq> start" using assms start_in_region by (auto simp: log_valid_def)
  then show ?thesis
    using assms apply_writes_map[of "head_block (D start)" "[0..<head_n (D start)]" i D "\<lambda>i. D (log_block start i)"]
    unfolding recover_writes_def apply_writes_append apply_writes_single log_valid_def by simp
qed

lemma recovered_other:
  assumes "m \<noteq> start" and "\<And>i. i < head_n (D start) \<Longrightarrow> head_block (D start) i \<noteq> m"
  shows "apply_writes D (recover_writes start D) m = D m"
proof (rule apply_writes_other)
  have "\<forall>i<head_n (D start). head_block (D start) i \<noteq> m" using assms(2) by blast
  then show "m \<notin> fst ` set (recover_writes start D)"
    using assms(1) by (auto simp: recover_writes_def)
qed

section \<open>Crashes\<close>

text \<open>The transactions the log accepts.\<close>

definition logged_ok :: "u32 \<Rightarrow> u32 list \<Rightarrow> nat \<Rightarrow> bool" where
  "logged_ok start bl n \<longleftrightarrow> n \<le> LOGBLOCKS \<and> n \<le> length bl \<and> distinct (take n bl) \<and> set (take n bl) \<inter> log_region start = {}"

lemma logged_nth: "logged_ok start bl n \<Longrightarrow> i < n \<Longrightarrow> bl ! i \<notin> log_region start"
proof -
  assume "logged_ok start bl n" and "i < n"
  then have "bl ! i \<in> set (take n bl)" "set (take n bl) \<inter> log_region start = {}"
    by (auto simp: logged_ok_def in_set_conv_nth)
  then show ?thesis by auto
qed

lemma map_nth_take: "n \<le> length bl \<Longrightarrow> map ((!) bl) [0..<n] = take n bl"
  by (rule nth_equalityI) auto

lemma install_writes_in:
  assumes ok: "logged_ok start bl n" and j: "j \<le> n" and m: "m \<in> set (take j bl)"
  shows "apply_writes D (install_writes bl j v) m = v m"
proof -
  obtain i where i: "i < j" "m = bl ! i" using m by (auto simp: in_set_conv_nth)
  have "distinct (take j (take n bl))" using ok unfolding logged_ok_def by (meson distinct_take)
  then have "distinct (map ((!) bl) [0..<j])"
    using ok j by (simp add: map_nth_take logged_ok_def min_absorb1)
  then show ?thesis
    using apply_writes_map[of "(!) bl" "[0..<j]" i D "\<lambda>i. v (bl ! i)"] i by (simp add: install_writes_def)
qed

lemma install_writes_out:
  assumes "j \<le> length bl" and "m \<notin> set (take j bl)"
  shows "apply_writes D (install_writes bl j v) m = D m"
  using assms by (intro apply_writes_other) (auto simp: install_writes_def in_set_conv_nth)

lemma log_writes_in: "n \<le> LOGBLOCKS \<Longrightarrow> i < n \<Longrightarrow> apply_writes D (log_writes start bl n v) (log_block start i) = v (bl ! i)"
  using apply_writes_map[of "log_block start" "[0..<n]" i D "\<lambda>i. v (bl ! i)"] distinct_log_blocks[of n start]
  by (simp add: log_writes_def)

lemma log_writes_out: "n \<le> LOGBLOCKS \<Longrightarrow> m \<notin> log_region start \<or> m = start \<Longrightarrow> apply_writes D (log_writes start bl n v) m = D m"
  by (intro apply_writes_other) (use log_block_neq_start log_block_in_region in \<open>fastforce simp: log_writes_def\<close>)

lemma take_log_writes: "take k (log_writes start bl n v) = log_writes start bl (min k n) v"
  and take_install_writes: "take k (install_writes bl n v) = install_writes bl (min k n) v"
  by (simp_all add: log_writes_def install_writes_def take_map min_def)

text \<open>The disk after the first \<open>k\<close> writes of a commit, by the phase the commit has reached.\<close>

lemma commit_prefix_log:
  assumes "k \<le> n"
  shows "take k (commit_writes start bl n v hb) = log_writes start bl k v"
  using assms by (simp add: commit_writes_def take_log_writes) (simp add: log_writes_def)

lemma commit_prefix_install:
  assumes "j \<le> n"
  shows "take (n + 1 + j) (commit_writes start bl n v hb) =
    log_writes start bl n v @ [(start, head_bytes bl n hb)] @ install_writes bl j v"
  using assms by (simp add: commit_writes_def log_writes_def install_writes_def take_map)

text \<open>
  The disk a crash leaves is one recovery may trust, and recovery from it gives the blocks outside
  the log either as they were before the commit or as the transaction made them, by whether the
  header with the count had been written.
\<close>

definition committed :: "u32 list \<Rightarrow> nat \<Rightarrow> (u32 \<Rightarrow> bytes) \<Rightarrow> (u32 \<Rightarrow> bytes) \<Rightarrow> (u32 \<Rightarrow> bytes)" where
  "committed bl n v D = (\<lambda>m. if m \<in> set (take n bl) then v m else D m)"

definition recovers_to :: "u32 \<Rightarrow> (u32 \<Rightarrow> bytes) \<Rightarrow> (u32 \<Rightarrow> bytes) \<Rightarrow> bool" where
  "recovers_to start D E \<longleftrightarrow> log_valid start D \<and>
     (\<forall>m. m \<notin> log_region start \<longrightarrow> apply_writes D (recover_writes start D) m = E m)"

lemma recovers_empty:
  assumes "length (D start) = BSIZE" and "head_n (D start) = 0" and "\<And>m. m \<notin> log_region start \<Longrightarrow> D m = E m"
  shows "recovers_to start D E"
  using assms recovered_other[of _ start D] start_in_region[of start] unfolding recovers_to_def log_valid_def by fastforce

lemma recovers_full:
  assumes ok: "logged_ok start bl n" and hd: "D start = head_bytes bl n hb" "length hb = BSIZE"
    and blk: "\<And>i. i < n \<Longrightarrow> D (log_block start i) = v (bl ! i)"
    and out: "\<And>m. m \<notin> log_region start \<Longrightarrow> m \<notin> set (take n bl) \<Longrightarrow> D m = E m"
  shows "recovers_to start D (committed bl n v E)"
proof -
  have n: "n \<le> LOGBLOCKS" "n \<le> length bl" "distinct (take n bl)" using ok by (simp_all add: logged_ok_def)
  have h: "head_n (D start) = n" "head_block (D start) i = bl ! i" if "i < n" for i
    using n hd that by (simp_all add: head_n_bytes head_block_bytes)
  have hn: "head_n (D start) = n" using n hd by (simp add: head_n_bytes)
  have "map (head_block (D start)) [0..<n] = take n bl"
    using h n(2) by (auto simp: list_eq_iff_nth_eq)
  then have valid: "log_valid start D"
    using n hd logged_nth[OF ok] h unfolding log_valid_def hn by simp
  moreover have "apply_writes D (recover_writes start D) m = committed bl n v E m" if m: "m \<notin> log_region start" for m
  proof (cases "m \<in> set (take n bl)")
    case True
    then obtain i where i: "i < n" "m = bl ! i" by (auto simp: in_set_conv_nth)
    then show ?thesis
      using recovered_logged[OF valid, of i] h(2)[of i] blk[of i] True hn by (simp add: committed_def)
  next
    case False
    have "m \<noteq> start" using m start_in_region by metis
    moreover have "head_block (D start) i \<noteq> m" if "i < head_n (D start)" for i
      using that h(2)[of i] hn False n(2) by (auto simp: in_set_conv_nth)
    ultimately show ?thesis using recovered_other[of m start D] out[OF m False] False by (simp add: committed_def)
  qed
  ultimately show ?thesis by (simp add: recovers_to_def)
qed

lemma crash_in_commit:
  fixes v :: "u32 \<Rightarrow> bytes"
  assumes ok: "logged_ok start bl n" and D: "length (D start) = BSIZE" "head_n (D start) = 0"
    and k: "k \<le> 2 * n + 2"
  defines "D' \<equiv> apply_writes D (take k (commit_writes start bl n v (D start)))"
  shows "recovers_to start D' (if k \<le> n then D else committed bl n v D)"
proof -
  have n: "n \<le> LOGBLOCKS" "n \<le> length bl" using ok by (simp_all add: logged_ok_def)
  have no_start: "start \<notin> set (take j bl)" if "j \<le> n" for j
    using ok that start_in_region[of start] set_take_subset_set_take[OF that, of bl] by (auto simp: logged_ok_def)
  have no_log: "log_block start i \<notin> set (take j bl)" if "j \<le> n" "i < n" for i j
    using ok that log_block_in_region[of i start] set_take_subset_set_take[OF that(1), of bl] n
    by (auto simp: logged_ok_def)
  have "k \<le> n \<or> (\<exists>j. j \<le> n \<and> k = n + 1 + j) \<or> k = 2 * n + 2" using k by presburger
  then consider "k \<le> n" | j where "j \<le> n" "k = n + 1 + j" | "k = 2 * n + 2" by blast
  then show ?thesis
  proof cases
    case 1
    have "D' = apply_writes D (log_writes start bl k v)" unfolding D'_def commit_prefix_log[OF 1] ..
    then have "D' start = D start" "\<And>m. m \<notin> log_region start \<Longrightarrow> D' m = D m"
      using 1 n by (simp_all add: log_writes_out)
    then show ?thesis using 1 D by (simp add: recovers_empty)
  next
    case (2 j)
    define F where "F = (apply_writes D (log_writes start bl n v))(start := head_bytes bl n (D start))"
    have D': "D' = apply_writes F (install_writes bl j v)"
      unfolding D'_def 2(2) commit_prefix_install[OF 2(1)] F_def by (simp add: apply_writes_append apply_writes_Cons)
    have j: "j \<le> length bl" using 2 n by simp
    have "recovers_to start D' (committed bl n v D)"
    proof (rule recovers_full[OF ok _ D(1)])
      show "D' start = head_bytes bl n (D start)"
        using no_start[OF 2(1)] j by (simp add: D' install_writes_out F_def)
      show "D' (log_block start i) = v (bl ! i)" if "i < n" for i
        using no_log[OF 2(1) that] j that n log_block_neq_start[of i start]
        by (simp add: D' install_writes_out F_def log_writes_in)
      show "D' m = D m" if "m \<notin> log_region start" "m \<notin> set (take n bl)" for m
        using that j n start_in_region[of start] set_take_subset_set_take[OF 2(1), of bl]
        by (subst D', subst install_writes_out) (auto simp: F_def log_writes_out)
    qed
    then show ?thesis using 2 by simp
  next
    case 3
    define F where "F = (apply_writes D (log_writes start bl n v))(start := head_bytes bl n (D start))"
    have "take k (commit_writes start bl n v (D start)) = commit_writes start bl n v (D start)"
      unfolding 3 by (simp add: commit_writes_def log_writes_def install_writes_def)
    then have D': "D' = (apply_writes F (install_writes bl n v))(start := head_bytes bl 0 (head_bytes bl n (D start)))"
      unfolding D'_def F_def by (simp add: commit_writes_def apply_writes_append apply_writes_Cons)
    have "recovers_to start D' (committed bl n v D)"
    proof (rule recovers_empty)
      show "length (D' start) = BSIZE" "head_n (D' start) = 0" using D n by (simp_all add: D' head_n_bytes)
      show "D' m = committed bl n v D m" if m: "m \<notin> log_region start" for m
      proof (cases "m \<in> set (take n bl)")
        case True
        then show ?thesis using install_writes_in[OF ok order.refl True, of F v] no_start[of n]
          by (auto simp: D' committed_def)
      next
        case False
        have "m \<noteq> start" using m start_in_region by metis
        then show ?thesis using False m n by (simp add: D' committed_def install_writes_out F_def log_writes_out)
      qed
    qed
    then show ?thesis using 3 by simp
  qed
qed

text \<open>Recovery may itself be cut short: what it has done so far does not change what a later one gives.\<close>

lemma crash_in_recovery:
  assumes valid: "log_valid start D" and k: "k \<le> head_n (D start) + 1"
  defines "D' \<equiv> apply_writes D (take k (recover_writes start D))"
  shows "recovers_to start D' (apply_writes D (recover_writes start D))"
proof -
  let ?n = "head_n (D start)" and ?h = "head_block (D start)"
  have out: "?h i \<notin> log_region start" if "i < ?n" for i using valid that by (simp add: log_valid_def)
  show ?thesis
  proof (cases "k \<le> ?n")
    case True
    note kn = True
    let ?ws = "map (\<lambda>i. (?h i, D (log_block start i))) [0..<k]"
    have D': "D' = apply_writes D ?ws"
      using True unfolding D'_def recover_writes_def by (simp add: take_map)
    have reg: "D' m = D m" if "m \<in> log_region start" for m
      unfolding D' using True out that by (intro apply_writes_other) auto
    have start: "D' start = D start" by (rule reg) simp
    have valid': "log_valid start D'" using valid unfolding log_valid_def start .
    have "apply_writes D' (recover_writes start D') m = apply_writes D (recover_writes start D) m"
      if m: "m \<notin> log_region start" for m
    proof (cases "\<exists>i<?n. ?h i = m")
      case True
      then obtain i where i: "i < ?n" "?h i = m" by blast
      then have "i < LOGBLOCKS" using valid unfolding log_valid_def by linarith
      then have "D' (log_block start i) = D (log_block start i)" using reg log_block_in_region by blast
      then show ?thesis
        using recovered_logged[OF valid i(1)] recovered_logged[OF valid', of i] i unfolding start by simp
    next
      case False
      have "m \<noteq> start" using m start_in_region by metis
      moreover have "?h i \<noteq> m" if "i < k" for i
      proof -
        have "i < ?n" using that kn by linarith
        then show ?thesis using False by blast
      qed
      then have "\<forall>i<k. ?h i \<noteq> m" by blast
      then have "D' m = D m" unfolding D' by (intro apply_writes_other) auto
      ultimately show ?thesis using False recovered_other[of m start D] recovered_other[of m start D'] start by force
    qed
    then show ?thesis using valid' by (simp add: recovers_to_def)
  next
    case False
    have len: "length (D start) = BSIZE" using valid by (simp add: log_valid_def)
    have "k = ?n + 1" using k False by simp
    then have D': "D' = apply_writes D (recover_writes start D)" by (simp add: D'_def recover_writes_def)
    have "D' start = head_bytes [] 0 (D start)"
      unfolding D' recover_writes_def apply_writes_append apply_writes_single by simp
    then show ?thesis unfolding D'[symmetric] using len by (intro recovers_empty) (simp_all add: head_n_bytes)
  qed
qed

end
