(* ===== verification/Crash.thy ===== *)
theory Crash
  imports Recovery
begin

text \<open>
  The code of \<open>Log\<close> on the cache interface: the block writes \<open>commit\<close> and \<open>recover_from_log\<close> issue are
  those of \<open>Recovery\<close>, so a transaction survives a crash as a whole or not at all.
\<close>

section \<open>Frames\<close>

lemma wp_unit_iff: "wp f Q s \<longleftrightarrow> (\<exists>t. f s = Done () t \<and> Q () t)"
  by (auto simp: wp_iff)

lemma bio_frame_log:
  assumes "bio_frame s (t :: 'x klog_scheme)"
  shows "l_start t = l_start s" and "l_dev t = l_dev s" and "l_n t = l_n s" and "l_block t = l_block s"
    and "l_outstanding t = l_outstanding s" and "l_committing t = l_committing s" and "held t = held s"
  using assms by (auto simp: bio_frame_def)

lemma cst_cong:
  fixes s :: "'x kbio_scheme"
  assumes "bufs t = bufs s" "dblocks t = dblocks s" "wtrace t = wtrace s" "head_prev t = head_prev s" "head_next t = head_next s"
    "procs t = procs s" "curproc t = curproc s" "held t = held s"
  shows "cst d t pid c = cst d s pid c"
  unfolding cst_def ready_def in_proc_def ptable_ok_def cache_of_cong[OF assms(1-3)] bio_ok_cong[OF assms(1,2,4,5)] assms(6-8) ..

lemma cst_log_cong:
  fixes s :: "'x klog_scheme"
  shows "cst d (s\<lparr>l_n := n\<rparr>) pid c = cst d s pid c" and "cst d (s\<lparr>l_block := bl\<rparr>) pid c = cst d s pid c"
    and "cst d (s\<lparr>l_start := a, l_dev := e\<rparr>) pid c = cst d s pid c"
  by (rule cst_cong; simp)+

definition writes_cache :: "cache \<Rightarrow> (u32 \<times> bytes) list \<Rightarrow> cache" where
  "writes_cache c ws = c\<lparr>c_view := apply_writes (c_view c) ws, c_disk := apply_writes (c_disk c) ws, c_trace := c_trace c @ ws\<rparr>"

lemma writes_cache_simps [simp]:
  "c_view (writes_cache c ws) = apply_writes (c_view c) ws" "c_disk (writes_cache c ws) = apply_writes (c_disk c) ws"
  "c_trace (writes_cache c ws) = c_trace c @ ws" "c_refs (writes_cache c ws) = c_refs c" "c_owner (writes_cache c ws) = c_owner c"
  by (simp_all add: writes_cache_def)

lemma writes_cache_Nil [simp]: "writes_cache c [] = c"
  by (simp add: writes_cache_def)

lemma writes_cache_append: "writes_cache (writes_cache c ws) vs = writes_cache c (ws @ vs)"
  by (simp add: writes_cache_def apply_writes_append)

lemma writes_cache_refs: "(writes_cache c ws)\<lparr>c_refs := r\<rparr> = writes_cache (c\<lparr>c_refs := r\<rparr>) ws"
  by (simp add: writes_cache_def)

lemma writes_cache_one: "c\<lparr>c_view := (c_view c)(a := b), c_disk := (c_disk c)(a := b), c_trace := c_trace c @ [(a, b)]\<rparr> = writes_cache c [(a, b)]"
  by (simp add: writes_cache_def apply_writes_single)

lemma has_room_writes [simp]: "has_room (writes_cache c ws) n = has_room c n"
  by (simp add: has_room_def)

section \<open>The loops\<close>

text \<open>The state in which the log commits: the logged blocks are pinned, nobody holds a buffer the
  commit needs, and the cache has a buffer to spare.\<close>

definition can_commit :: "u32 \<Rightarrow> u32 list \<Rightarrow> nat \<Rightarrow> cache \<Rightarrow> bool" where
  "can_commit start bl n c \<longleftrightarrow> logged_ok start bl n \<and> card {m. c_refs c m \<noteq> 0} < NBUF \<and> (\<forall>m. c_refs c m + 1 < 2 ^ 32) \<and>
     (\<forall>m\<in>log_region start \<union> set (take n bl). c_owner c m = None) \<and> (\<forall>m\<in>set (take n bl). c_refs c m \<noteq> 0)"

lemma can_commitD:
  assumes "can_commit start bl n c" and "i < n"
  shows "has_room c (log_block start i)" "log_block start i \<noteq> bl ! i" "c_owner c (log_block start i) = None"
    "c_owner c (bl ! i) = None" "c_refs c (bl ! i) \<noteq> 0" "c_refs c m + 1 < 2 ^ 32"
proof -
  have ok: "logged_ok start bl n" using assms by (simp add: can_commit_def)
  then have n: "n \<le> LOGBLOCKS" "n \<le> length bl" by (simp_all add: logged_ok_def)
  have i: "i < LOGBLOCKS" using n(1) assms(2) by linarith
  have mem: "bl ! i \<in> set (take n bl)" using n(2) assms(2) by (auto simp: in_set_conv_nth)
  show "has_room c (log_block start i)" using assms(1) by (simp add: can_commit_def has_room_def)
  show "log_block start i \<noteq> bl ! i" using logged_nth[OF ok assms(2)] log_block_in_region[OF i] by metis
  show "c_owner c (log_block start i) = None" using assms(1) log_block_in_region[OF i] unfolding can_commit_def by blast
  show "c_owner c (bl ! i) = None" "c_refs c (bl ! i) \<noteq> 0" using assms(1) mem unfolding can_commit_def by blast+
  show "c_refs c m + 1 < 2 ^ 32" using assms(1) unfolding can_commit_def by blast
qed

lemma can_commit_writes [simp]: "can_commit start bl n (writes_cache c ws) = can_commit start bl n c"
  by (simp add: can_commit_def)

lemma write_log_block_step:
  fixes s :: "'x klog_scheme"
  assumes c: "cst (l_dev s) s pid c" and ok: "can_commit (l_start s) (l_block s) n c" and i: "i < n"
  shows "wp (write_log_block i) (\<lambda>_ t. bio_frame s t \<and>
    cst (l_dev s) t pid (writes_cache c [(log_block (l_start s) i, c_view c (l_block s ! i))])) s"
  unfolding write_log_block_def wp_bind[of "gets _"] wp_gets prod.case writes_cache_one[symmetric]
  by (rule bc.copy_over[OF c]) (rule can_commitD[OF ok i])+

lemma write_log_step:
  fixes s :: "'x klog_scheme"
  assumes c: "cst (l_dev s) s pid c" and ok: "can_commit (l_start s) (l_block s) (nat (l_n s)) c"
  shows "wp write_log (\<lambda>_ t. bio_frame s t \<and>
    cst (l_dev s) t pid (writes_cache c (log_writes (l_start s) (l_block s) (nat (l_n s)) (c_view c)))) s"
proof -
  let ?n = "nat (l_n s)"
  let ?ws = "\<lambda>k. log_writes (l_start s) (l_block s) k (c_view c)"
  have n: "?n \<le> LOGBLOCKS" using ok by (simp add: can_commit_def logged_ok_def)
  have "wp (foreach [0..<?n] write_log_block) (\<lambda>_ t. bio_frame s t \<and> cst (l_dev s) t pid (writes_cache c (?ws (length [0..<?n])))) s"
  proof (rule wp_foreach)
    show "bio_frame s s \<and> cst (l_dev s) s pid (writes_cache c (?ws 0))" using c by (simp add: log_writes_def)
  next
    fix k t assume k: "k < length [0..<?n]" and I: "bio_frame s t \<and> cst (l_dev s) t pid (writes_cache c (?ws k))"
    have fr: "bio_frame s t" using I by blast
    note f = bio_frame_log[OF fr]
    have kn: "k < ?n" using k by simp
    have "l_block s ! k \<notin> log_region (l_start s)" using ok kn logged_nth unfolding can_commit_def by blast
    then have v: "apply_writes (c_view c) (?ws k) (l_block s ! k) = c_view c (l_block s ! k)"
      using kn n by (intro log_writes_out) auto
    have "wp (write_log_block k) (\<lambda>_ u. bio_frame t u \<and>
        cst (l_dev s) u pid (writes_cache (writes_cache c (?ws k)) [(log_block (l_start s) k, c_view c (l_block s ! k))])) t"
      using write_log_block_step[of t pid "writes_cache c (?ws k)" ?n k] I ok kn v unfolding f by simp
    moreover have "?ws (Suc k) = ?ws k @ [(log_block (l_start s) k, c_view c (l_block s ! k))]" by (simp add: log_writes_def)
    ultimately show "wp (write_log_block ([0..<?n] ! k)) (\<lambda>_ t. bio_frame s t \<and> cst (l_dev s) t pid (writes_cache c (?ws (Suc k)))) t"
      using kn bio_frame_trans[OF fr] unfolding writes_cache_append by (auto elim: wp_mono)
  qed
  then show ?thesis unfolding write_log_def wp_bind wp_gets by simp
qed

text \<open>Installing, with or without dropping the pins: the cache after \<open>k\<close> blocks.\<close>

definition unpinned :: "bool \<Rightarrow> u32 set \<Rightarrow> (u32 \<Rightarrow> nat) \<Rightarrow> u32 \<Rightarrow> nat" where
  "unpinned dp B r = (\<lambda>m. if dp \<and> m \<in> B then r m - 1 else r m)"

definition installs :: "u32 \<Rightarrow> u32 list \<Rightarrow> nat \<Rightarrow> (u32 \<Rightarrow> bytes) \<Rightarrow> (u32 \<times> bytes) list" where
  "installs start bl k w = map (\<lambda>i. (bl ! i, w (log_block start i))) [0..<k]"

definition installed :: "u32 \<Rightarrow> u32 list \<Rightarrow> bool \<Rightarrow> nat \<Rightarrow> cache \<Rightarrow> cache" where
  "installed start bl dp k c =
     writes_cache (c\<lparr>c_refs := unpinned dp (set (take k bl)) (c_refs c)\<rparr>) (installs start bl k (c_view c))"

definition can_install :: "u32 \<Rightarrow> u32 list \<Rightarrow> nat \<Rightarrow> bool \<Rightarrow> cache \<Rightarrow> bool" where
  "can_install start bl n dp c \<longleftrightarrow> logged_ok start bl n \<and> finite {m. c_refs c m \<noteq> 0} \<and> card {m. c_refs c m \<noteq> 0} < NBUF \<and>
     (\<forall>m. c_refs c m + 1 < 2 ^ 32) \<and> (\<forall>m\<in>log_region start \<union> set (take n bl). c_owner c m = None) \<and>
     (\<forall>i<n. c_view c (log_block start i) = c_disk c (log_block start i)) \<and>
     (if dp then \<forall>m\<in>set (take n bl). c_refs c m \<noteq> 0 else card {m. c_refs c m \<noteq> 0} + 1 < NBUF)"

lemma installs_region: "logged_ok start bl n \<Longrightarrow> k \<le> n \<Longrightarrow> m \<in> log_region start \<Longrightarrow> apply_writes D (installs start bl k w) m = D m"
  by (rule apply_writes_other) (use logged_nth in \<open>fastforce simp: installs_def\<close>)

lemma can_install_step:
  assumes ok: "can_install start bl n dp c" and k: "k < n"
  defines "C \<equiv> installed start bl dp k c" and "a \<equiv> log_block start k" and "b \<equiv> bl ! k"
  shows "has_room C a" "c_refs C b \<noteq> 0 \<or> card {m. c_refs C m \<noteq> 0} + 1 < NBUF" "a \<noteq> b" "c_owner C a = None" "c_owner C b = None"
    "dp \<Longrightarrow> c_refs C b \<noteq> 0" "c_refs C a + 1 < 2 ^ 32" "c_refs C b + 1 < 2 ^ 32" "c_view C a = c_disk C a"
    "C\<lparr>c_refs := (c_refs C)(b := c_refs C b - (if dp then 1 else 0)), c_view := (c_view C)(b := c_view C a),
       c_disk := (c_disk C)(b := c_view C a), c_trace := c_trace C @ [(b, c_view C a)]\<rparr> = installed start bl dp (Suc k) c"
proof -
  have lg: "logged_ok start bl n" using ok by (simp add: can_install_def)
  then have n: "n \<le> LOGBLOCKS" "n \<le> length bl" "distinct (take n bl)" by (simp_all add: logged_ok_def)
  have kl: "k < LOGBLOCKS" "k < length bl" using n k by simp_all
  have areg: "a \<in> log_region start" using log_block_in_region[OF kl(1)] by (simp add: a_def)
  have breg: "b \<notin> log_region start" using logged_nth[OF lg k] by (simp add: b_def)
  show ab: "a \<noteq> b" using areg breg by metis
  have bmem: "b \<in> set (take n bl)" using kl(2) k n by (auto simp: b_def in_set_conv_nth)
  have bnew: "b \<notin> set (take k bl)"
  proof
    assume "b \<in> set (take k bl)"
    then obtain j where j: "j < k" "bl ! j = bl ! k" by (auto simp: b_def in_set_conv_nth)
    then show False using n k nth_eq_iff_index_eq[OF n(3), of j k] by simp
  qed
  have refs: "c_refs C = unpinned dp (set (take k bl)) (c_refs c)" and own: "c_owner C = c_owner c"
    and view: "c_view C = apply_writes (c_view c) (installs start bl k (c_view c))"
    and disk: "c_disk C = apply_writes (c_disk c) (installs start bl k (c_view c))"
    by (simp_all add: C_def installed_def)
  have fin: "finite {m. c_refs c m \<noteq> 0}" and card: "card {m. c_refs c m \<noteq> 0} < NBUF" using ok unfolding can_install_def by blast+
  have sub: "{m. c_refs C m \<noteq> 0} \<subseteq> {m. c_refs c m \<noteq> 0}" unfolding refs by (auto simp: unpinned_def)
  have le: "card {m. c_refs C m \<noteq> 0} \<le> card {m. c_refs c m \<noteq> 0}" by (rule card_mono[OF fin sub])
  show "has_room C a" using le card unfolding has_room_def by linarith
  have rb: "c_refs C b = c_refs c b" using bnew by (simp add: refs unpinned_def)
  have small: "c_refs c m + 1 < 2 ^ 32" for m using ok unfolding can_install_def by blast
  have "c_refs C m \<le> c_refs c m" for m by (simp add: refs unpinned_def)
  then show "c_refs C a + 1 < 2 ^ 32" using small[of a] by (meson add_le_mono1 order.strict_trans1)
  show "c_refs C b + 1 < 2 ^ 32" unfolding rb by (rule small)
  show "dp \<Longrightarrow> c_refs C b \<noteq> 0" using ok bmem unfolding rb can_install_def by simp
  show "c_refs C b \<noteq> 0 \<or> card {m. c_refs C m \<noteq> 0} + 1 < NBUF"
    using ok bmem le unfolding rb can_install_def by (cases dp) auto
  show "c_owner C a = None" "c_owner C b = None" using ok areg bmem unfolding own can_install_def by blast+
  have va: "c_view C a = c_view c a" "c_disk C a = c_disk c a"
    unfolding view disk using installs_region[OF lg _ areg] k by simp_all
  have "c_view c a = c_disk c a" using ok k unfolding can_install_def a_def by blast
  then show "c_view C a = c_disk C a" by (simp add: va)
  have "installs start bl (Suc k) (c_view c) = installs start bl k (c_view c) @ [(b, c_view c a)]"
    by (simp add: installs_def a_def b_def)
  moreover have "unpinned dp (set (take (Suc k) bl)) (c_refs c) =
      (unpinned dp (set (take k bl)) (c_refs c))(b := c_refs c b - (if dp then 1 else 0))"
    using kl(2) bnew by (auto simp: unpinned_def fun_eq_iff take_Suc_conv_app_nth b_def)
  ultimately show "C\<lparr>c_refs := (c_refs C)(b := c_refs C b - (if dp then 1 else 0)), c_view := (c_view C)(b := c_view C a),
       c_disk := (c_disk C)(b := c_view C a), c_trace := c_trace C @ [(b, c_view C a)]\<rparr> = installed start bl dp (Suc k) c"
    unfolding va rb by (simp add: C_def installed_def writes_cache_def apply_writes_append apply_writes_single)
qed

lemma install_trans_step:
  fixes s :: "'x klog_scheme"
  assumes c: "cst (l_dev s) s pid c" and ok: "can_install (l_start s) (l_block s) (nat (l_n s)) (\<not> rc) c"
  shows "wp (install_trans rc) (\<lambda>_ t. bio_frame s t \<and>
    cst (l_dev s) t pid (installed (l_start s) (l_block s) (\<not> rc) (nat (l_n s)) c)) s"
proof -
  let ?n = "nat (l_n s)"
  let ?I = "\<lambda>k. installed (l_start s) (l_block s) (\<not> rc) k c"
  have "wp (foreach [0..<?n] (install_block rc)) (\<lambda>_ t. bio_frame s t \<and> cst (l_dev s) t pid (?I (length [0..<?n]))) s"
  proof (rule wp_foreach)
    show "bio_frame s s \<and> cst (l_dev s) s pid (?I 0)" using c by (simp add: installed_def installs_def unpinned_def)
  next
    fix k t assume k: "k < length [0..<?n]" and I: "bio_frame s t \<and> cst (l_dev s) t pid (?I k)"
    have fr: "bio_frame s t" and ct: "cst (l_dev s) t pid (?I k)" using I by blast+
    have kn: "k < ?n" using k by simp
    note st = can_install_step[OF ok kn]
    have "wp (install_block rc k) (\<lambda>_ u. bio_frame t u \<and> cst (l_dev s) u pid (?I (Suc k))) t"
      unfolding install_block_def wp_bind[of "gets _"] wp_gets prod.case bio_frame_log[OF fr] st(10)[symmetric]
      by (rule bc.copy_out[OF ct st(1-9)])
    then show "wp (install_block rc ([0..<?n] ! k)) (\<lambda>_ t. bio_frame s t \<and> cst (l_dev s) t pid (?I (Suc k))) t"
      using kn bio_frame_trans[OF fr] by (auto elim: wp_mono)
  qed
  then show ?thesis unfolding install_trans_def wp_bind wp_gets by simp
qed

section \<open>The header block\<close>

lemma write_head_step:
  fixes s :: "'x klog_scheme"
  assumes c: "cst (l_dev s) s pid c" and room: "has_room c (l_start s)" and own: "c_owner c (l_start s) = None"
    and small: "c_refs c (l_start s) + 1 < 2 ^ 32" and n: "0 \<le> l_n s" "l_n s \<le> int LOGBLOCKS"
  shows "wp write_head (\<lambda>_ t. bio_frame s t \<and> cst (l_dev s) t pid
    (writes_cache c [(l_start s, head_bytes (l_block s) (nat (l_n s)) (c_view c (l_start s)))])) s"
proof -
  let ?n = "nat (l_n s)" and ?a = "l_start s"
  let ?h = "head_bytes (l_block s) ?n (c_view c ?a)"
  have on: "(of_int (l_n s) :: u32) = of_nat ?n" using n by simp
  have oid: "c\<lparr>c_view := v, c_disk := w, c_trace := h, c_owner := (c_owner c)(?a := None)\<rparr> =
      c\<lparr>c_view := v, c_disk := w, c_trace := h\<rparr>" for v w h
    using own by (cases c) (auto simp: fun_eq_iff)
  have "4 + 4 * (0 + ?n) \<le> BSIZE" using n by simp
  then have pl: "length hb = BSIZE \<Longrightarrow> length (put_blocks bl ?n 0 hb) = BSIZE" for hb bl
    using length_put_blocks[of 0 ?n hb bl] by metis
  show ?thesis
    unfolding write_head_def wp_bind wp_gets prod.case
    apply (rule bc.read_law[OF c room own small])
    subgoal premises p1 for i t1
      unfolding bio_frame_log[OF p1(2)] on
      apply (rule bc.edit_law[OF p1(1) p1(3), where f = "\<lambda>d. put32 d 0 (of_nat ?n)"], simp, simp)
      subgoal premises p2 for t2
        apply (rule bc.edit_law[OF p2(1) p2(3)[OF p1(3)], where f = "put_blocks (l_block s) ?n 0"], simp, erule pl)
        subgoal premises p3 for t3
          apply (rule bc.writ_law[OF p3(1) p3(3)[OF p2(3)[OF p1(3)]]], simp)
          subgoal premises p4 for t4
            apply (rule bc.rel_law[OF p4(1) p4(3)[OF p3(3)[OF p2(3)[OF p1(3)]]]], simp, simp, simp)
            subgoal premises p5 for t5
              using p5(1) bio_frame_trans[OF p1(2) bio_frame_trans[OF p2(2) bio_frame_trans[OF p3(2) bio_frame_trans[OF p4(2) p5(2)]]]]
              by (simp add: oid head_bytes_def writes_cache_def apply_writes_single)
            done
          done
        done
      done
    done
qed

lemma foreach_set_block:
  fixes s :: "'x klog_scheme"
  assumes "k \<le> LOGBLOCKS" and "length (l_block s) = LOGBLOCKS"
  shows "foreach [0..<k] (\<lambda>i. set_block i (g i)) s = Done () (s\<lparr>l_block := map g [0..<k] @ drop k (l_block s)\<rparr>)"
  using assms
proof (induction k)
  case 0
  then show ?case by simp
next
  case (Suc k)
  have "(map g [0..<k] @ drop k (l_block s))[k := g k] = map g [0..<Suc k] @ drop (Suc k) (l_block s)"
    using Suc.prems by (simp add: list_update_append Cons_nth_drop_Suc[symmetric])
  then show ?case using Suc by (simp add: foreach_snoc set_block_def del: upt_Suc) (simp add: upt_Suc_append foreach_snoc set_block_def)
qed

lemma bio_frame_head:
  fixes s :: "'x klog_scheme"
  assumes "bio_frame s t"
  shows "bio_frame (s\<lparr>l_n := n, l_block := bl\<rparr>) (t\<lparr>l_n := n, l_block := bl\<rparr>)"
proof -
  obtain ps bs hp hn D W where "t = s\<lparr>procs := ps, bufs := bs, head_prev := hp, head_next := hn, dblocks := D, wtrace := W\<rparr>"
    using assms unfolding bio_frame_def by blast
  then have "t\<lparr>l_n := n, l_block := bl\<rparr> = s\<lparr>l_n := n, l_block := bl\<rparr>\<lparr>procs := ps, bufs := bs, head_prev := hp,
    head_next := hn, dblocks := D, wtrace := W\<rparr>" by simp
  then show ?thesis unfolding bio_frame_def by blast
qed

lemma handle_head:
  fixes s :: "'x klog_scheme"
  shows "handle d (s\<lparr>l_n := n, l_block := bl\<rparr>) i m = handle d s i m"
  by (simp add: handle_def slot_def)

lemma read_head_step:
  fixes s :: "'x klog_scheme"
  assumes c: "cst (l_dev s) s pid c" and room: "has_room c (l_start s)" and own: "c_owner c (l_start s) = None"
    and small: "c_refs c (l_start s) + 1 < 2 ^ 32" and clean: "c_refs c (l_start s) = 0 \<Longrightarrow> c_view c (l_start s) = c_disk c (l_start s)"
    and n: "head_n (c_view c (l_start s)) \<le> LOGBLOCKS" and len: "length (l_block s) = LOGBLOCKS"
  shows "wp read_head (\<lambda>_ t. (\<exists>m bl. bio_frame (s\<lparr>l_n := m, l_block := bl\<rparr>) t \<and> nat m = head_n (c_view c (l_start s)) \<and>
    length bl = LOGBLOCKS \<and> (\<forall>i<nat m. bl ! i = head_block (c_view c (l_start s)) i)) \<and> cst (l_dev s) t pid c) s"
proof -
  let ?h = "c_view c (l_start s)"
  have oid: "c\<lparr>c_owner := (c_owner c)(l_start s := None)\<rparr> = c"
    using own by (cases c) (auto simp: fun_eq_iff)
  define N where "N = sint (get32 ?h 0)"
  define bl where "bl = map (head_block ?h) [0..<nat N] @ drop (nat N) (l_block s)"
  have N: "nat N = head_n ?h" "nat N \<le> LOGBLOCKS" using n by (simp_all add: N_def head_n_def)
  have rest: "wp (foreach [0..<nat N] (\<lambda>i. set_block i (get32 ?h (4 + 4 * i))))
      (\<lambda>_. wp (brelse i) (\<lambda>_ t. (\<exists>m bl. bio_frame (s\<lparr>l_n := m, l_block := bl\<rparr>) t \<and> nat m = head_n ?h \<and>
        length bl = LOGBLOCKS \<and> (\<forall>i<nat m. bl ! i = head_block ?h i)) \<and> cst (l_dev s) t pid c)) (t1\<lparr>l_n := N\<rparr>)"
    if fr: "bio_frame s t1" and c1: "cst (l_dev s) t1 pid (c\<lparr>c_refs := (c_refs c)(l_start s := c_refs c (l_start s) + 1),
      c_owner := (c_owner c)(l_start s := Some pid)\<rparr>)" and h: "handle (l_dev s) t1 i (l_start s)" for i t1
  proof -
    have "length (l_block (t1\<lparr>l_n := N\<rparr>)) = LOGBLOCKS" using bio_frame_log[OF fr] len by simp
    then have fe: "foreach [0..<nat N] (\<lambda>i. set_block i (get32 ?h (4 + 4 * i))) (t1\<lparr>l_n := N\<rparr>) = Done () (t1\<lparr>l_n := N, l_block := bl\<rparr>)"
      using foreach_set_block[OF N(2), of "t1\<lparr>l_n := N\<rparr>" "head_block ?h"] bio_frame_log(4)[OF fr]
      unfolding bl_def head_block_def by simp
    have c2: "cst (l_dev s) (t1\<lparr>l_n := N, l_block := bl\<rparr>) pid (c\<lparr>c_refs := (c_refs c)(l_start s := c_refs c (l_start s) + 1),
      c_owner := (c_owner c)(l_start s := Some pid)\<rparr>)" using c1 by (simp only: cst_log_cong)
    have bl: "length bl = LOGBLOCKS" "\<And>i. i < nat N \<Longrightarrow> bl ! i = head_block ?h i"
      using N(2) len by (simp_all add: bl_def nth_append)
    have h2: "handle (l_dev s) (t1\<lparr>l_n := N, l_block := bl\<rparr>) i (l_start s)" using h by (simp only: handle_head)
    show ?thesis
      apply (rule wpI, rule fe)
      apply (rule bc.rel_law[OF c2 h2], simp, simp, simp add: clean)
      subgoal premises q for t
        by (intro conjI exI[of _ N] exI[of _ bl] allI impI)
          (use q(1) bio_frame_trans[OF bio_frame_head[OF fr] q(2)] bl N(1) oid in simp_all)
      done
  qed
  show ?thesis
    unfolding read_head_def wp_bind wp_gets wp_modify prod.case
    apply (rule bc.read_law[OF c room own small])
    subgoal premises p1 for i t1
      apply (rule bc.look_law[OF p1(1) p1(3)])
      subgoal premises p2 for b
        using rest[OF p1(2,1,3)] unfolding p2(1) by (simp add: N_def)
      done
    done
qed

section \<open>Commit and recovery\<close>

text \<open>The cache after a commit.\<close>

definition after_commit :: "u32 \<Rightarrow> u32 list \<Rightarrow> nat \<Rightarrow> cache \<Rightarrow> cache" where
  "after_commit start bl n c = writes_cache (c\<lparr>c_refs := unpinned True (set (take n bl)) (c_refs c)\<rparr>)
     (commit_writes start bl n (c_view c) (c_view c start))"

lemma bio_frame_n:
  fixes s :: "'x klog_scheme"
  assumes "bio_frame s t"
  shows "bio_frame (s\<lparr>l_n := n\<rparr>) (t\<lparr>l_n := n\<rparr>)"
proof -
  have "s\<lparr>l_n := n, l_block := l_block s\<rparr> = s\<lparr>l_n := n\<rparr>" by simp
  moreover have "t\<lparr>l_n := n, l_block := l_block s\<rparr> = t\<lparr>l_n := n\<rparr>" using bio_frame_log(4)[OF assms] by simp
  ultimately show ?thesis using bio_frame_head[OF assms, where n = n and bl = "l_block s"] by metis
qed

lemma finite_cst: "cst d s pid c \<Longrightarrow> finite {m. c_refs c m \<noteq> 0}"
  using finite_refs by (auto simp: cst_def)

lemma installs_commit:
  assumes "n \<le> LOGBLOCKS"
  shows "installs start bl n (apply_writes v (log_writes start bl n w @ [(start, h)])) = install_writes bl n w"
proof -
  have "apply_writes v (log_writes start bl n w @ [(start, h)]) (log_block start i) = w (bl ! i)" if "i < n" for i
    using assms that log_block_neq_start[of i start] by (simp add: apply_writes_append apply_writes_single log_writes_in)
  then show ?thesis by (simp add: installs_def install_writes_def)
qed

lemma commit_step:
  fixes s :: "'x klog_scheme"
  assumes c: "cst (l_dev s) s pid c" and ok: "can_commit (l_start s) (l_block s) (nat (l_n s)) c" and pos: "0 < l_n s"
  shows "wp commit (\<lambda>_ t. bio_frame (s\<lparr>l_n := 0\<rparr>) t \<and>
    cst (l_dev s) t pid (after_commit (l_start s) (l_block s) (nat (l_n s)) c)) s"
proof -
  let ?n = "nat (l_n s)" and ?a = "l_start s" and ?bl = "l_block s"
  let ?lw = "log_writes ?a ?bl ?n (c_view c)" and ?h = "head_bytes ?bl ?n (c_view c ?a)"
  have lg: "logged_ok ?a ?bl ?n" using ok by (simp add: can_commit_def)
  then have n: "?n \<le> LOGBLOCKS" by (simp add: logged_ok_def)
  have nle: "l_n s \<le> int LOGBLOCKS" using n pos by linarith
  define c2 where "c2 = writes_cache c (?lw @ [(?a, ?h)])"
  have start: "apply_writes (c_view c) ?lw ?a = c_view c ?a" using n by (simp add: log_writes_out)
  have room: "has_room c ?a" "c_owner c ?a = None" "c_refs c ?a + 1 < 2 ^ 32" using ok by (simp_all add: can_commit_def has_room_def)
  have inst: "can_install ?a ?bl ?n True c2"
    using ok finite_cst[OF c] n log_block_neq_start
    by (simp add: can_install_def can_commit_def c2_def apply_writes_append apply_writes_single log_writes_in)
  have i2: "installed ?a ?bl True ?n c2 = writes_cache (c\<lparr>c_refs := unpinned True (set (take ?n ?bl)) (c_refs c)\<rparr>)
      (?lw @ [(?a, ?h)] @ install_writes ?bl ?n (c_view c))"
    unfolding installed_def c2_def writes_cache_refs by (simp add: installs_commit[OF n] writes_cache_append)
  have s1: "wp write_log (\<lambda>_ t. bio_frame s t \<and> cst (l_dev s) t pid (writes_cache c ?lw)) s"
    by (rule write_log_step[OF c ok])
  have s2: "wp write_head (\<lambda>_ u. bio_frame s u \<and> cst (l_dev s) u pid c2) t"
    if t: "bio_frame s t" "cst (l_dev s) t pid (writes_cache c ?lw)" for t
    using write_head_step[of t pid "writes_cache c ?lw"] t(2) room pos nle bio_frame_trans[OF t(1)]
    unfolding bio_frame_log[OF t(1)] writes_cache_append
    by (auto simp: start c2_def elim!: wp_mono)
  have s3: "wp (install_trans False) (\<lambda>_ u. bio_frame s u \<and> cst (l_dev s) u pid (installed ?a ?bl True ?n c2)) t"
    if t: "bio_frame s t" "cst (l_dev s) t pid c2" for t
    using install_trans_step[of t pid c2 False] t(2) inst bio_frame_trans[OF t(1)]
    unfolding bio_frame_log[OF t(1)] by (auto elim!: wp_mono)
  have s4: "wp write_head (\<lambda>_ u. bio_frame (s\<lparr>l_n := 0\<rparr>) u \<and> cst (l_dev s) u pid (after_commit ?a ?bl ?n c)) (t\<lparr>l_n := 0\<rparr>)"
    if t: "bio_frame s t" "cst (l_dev s) t pid (installed ?a ?bl True ?n c2)" for t
  proof -
    let ?C = "installed ?a ?bl True ?n c2" and ?t = "t\<lparr>l_n := 0\<rparr>"
    note f = bio_frame_log[OF t(1)]
    have sub: "{m. unpinned True (set (take ?n ?bl)) (c_refs c) m \<noteq> 0} \<subseteq> {m. c_refs c m \<noteq> 0}" by (auto simp: unpinned_def)
    have "card {m. unpinned True (set (take ?n ?bl)) (c_refs c) m \<noteq> 0} < NBUF"
      using card_mono[OF finite_cst[OF c] sub] ok unfolding can_commit_def by linarith
    then have r: "has_room ?C ?a" by (simp add: i2 has_room_def)
    have o: "c_owner ?C ?a = None" "c_refs ?C ?a + 1 < 2 ^ 32"
      using room by (auto simp: i2 unpinned_def)
    have "?a \<notin> fst ` set (install_writes ?bl ?n (c_view c))"
      using logged_nth[OF lg] start_in_region[of ?a] by (fastforce simp: install_writes_def)
    then have "c_view ?C ?a = ?h" by (simp add: i2 apply_writes_append apply_writes_Cons apply_writes_other)
    then have "writes_cache ?C [(?a, head_bytes ?bl 0 (c_view ?C ?a))] = after_commit ?a ?bl ?n c"
      by (simp add: i2 after_commit_def writes_cache_append commit_writes_def)
    then show ?thesis
      using write_head_step[of ?t pid ?C] t(2) r o bio_frame_trans[OF bio_frame_n[OF t(1)]]
      by (auto simp: f cst_log_cong elim!: wp_mono)
  qed
  show ?thesis
    unfolding commit_def wp_bind wp_gets wp_if wp_modify using pos
    apply simp
    apply (rule wp_mono[OF s1], elim conjE)
    apply (rule wp_mono[OF s2], assumption, assumption, elim conjE)
    apply (rule wp_mono[OF s3], assumption, assumption, elim conjE)
    by (rule s4)
qed

text \<open>A block nobody refers to reads as it is on disk, and nobody has it locked.\<close>

lemma cst_idle:
  assumes "cst d s pid c" and "c_refs c m = 0"
  shows "c_view c m = c_disk c m" and "c_owner c m = None"
proof -
  have ok: "bio_ok d s" and c: "c = cache_of d s" using assms by (simp_all add: cst_def)
  have "c_view c m = c_disk c m \<and> c_owner c m = None"
  proof (cases "slot d s m")
    case None
    then show ?thesis unfolding c by (simp add: cache_of_def)
  next
    case (Some i)
    have i: "i < NBUF" "is_id d m (bufs s ! i)" using slot_Some[OF Some] ok by (simp_all add: bio_ok_def)
    then have b: "buf_ok d (dblocks s) (bufs s ! i)" using ok by (simp add: bio_ok_def)
    have "b_refcnt (bufs s ! i) = 0" using assms(2) Some unfolding c by (simp add: cache_of_def unsigned_eq_0_iff)
    then show ?thesis
      using b i(2) Some unfolding c by (auto simp: cache_of_def buf_ok_def is_id_def view_of_def owner_of_def)
  qed
  then show "c_view c m = c_disk c m" and "c_owner c m = None" by simp_all
qed

definition booted :: "cache \<Rightarrow> bool" where
  "booted c \<longleftrightarrow> (\<forall>m. c_refs c m = 0)"

lemma installed_recover: "installed start bl False n c = writes_cache c (installs start bl n (c_view c))"
  by (simp add: installed_def unpinned_def writes_cache_def)

lemma recover_step:
  fixes s :: "'x klog_scheme"
  assumes c: "cst (l_dev s) s pid c" and boot: "booted c" and valid: "log_valid (l_start s) (c_disk c)"
    and len: "length (l_block s) = LOGBLOCKS"
  shows "wp recover_from_log (\<lambda>_ t. l_start t = l_start s \<and> l_dev t = l_dev s \<and> l_n t = 0 \<and>
    cst (l_dev s) t pid (writes_cache c (recover_writes (l_start s) (c_disk c)))) s"
proof -
  let ?a = "l_start s" and ?D = "c_disk c"
  define n where "n = head_n (?D ?a)"
  have refs: "c_refs c m = 0" for m using boot by (simp add: booted_def)
  have vd: "c_view c = ?D" using cst_idle(1)[OF c refs] by (simp add: fun_eq_iff)
  have own: "c_owner c m = None" for m by (rule cst_idle(2)[OF c refs])
  have room: "has_room c m" for m by (simp add: has_room_def refs)
  have nle: "n \<le> LOGBLOCKS" using valid by (simp add: log_valid_def n_def)
  have s1: "wp read_head (\<lambda>_ t. (\<exists>m bl. bio_frame (s\<lparr>l_n := m, l_block := bl\<rparr>) t \<and> nat m = n \<and>
      length bl = LOGBLOCKS \<and> (\<forall>i<nat m. bl ! i = head_block (?D ?a) i)) \<and> cst (l_dev s) t pid c) s"
    using read_head_step[OF c room own] refs nle len unfolding vd n_def by simp
  have rest: "wp (install_trans True) (\<lambda>_ t. wp write_head (\<lambda>_ t. l_start t = l_start s \<and> l_dev t = l_dev s \<and> l_n t = 0 \<and>
      cst (l_dev s) t pid (writes_cache c (recover_writes ?a ?D))) (t\<lparr>l_n := 0\<rparr>)) t"
    if fr: "bio_frame (s\<lparr>l_n := m, l_block := bl\<rparr>) t" and m: "nat m = n" and bl: "length bl = LOGBLOCKS"
      "\<forall>i<nat m. bl ! i = head_block (?D ?a) i" and ct: "cst (l_dev s) t pid c" for m bl t
  proof -
    note f = bio_frame_log[OF fr, simplified]
    have tk: "take n bl = map (head_block (?D ?a)) [0..<n]" using bl m nle by (auto simp: list_eq_iff_nth_eq)
    have lg: "logged_ok ?a bl n" using valid[unfolded log_valid_def, folded n_def] bl(1) nle unfolding logged_ok_def tk by auto
    have inst: "can_install ?a bl n False c"
      using lg by (simp add: can_install_def refs own vd)
    let ?C = "writes_cache c (installs ?a bl n ?D)"
    have i1: "wp (install_trans True) (\<lambda>_ u. bio_frame t u \<and> cst (l_dev s) u pid ?C) t"
      using install_trans_step[of t pid c True] ct inst m unfolding f by (simp add: vd installed_recover)
    have st: "apply_writes (c_view c) (installs ?a bl n ?D) ?a = ?D ?a"
      unfolding vd by (rule installs_region[OF lg]) simp_all
    have ws: "installs ?a bl n ?D @ [(?a, head_bytes bl 0 (?D ?a))] = recover_writes ?a ?D"
      using bl(2) m unfolding installs_def recover_writes_def n_def by (simp add: head_bytes_def)
    have "wp write_head (\<lambda>_ v. l_start v = l_start s \<and> l_dev v = l_dev s \<and> l_n v = 0 \<and>
        cst (l_dev s) v pid (writes_cache c (recover_writes ?a ?D))) (u\<lparr>l_n := 0\<rparr>)"
      if u: "bio_frame t u" "cst (l_dev s) u pid ?C" for u
    proof -
      note g = bio_frame_log[OF u(1), unfolded f]
      have "wp write_head (\<lambda>_ v. bio_frame (u\<lparr>l_n := 0\<rparr>) v \<and> cst (l_dev s) v pid (writes_cache c (recover_writes ?a ?D))) (u\<lparr>l_n := 0\<rparr>)"
        using write_head_step[of "u\<lparr>l_n := 0\<rparr>" pid ?C] u(2) room refs own st ws
        by (simp add: g cst_log_cong writes_cache_append)
      then show ?thesis using g by (auto dest: bio_frame_log elim!: wp_mono)
    qed
    then show ?thesis using i1 by (auto elim!: wp_mono)
  qed
  show ?thesis
    unfolding recover_from_log_def wp_bind wp_modify
    by (rule wp_mono[OF s1], elim conjE exE) (rule rest)
qed

lemma initlog_step:
  fixes s :: "'x klog_scheme"
  assumes "cst dev s pid c" and "booted c" and "log_valid start (c_disk c)" and "length (l_block s) = LOGBLOCKS"
  shows "wp (initlog dev start) (\<lambda>_ t. l_start t = start \<and> l_dev t = dev \<and> l_n t = 0 \<and>
    cst dev t pid (writes_cache c (recover_writes start (c_disk c)))) s"
  using recover_step[of "s\<lparr>l_start := start, l_dev := dev\<rparr>" pid c] assms
  by (simp add: initlog_def wp_rules cst_log_cong sizeof_logheader_def)

lemma cst_disk: "cst d s pid c \<Longrightarrow> c_disk c = dblocks s \<and> c_trace c = wtrace s"
  by (auto simp: cst_def cache_of_def)

text \<open>A reboot: \<open>initlog\<close> with an empty cache gives the blocks outside the log the contents the disk recovers to.\<close>

lemma reboot_recovers:
  fixes u :: "'x klog_scheme"
  assumes "recovers_to start (dblocks u) E" and "cst dev u pid c" and "booted c" and "length (l_block u) = LOGBLOCKS"
  shows "\<exists>w. initlog dev start u = Done () w \<and> (\<forall>m. m \<notin> log_region start \<longrightarrow> dblocks w m = E m)"
proof -
  have "log_valid start (c_disk c)" using assms(1) cst_disk[OF assms(2)] by (simp add: recovers_to_def)
  from initlog_step[OF assms(2,3) this assms(4)] obtain w where w: "initlog dev start u = Done () w"
    "cst dev w pid (writes_cache c (recover_writes start (dblocks u)))"
    unfolding wp_unit_iff using cst_disk[OF assms(2)] by auto
  have "dblocks w = apply_writes (dblocks u) (recover_writes start (dblocks u))" using cst_disk[OF w(2)] cst_disk[OF assms(2)] by simp
  then show ?thesis using assms(1) w(1) by (auto simp: recovers_to_def)
qed

section \<open>Properties\<close>

lemma head_n_zero: "head_n (replicate 1024 0) = 0"
  by (simp add: head_n_def get32_def eval_nat_numeral)

lemma log_demo_fields:
  "length (bufs log_demo) = NBUF" "\<forall>j<NBUF. unused_buf (bufs log_demo ! j)" "dblocks log_demo = dblocks bio_demo"
  "l_start log_demo = 2" "l_dev log_demo = 1" "l_block log_demo = replicate 30 0" "ready log_demo 1"
proof -
  show b: "length (bufs log_demo) = NBUF" "dblocks log_demo = dblocks bio_demo" "l_start log_demo = 2" "l_dev log_demo = 1"
    "l_block log_demo = replicate 30 0"
    using bio_demo_fields(1) by (simp_all add: log_demo_def kbio.defs)
  show "\<forall>j<NBUF. unused_buf (bufs log_demo ! j)"
    using bio_demo_fields(2) by (simp add: log_demo_def kbio.defs del: NBUF_def)
  show "ready log_demo 1" using bio_demo_fields(7)
    by (simp add: log_demo_def kbio.defs ready_def in_proc_def ptable_ok_def)
qed

lemma log_booted:
  "\<exists>t. binit log_demo = Done () t \<and> linked_upto NBUF t \<and> ready t 1 \<and> dblocks t = dblocks bio_demo \<and> l_start t = 2 \<and> l_dev t = 1 \<and>
     l_block t = replicate 30 0"
proof -
  obtain t where t: "binit log_demo = Done () t" "linked_upto NBUF t" "only_cache log_demo t"
    using binit_links[OF log_demo_fields(1,2)] by blast
  then have "ready t 1" using log_demo_fields(7) by (auto simp: only_cache_def ready_def in_proc_def ptable_ok_def simp del: NBUF_def)
  then show ?thesis using t log_demo_fields by (auto simp: only_cache_def simp del: NBUF_def)
qed

text \<open>C5: crash atomicity. Cut the block writes of a \<open>commit\<close> anywhere and run \<open>initlog\<close> on the disk this leaves,
  with an empty cache: it returns, and outside the log every block is as before the commit if the header
  had not been written, and as the transaction left it in the cache if it had.\<close>

theorem commit_crash_atomic:
  fixes s :: "'x klog_scheme"
  assumes "cst (l_dev s) s pid c" and "can_commit (l_start s) (l_block s) (nat (l_n s)) c" and "0 < l_n s"
    and "c_view c (l_start s) = c_disk c (l_start s)" and "head_n (c_disk c (l_start s)) = 0"
  shows "\<exists>t ws. commit s = Done () t \<and> wtrace t = wtrace s @ ws \<and> dblocks t = apply_writes (dblocks s) ws \<and>
    (\<forall>k\<le>length ws. \<forall>(u :: 'x klog_scheme) pid' c'. cst (l_dev s) u pid' c' \<and> booted c' \<and> length (l_block u) = LOGBLOCKS \<and>
        dblocks u = apply_writes (dblocks s) (take k ws) \<longrightarrow>
      (\<exists>w. initlog (l_dev s) (l_start s) u = Done () w \<and> (\<forall>m. m \<notin> log_region (l_start s) \<longrightarrow>
        dblocks w m = (if nat (l_n s) < k \<and> m \<in> set (take (nat (l_n s)) (l_block s)) then c_view c m else dblocks s m))))"
proof -
  let ?n = "nat (l_n s)" and ?a = "l_start s" and ?bl = "l_block s"
  let ?ws = "commit_writes ?a ?bl ?n (c_view c) (c_view c ?a)"
  obtain t where t: "commit s = Done () t" "cst (l_dev s) t pid (after_commit ?a ?bl ?n c)"
    using commit_step[OF assms(1-3)] unfolding wp_unit_iff by blast
  have tr: "wtrace t = wtrace s @ ?ws" "dblocks t = apply_writes (dblocks s) ?ws"
    using cst_disk[OF t(2)] cst_disk[OF assms(1)] by (simp_all add: after_commit_def)
  have lg: "logged_ok ?a ?bl ?n" using assms(2) by (simp add: can_commit_def)
  have len: "length ?ws = 2 * ?n + 2" by (simp add: commit_writes_def log_writes_def install_writes_def)
  have hl: "length (dblocks s ?a) = BSIZE" using assms(1) by (simp add: cst_def bio_ok_def)
  have "\<exists>w. initlog (l_dev s) ?a u = Done () w \<and> (\<forall>m. m \<notin> log_region ?a \<longrightarrow>
        dblocks w m = (if ?n < k \<and> m \<in> set (take ?n ?bl) then c_view c m else dblocks s m))"
    if k: "k \<le> length ?ws" and u: "cst (l_dev s) u pid' c'" "booted c'" "length (l_block u) = LOGBLOCKS"
      "dblocks u = apply_writes (dblocks s) (take k ?ws)" for k and u :: "'x klog_scheme" and pid' c'
  proof -
    have r: "recovers_to ?a (dblocks u) (if k \<le> ?n then dblocks s else committed ?bl ?n (c_view c) (dblocks s))"
      using crash_in_commit[OF lg, of "dblocks s" k "c_view c"] hl assms(4,5) cst_disk[OF assms(1)] k len unfolding u(4) by simp
    from reboot_recovers[OF r u(1-3)] show ?thesis by (auto simp: committed_def split: if_splits)
  qed
  then show ?thesis using t(1) tr by blast
qed

text \<open>A state in which one dirty block is pinned in the cache and logged.\<close>

definition pinned :: "klog \<Rightarrow> klog" where
  "pinned t = t\<lparr>bufs := (bufs t)[0 := (bufs t ! 0)\<lparr>b_valid := 1, b_dev := 1, b_blockno := 40, b_refcnt := 1, b_data := replicate 1024 5\<rparr>],
     l_n := 1, l_block := (l_block t)[0 := 40]\<rparr>"

lemma pinned_cst:
  assumes "linked_upto NBUF t" and "ready t 1" and "\<forall>n. length (dblocks t n) = BSIZE"
  defines "s \<equiv> pinned t"
  shows "cst 1 s 1 (cache_of 1 s)" and "c_refs (cache_of 1 s) n = (if n = 40 then 1 else 0)" and "c_owner (cache_of 1 s) n = None"
    and "n \<noteq> 40 \<Longrightarrow> c_view (cache_of 1 s) n = dblocks t n" and "c_disk (cache_of 1 s) = dblocks t"
proof -
  obtain xs where xs: "lru t xs" "set xs = {0..<NBUF}" and len: "length (bufs t) = NBUF"
    and un: "\<forall>j<NBUF. unused_buf (bufs t ! j)" using assms(1) unfolding linked_upto_def by blast
  let ?b = "(bufs t ! 0)\<lparr>b_valid := 1, b_dev := 1, b_blockno := 40, b_refcnt := 1, b_data := replicate 1024 5\<rparr>"
  have bs: "bufs s = (bufs t)[0 := ?b]" "dblocks s = dblocks t" "wtrace s = wtrace t" by (simp_all add: s_def pinned_def)
  have nth: "bufs s ! j = (if j = 0 then ?b else bufs t ! j)" if "j < NBUF" for j using that len by (simp add: bs nth_list_update)
  have u0: "unused_buf (bufs t ! j)" if "j < NBUF" for j using un that by blast
  have id: "is_id 1 n (bufs s ! j) \<longleftrightarrow> j = 0 \<and> n = 40" if "j < NBUF" for j n
    using u0[OF that] nth[OF that] by (auto simp: is_id_def unused_buf_def)
  have len': "length (bufs s) = NBUF" using len by (simp add: bs)
  have sl: "slot 1 s n = (if n = 40 then Some 0 else None)" for n
  proof (cases "n = 40")
    case True
    have "[0..<length (bufs s)] = 0 # [1..<length (bufs s)]" using len' by (simp add: upt_conv_Cons)
    then show ?thesis using id[of 0 n] True by (simp add: slot_def)
  next
    case False
    then show ?thesis using id len' by (auto simp: slot_def find_None_iff simp del: NBUF_def)
  qed
  have lk: "sl_locked (b_lock (bufs t ! 0)) = 0" using u0[of 0] by (simp add: unused_buf_def)
  have n0: "bufs s ! 0 = ?b" by (simp add: nth)
  show "c_refs (cache_of 1 s) n = (if n = 40 then 1 else 0)" "c_owner (cache_of 1 s) n = None"
    "n \<noteq> 40 \<Longrightarrow> c_view (cache_of 1 s) n = dblocks t n" "c_disk (cache_of 1 s) = dblocks t" for n
    using lk by (simp_all add: cache_of_def sl n0 owner_of_def bs(2))
  have "seg s BHead xs BHead = seg t BHead xs BHead"
    by (rule seg_cong) (use xs len nth in \<open>auto simp: nxt_def prv_def s_def pinned_def nth_list_update simp del: NBUF_def split: bptr.splits\<close>)
  then have "lru s xs" using xs(1) len len' by (simp add: lru_def)
  moreover have "uniq 1 s" unfolding uniq_def len' using id by blast
  moreover have "buf_ok 1 (dblocks s) (bufs s ! j)" if "j < NBUF" for j
    using u0[OF that] nth[OF that] by (simp add: buf_ok_def unused_buf_def)
  ultimately have "bio_ok 1 s" using xs(2) len' assms(3) bs(2) unfolding bio_ok_def by auto
  moreover have "ready s 1" using assms(2) by (simp add: s_def pinned_def ready_def in_proc_def ptable_ok_def)
  ultimately show "cst 1 s 1 (cache_of 1 s)" by (simp add: cst_def)
qed

theorem commit_crash_atomic_witness:
  "\<exists>t u ws w. binit log_demo = Done () t \<and> commit (pinned t) = Done () u \<and> wtrace u = wtrace t @ ws \<and>
    dblocks u = apply_writes (dblocks t) ws \<and> initlog 1 2 t = Done () w \<and> dblocks w 40 = dblocks t 40"
proof -
  obtain t where t: "binit log_demo = Done () t" "linked_upto NBUF t" "ready t 1" "dblocks t = dblocks bio_demo"
    "l_start t = 2" "l_dev t = 1" "l_block t = replicate 30 0" using log_booted by blast
  let ?s = "pinned t"
  have len: "\<forall>n. length (dblocks t n) = BSIZE" by (simp add: t(4) bio_demo_fields)
  note p = pinned_cst[OF t(2,3) len]
  have f: "l_start ?s = 2" "l_dev ?s = 1" "l_n ?s = 1" "l_block ?s = 40 # replicate 29 0" "wtrace ?s = wtrace t" "dblocks ?s = dblocks t"
    by (simp_all add: pinned_def t numeral_eq_Suc)
  have out: "(40 :: u32) \<notin> log_region 2"
  proof
    assume "(40 :: u32) \<in> log_region 2"
    then obtain i where "i < 30" "(40 :: u32) = 2 + of_nat i + 1" by (auto simp: log_region_def)
    then have "i < 30" "(of_nat i :: u32) = of_nat 37" by (simp_all add: algebra_simps)
    then show False unfolding word_of_nat_eq_iff by (simp add: take_bit_nat_eq_self)
  qed
  have "{m. c_refs (cache_of 1 ?s) m \<noteq> 0} = {40}" using p(2) by auto
  then have cc: "can_commit (l_start ?s) (l_block ?s) (nat (l_n ?s)) (cache_of 1 ?s)"
    using out p(2,3) by (simp add: can_commit_def logged_ok_def f)
  have "c_view (cache_of 1 ?s) (l_start ?s) = c_disk (cache_of 1 ?s) (l_start ?s)" "head_n (c_disk (cache_of 1 ?s) (l_start ?s)) = 0"
    using p(4)[of 2] p(5) head_n_zero by (simp_all add: f t(4) bio_demo_fields)
  note hyps = this
  have c1: "cst (l_dev ?s) ?s 1 (cache_of 1 ?s)" and pos: "0 < l_n ?s" using p(1) by (simp_all add: f)
  obtain u ws where u: "commit ?s = Done () u" "wtrace u = wtrace ?s @ ws" "dblocks u = apply_writes (dblocks ?s) ws"
    "\<forall>k\<le>length ws. \<forall>(x :: klog) pid' c'. cst (l_dev ?s) x pid' c' \<and> booted c' \<and> length (l_block x) = LOGBLOCKS \<and>
        dblocks x = apply_writes (dblocks ?s) (take k ws) \<longrightarrow>
      (\<exists>w. initlog (l_dev ?s) (l_start ?s) x = Done () w \<and> (\<forall>m. m \<notin> log_region (l_start ?s) \<longrightarrow>
        dblocks w m = (if nat (l_n ?s) < k \<and> m \<in> set (take (nat (l_n ?s)) (l_block ?s)) then c_view (cache_of 1 ?s) m else dblocks ?s m)))"
    using commit_crash_atomic[OF c1 cc pos hyps] by blast
  have "(1 :: u32) \<noteq> 0" by simp
  note e = linked_empty[OF t(2) this len]
  have "cst (l_dev ?s) t 1 (cache_of 1 t) \<and> booted (cache_of 1 t) \<and> length (l_block t) = LOGBLOCKS \<and>
      dblocks t = apply_writes (dblocks ?s) (take 0 ws)"
    unfolding f(2,6) cst_def booted_def e(2) t(7) using e(1) t(3) by simp
  then obtain w where w: "initlog (l_dev ?s) (l_start ?s) t = Done () w" "\<forall>m. m \<notin> log_region (l_start ?s) \<longrightarrow>
      dblocks w m = (if nat (l_n ?s) < 0 \<and> m \<in> set (take (nat (l_n ?s)) (l_block ?s)) then c_view (cache_of 1 ?s) m else dblocks ?s m)"
    using u(4) by (metis le0)
  have "dblocks w 40 = dblocks t 40" using w(2) out unfolding f by simp
  then show ?thesis using t(1) u(1-3) w(1) unfolding f by blast
qed

text \<open>C6: recovery may itself be cut short. Stop \<open>initlog\<close> after any number of its block writes and start it again on
  the disk this leaves: it returns, and every block outside the log is what an uninterrupted run makes it.\<close>

theorem initlog_restartable:
  fixes s :: "'x klog_scheme"
  assumes "cst dev s pid c" and "booted c" and "log_valid start (dblocks s)" and "length (l_block s) = LOGBLOCKS"
  shows "\<exists>t ws. initlog dev start s = Done () t \<and> wtrace t = wtrace s @ ws \<and> dblocks t = apply_writes (dblocks s) ws \<and>
    (\<forall>k\<le>length ws. \<forall>(u :: 'x klog_scheme) pid' c'. cst dev u pid' c' \<and> booted c' \<and> length (l_block u) = LOGBLOCKS \<and>
        dblocks u = apply_writes (dblocks s) (take k ws) \<longrightarrow>
      (\<exists>w. initlog dev start u = Done () w \<and> (\<forall>m. m \<notin> log_region start \<longrightarrow> dblocks w m = dblocks t m)))"
proof -
  have run: "\<exists>w. initlog dev start u = Done () w \<and> wtrace w = wtrace u @ recover_writes start (dblocks u) \<and>
      dblocks w = apply_writes (dblocks u) (recover_writes start (dblocks u))"
    if "cst dev u p e" "booted e" "log_valid start (dblocks u)" "length (l_block u) = LOGBLOCKS" for p e and u :: "'x klog_scheme"
    using initlog_step[OF that(1,2) _ that(4), of start] that(3) cst_disk[OF that(1)] cst_disk unfolding wp_unit_iff by fastforce
  let ?ws = "recover_writes start (dblocks s)"
  obtain t where t: "initlog dev start s = Done () t" "wtrace t = wtrace s @ ?ws" "dblocks t = apply_writes (dblocks s) ?ws"
    using run[OF assms] by blast
  have len: "length ?ws = head_n (dblocks s start) + 1" by (simp add: recover_writes_def)
  have "\<exists>w. initlog dev start u = Done () w \<and> (\<forall>m. m \<notin> log_region start \<longrightarrow> dblocks w m = dblocks t m)"
    if k: "k \<le> length ?ws" and u: "cst dev u pid' c'" "booted c'" "length (l_block u) = LOGBLOCKS"
      "dblocks u = apply_writes (dblocks s) (take k ?ws)" for k and u :: "'x klog_scheme" and pid' c'
  proof -
    have r: "recovers_to start (dblocks u) (dblocks t)"
      using crash_in_recovery[OF assms(3), of k] k len unfolding u(4) t(3) by simp
    then show ?thesis by (rule reboot_recovers[OF _ u(1-3)])
  qed
  then show ?thesis using t by blast
qed

theorem initlog_restartable_witness:
  "\<exists>t w ws. binit log_demo = Done () t \<and> initlog 1 2 t = Done () w \<and> wtrace w = wtrace t @ ws \<and> dblocks w = apply_writes (dblocks t) ws"
proof -
  obtain t where t: "binit log_demo = Done () t" "linked_upto NBUF t" "ready t 1" "dblocks t = dblocks bio_demo"
    "l_block t = replicate 30 0" using log_booted by blast
  have len: "\<forall>n. length (dblocks t n) = BSIZE" "(1 :: u32) \<noteq> 0" by (simp_all add: t(4) bio_demo_fields)
  note e = linked_empty[OF t(2) len(2,1)]
  have c: "cst 1 t 1 (cache_of 1 t)" "booted (cache_of 1 t)" using e t(3) by (simp_all add: cst_def booted_def)
  have v: "log_valid 2 (dblocks t)" by (simp add: t(4) bio_demo_fields log_valid_def head_n_zero)
  have "length (l_block t) = LOGBLOCKS" by (simp add: t(5))
  from initlog_restartable[OF c v this] show ?thesis using t(1) by blast
qed

end
