(* ===== verification/Fs.thy ===== *)
theory Fs
  imports Log
begin

text \<open>
  The file system, \<^verbatim>\<open>kernel/fs.c\<close>, with the on-disk format of \<^verbatim>\<open>kernel/fs.h\<close> and \<open>struct inode\<close> of
  \<^verbatim>\<open>kernel/file.h\<close>: blocks, inodes, their contents, directories and path names. On-disk structures are
  read from and written to the bytes of a buffer at their offsets. An inode pointer is the index of
  the entry in the inode table, and a null pointer is \<open>None\<close> where the code tests for it. The messages
  printed on the console are left out.
\<close>

section \<open>fs.h, stat.h\<close>

definition ROOTINO :: u32 where "ROOTINO = 1"
definition FSMAGIC :: u32 where "FSMAGIC = 0x10203040"
definition NDIRECT :: nat where [simp]: "NDIRECT = 12"
definition NINDIRECT :: nat where [simp]: "NINDIRECT = BSIZE div 4"
definition MAXFILE :: nat where [simp]: "MAXFILE = NDIRECT + NINDIRECT"
definition NLINK_MAX :: int where [simp]: "NLINK_MAX = 32767"
definition DIRSIZ :: nat where [simp]: "DIRSIZ = 14"
definition T_DIR :: u16 where "T_DIR = 1"
definition T_FILE :: u16 where "T_FILE = 2"
definition T_DEVICE :: u16 where "T_DEVICE = 3"

record superblock =
  sb_magic :: u32
  sb_size :: u32
  sb_nblocks :: u32
  sb_ninodes :: u32
  sb_nlog :: u32
  sb_logstart :: u32
  sb_inodestart :: u32
  sb_bmapstart :: u32

record dinode =
  d_type :: u16
  d_major :: u16
  d_minor :: u16
  d_nlink :: u16
  d_size :: u32
  d_addrs :: "u32 list"

definition sizeof_dinode :: nat where [simp]: "sizeof_dinode = 64"
definition IPB :: nat where [simp]: "IPB = BSIZE div sizeof_dinode"
definition BPB :: nat where [simp]: "BPB = BSIZE * 8"

definition IBLOCK :: "u32 \<Rightarrow> superblock \<Rightarrow> u32" where
  "IBLOCK i sb = i div of_nat IPB + sb_inodestart sb"

definition BBLOCK :: "u32 \<Rightarrow> superblock \<Rightarrow> u32" where
  "BBLOCK b sb = b div of_nat BPB + sb_bmapstart sb"

record dirent =
  de_inum :: u16
  de_name :: bytes

definition sizeof_dirent :: nat where [simp]: "sizeof_dirent = 16"

section \<open>Structures in the bytes of a block\<close>

definition get16 :: "bytes \<Rightarrow> nat \<Rightarrow> u16" where
  "get16 bs off = of_nat (le_val (take 2 (drop off bs)))"

definition patch :: "nat \<Rightarrow> bytes \<Rightarrow> bytes \<Rightarrow> bytes" where
  "patch off new bs = take off bs @ new @ drop (off + length new) bs"

definition dec_superblock :: "bytes \<Rightarrow> superblock" where
  "dec_superblock bs = \<lparr>sb_magic = get32 bs 0, sb_size = get32 bs 4, sb_nblocks = get32 bs 8, sb_ninodes = get32 bs 12,
     sb_nlog = get32 bs 16, sb_logstart = get32 bs 20, sb_inodestart = get32 bs 24, sb_bmapstart = get32 bs 28\<rparr>"

definition dinode_off :: "u32 \<Rightarrow> nat" where
  "dinode_off inum = sizeof_dinode * (unat inum mod IPB)"

definition dec_dinode :: "bytes \<Rightarrow> nat \<Rightarrow> dinode" where
  "dec_dinode bs off = \<lparr>d_type = get16 bs off, d_major = get16 bs (off + 2), d_minor = get16 bs (off + 4),
     d_nlink = get16 bs (off + 6), d_size = get32 bs (off + 8),
     d_addrs = map (\<lambda>i. get32 bs (off + 12 + 4 * i)) [0..<NDIRECT + 1]\<rparr>"

definition enc_dinode :: "dinode \<Rightarrow> bytes" where
  "enc_dinode d = le_bytes 2 (unat (d_type d)) @ le_bytes 2 (unat (d_major d)) @ le_bytes 2 (unat (d_minor d)) @
     le_bytes 2 (unat (d_nlink d)) @ le_bytes 4 (unat (d_size d)) @ concat (map (\<lambda>a. le_bytes 4 (unat a)) (d_addrs d))"

definition zero_dinode :: dinode where
  "zero_dinode = \<lparr>d_type = 0, d_major = 0, d_minor = 0, d_nlink = 0, d_size = 0, d_addrs = replicate (NDIRECT + 1) 0\<rparr>"

definition dec_dirent :: "bytes \<Rightarrow> dirent" where
  "dec_dirent bs = \<lparr>de_inum = get16 bs 0, de_name = take DIRSIZ (drop 2 bs)\<rparr>"

definition enc_dirent :: "dirent \<Rightarrow> bytes" where
  "enc_dirent de = le_bytes 2 (unat (de_inum de)) @ de_name de"

section \<open>The state\<close>

record inode =
  i_dev :: u32
  i_inum :: u32
  i_ref :: int
  i_lock :: sleeplock
  i_valid :: int
  i_type :: u16
  i_major :: u16
  i_minor :: u16
  i_nlink :: u16
  i_size :: u32
  i_addrs :: "u32 list"

record kfs = klog +
  sb :: superblock
  itable :: "inode list"

definition the_inode :: "nat \<Rightarrow> ('x kfs_scheme, inode) kfun" where
  "the_inode i = gets (\<lambda>s. itable s ! i)"

definition upd_inode :: "nat \<Rightarrow> (inode \<Rightarrow> inode) \<Rightarrow> ('x kfs_scheme, unit) kfun" where
  "upd_inode i f = modify (\<lambda>s. s\<lparr>itable := (itable s)[i := f (itable s ! i)]\<rparr>)"

definition inode_lock_upd :: "nat \<Rightarrow> (sleeplock \<Rightarrow> sleeplock) \<Rightarrow> 'x kfs_scheme \<Rightarrow> 'x kfs_scheme" where
  "inode_lock_upd i f s = s\<lparr>itable := (itable s)[i := (itable s ! i)\<lparr>i_lock := f (i_lock (itable s ! i))\<rparr>]\<rparr>"

definition inode_acquiresleep :: "nat \<Rightarrow> ('x kfs_scheme, unit) kfun" where
  "inode_acquiresleep i = acquiresleep (InodeSleepLk i) (ChanInodeLock i) (\<lambda>s. i_lock (itable s ! i)) (inode_lock_upd i)"

definition inode_releasesleep :: "nat \<Rightarrow> ('x kfs_scheme, unit) kfun" where
  "inode_releasesleep i = releasesleep (InodeSleepLk i) (ChanInodeLock i) (inode_lock_upd i)"

definition inode_holdingsleep :: "nat \<Rightarrow> ('x kfs_scheme, bool) kfun" where
  "inode_holdingsleep i = holdingsleep (InodeSleepLk i) (\<lambda>s. i_lock (itable s ! i))"

section \<open>Blocks\<close>

definition readsb :: "u32 \<Rightarrow> ('x kfs_scheme, unit) kfun" where
  "readsb dev =
     bind (bread dev 1) (\<lambda>bp.
     bind (the_buf bp) (\<lambda>b.
     bind (modify (\<lambda>s. s\<lparr>sb := dec_superblock (b_data b)\<rparr>)) (\<lambda>_.
     brelse bp)))"

definition bzero :: "u32 \<Rightarrow> u32 \<Rightarrow> ('x kfs_scheme, unit) kfun" where
  "bzero dev bno =
     bind (bread dev bno) (\<lambda>bp.
     bind (upd_buf bp (\<lambda>b. b\<lparr>b_data := replicate BSIZE 0\<rparr>)) (\<lambda>_.
     bind (log_write bp) (\<lambda>_.
     brelse bp)))"

text \<open>The bit of block \<open>bi\<close> in the bytes of a bitmap block, and the two assignments to it.\<close>

definition bmap_mask :: "nat \<Rightarrow> u8" where
  "bmap_mask bi = push_bit (bi mod 8) 1"

definition bit_free :: "bytes \<Rightarrow> nat \<Rightarrow> bool" where
  "bit_free d bi \<longleftrightarrow> d ! (bi div 8) AND bmap_mask bi = 0"

definition set_bit_used :: "nat \<Rightarrow> bytes \<Rightarrow> bytes" where
  "set_bit_used bi d = d[bi div 8 := d ! (bi div 8) OR bmap_mask bi]"

definition set_bit_free :: "nat \<Rightarrow> bytes \<Rightarrow> bytes" where
  "set_bit_free bi d = d[bi div 8 := d ! (bi div 8) AND NOT (bmap_mask bi)]"

text \<open>\<open>balloc\<close>: the inner loop is the search for the first free bit, the outer one goes over the first
  block of each bitmap block.\<close>

fun balloc_scan :: "u32 \<Rightarrow> nat list \<Rightarrow> ('x kfs_scheme, u32) kfun" where
  "balloc_scan dev [] = ret 0"
| "balloc_scan dev (b # bs) =
     bind (gets sb) (\<lambda>sb.
     bind (bread dev (BBLOCK (of_nat b) sb)) (\<lambda>bp.
     bind (the_buf bp) (\<lambda>buf.
     case find (bit_free (b_data buf)) [0..<min BPB (unat (sb_size sb) - b)] of
       Some bi \<Rightarrow>
         bind (upd_buf bp (\<lambda>x. x\<lparr>b_data := set_bit_used bi (b_data x)\<rparr>)) (\<lambda>_.
         bind (log_write bp) (\<lambda>_.
         bind (brelse bp) (\<lambda>_.
         bind (bzero dev (of_nat (b + bi))) (\<lambda>_.
         ret (of_nat (b + bi))))))
     | None \<Rightarrow> bind (brelse bp) (\<lambda>_. balloc_scan dev bs))))"

definition balloc :: "u32 \<Rightarrow> ('x kfs_scheme, u32) kfun" where
  "balloc dev =
     bind (gets sb) (\<lambda>sb. balloc_scan dev (map (\<lambda>k. k * BPB) [0..<(unat (sb_size sb) + BPB - 1) div BPB]))"

definition bfree :: "u32 \<Rightarrow> u32 \<Rightarrow> ('x kfs_scheme, unit) kfun" where
  "bfree dev b =
     bind (gets sb) (\<lambda>sb.
     bind (bread dev (BBLOCK b sb)) (\<lambda>bp.
     let bi = unat b mod BPB in
     bind (the_buf bp) (\<lambda>buf.
     if bit_free (b_data buf) bi then panic ''freeing free block'' else
     bind (upd_buf bp (\<lambda>x. x\<lparr>b_data := set_bit_free bi (b_data x)\<rparr>)) (\<lambda>_.
     bind (log_write bp) (\<lambda>_.
     brelse bp)))))"

section \<open>Inodes\<close>

definition iinit :: "('x kfs_scheme, unit) kfun" where
  "iinit = foreach [0..<NINODE] (\<lambda>i. modify (inode_lock_upd i (\<lambda>_. initsleeplock ''inode'')))"

text \<open>The loop of \<open>iget\<close>: the entry of the inode, or else the first empty entry.\<close>

fun iget_scan :: "inode list \<Rightarrow> nat list \<Rightarrow> u32 \<Rightarrow> u32 \<Rightarrow> nat option \<Rightarrow> nat option \<times> nat option" where
  "iget_scan it [] dev inum emp = (None, emp)"
| "iget_scan it (i # is) dev inum emp =
     (if 0 < i_ref (it ! i) \<and> i_dev (it ! i) = dev \<and> i_inum (it ! i) = inum then (Some i, emp)
      else iget_scan it is dev inum (if emp = None \<and> i_ref (it ! i) = 0 then Some i else emp))"

definition iget :: "u32 \<Rightarrow> u32 \<Rightarrow> ('x kfs_scheme, nat) kfun" where
  "iget dev inum =
     bind (acquire ItableLock) (\<lambda>_.
     bind (gets itable) (\<lambda>it. case iget_scan it [0..<NINODE] dev inum None of
       (Some i, _) \<Rightarrow>
         bind (upd_inode i (\<lambda>ip. ip\<lparr>i_ref := i_ref ip + 1\<rparr>)) (\<lambda>_.
         bind (release ItableLock) (\<lambda>_.
         ret i))
     | (None, None) \<Rightarrow> panic ''iget: no inodes''
     | (None, Some i) \<Rightarrow>
         bind (upd_inode i (\<lambda>ip. ip\<lparr>i_dev := dev, i_inum := inum, i_ref := 1, i_valid := 0\<rparr>)) (\<lambda>_.
         bind (release ItableLock) (\<lambda>_.
         ret i))))"

fun ialloc_scan :: "u32 \<Rightarrow> u16 \<Rightarrow> u32 list \<Rightarrow> ('x kfs_scheme, nat option) kfun" where
  "ialloc_scan dev type [] = ret None"
| "ialloc_scan dev type (inum # inums) =
     bind (gets sb) (\<lambda>sb.
     bind (bread dev (IBLOCK inum sb)) (\<lambda>bp.
     bind (the_buf bp) (\<lambda>buf.
     if d_type (dec_dinode (b_data buf) (dinode_off inum)) = 0 then
       bind (upd_buf bp (\<lambda>x. x\<lparr>b_data := patch (dinode_off inum) (enc_dinode (zero_dinode\<lparr>d_type := type\<rparr>)) (b_data x)\<rparr>)) (\<lambda>_.
       bind (log_write bp) (\<lambda>_.
       bind (brelse bp) (\<lambda>_.
       bind (iget dev inum) (\<lambda>i. ret (Some i)))))
     else bind (brelse bp) (\<lambda>_. ialloc_scan dev type inums))))"

definition ialloc :: "u32 \<Rightarrow> u16 \<Rightarrow> ('x kfs_scheme, nat option) kfun" where
  "ialloc dev type =
     bind (gets sb) (\<lambda>sb. ialloc_scan dev type (map of_nat [1..<unat (sb_ninodes sb)]))"

definition dinode_of :: "inode \<Rightarrow> dinode" where
  "dinode_of ip = \<lparr>d_type = i_type ip, d_major = i_major ip, d_minor = i_minor ip, d_nlink = i_nlink ip,
     d_size = i_size ip, d_addrs = i_addrs ip\<rparr>"

definition load_dinode :: "dinode \<Rightarrow> inode \<Rightarrow> inode" where
  "load_dinode d ip = ip\<lparr>i_type := d_type d, i_major := d_major d, i_minor := d_minor d, i_nlink := d_nlink d,
     i_size := d_size d, i_addrs := d_addrs d\<rparr>"

definition iupdate :: "nat \<Rightarrow> ('x kfs_scheme, unit) kfun" where
  "iupdate i =
     bind (the_inode i) (\<lambda>ip.
     bind (gets sb) (\<lambda>sb.
     bind (bread (i_dev ip) (IBLOCK (i_inum ip) sb)) (\<lambda>bp.
     bind (upd_buf bp (\<lambda>x. x\<lparr>b_data := patch (dinode_off (i_inum ip)) (enc_dinode (dinode_of ip)) (b_data x)\<rparr>)) (\<lambda>_.
     bind (log_write bp) (\<lambda>_.
     brelse bp)))))"

text \<open>A null pointer faults in \<open>idup\<close>.\<close>

definition idup :: "nat option \<Rightarrow> ('x kfs_scheme, nat option) kfun" where
  "idup ip = (case ip of None \<Rightarrow> panic ''kerneltrap'' | Some i \<Rightarrow>
     bind (acquire ItableLock) (\<lambda>_.
     bind (upd_inode i (\<lambda>ip. ip\<lparr>i_ref := i_ref ip + 1\<rparr>)) (\<lambda>_.
     bind (release ItableLock) (\<lambda>_.
     ret (Some i)))))"

definition ilock :: "nat option \<Rightarrow> ('x kfs_scheme, unit) kfun" where
  "ilock ipo = (case ipo of None \<Rightarrow> panic ''ilock'' | Some i \<Rightarrow>
     bind (the_inode i) (\<lambda>ip.
     if i_ref ip < 1 then panic ''ilock'' else
     bind (inode_acquiresleep i) (\<lambda>_.
     bind (the_inode i) (\<lambda>ip.
     if i_valid ip = 0 then
       bind (gets sb) (\<lambda>sb.
       bind (bread (i_dev ip) (IBLOCK (i_inum ip) sb)) (\<lambda>bp.
       bind (the_buf bp) (\<lambda>buf.
       bind (upd_inode i (load_dinode (dec_dinode (b_data buf) (dinode_off (i_inum ip))))) (\<lambda>_.
       bind (brelse bp) (\<lambda>_.
       bind (upd_inode i (\<lambda>ip. ip\<lparr>i_valid := 1\<rparr>)) (\<lambda>_.
       bind (the_inode i) (\<lambda>ip.
       if i_type ip = 0 then panic ''ilock: no type'' else ret ())))))))
     else ret ()))))"

definition iunlock :: "nat option \<Rightarrow> ('x kfs_scheme, unit) kfun" where
  "iunlock ipo = (case ipo of None \<Rightarrow> panic ''iunlock'' | Some i \<Rightarrow>
     bind (inode_holdingsleep i) (\<lambda>h.
     bind (the_inode i) (\<lambda>ip.
     if \<not> h \<or> i_ref ip < 1 then panic ''iunlock'' else
     inode_releasesleep i)))"

definition ifree :: "u32 \<Rightarrow> u32 \<Rightarrow> ('x kfs_scheme, unit) kfun" where
  "ifree dev inum =
     bind (gets sb) (\<lambda>sb.
     bind (bread dev (IBLOCK inum sb)) (\<lambda>bp.
     bind (upd_buf bp (\<lambda>x. x\<lparr>b_data := patch (dinode_off inum) (le_bytes 2 0) (b_data x)\<rparr>)) (\<lambda>_.
     bind (log_write bp) (\<lambda>_.
     brelse bp))))"

section \<open>Inode contents\<close>

text \<open>The block numbers in an indirect block.\<close>

definition ind_get :: "bytes \<Rightarrow> nat \<Rightarrow> u32" where
  "ind_get d k = get32 d (4 * k)"

definition bmap :: "nat \<Rightarrow> nat \<Rightarrow> ('x kfs_scheme, u32) kfun" where
  "bmap i bn =
     bind (the_inode i) (\<lambda>ip.
     if bn < NDIRECT then
       (if i_addrs ip ! bn = 0 then
          bind (balloc (i_dev ip)) (\<lambda>addr.
          if addr = 0 then ret 0 else
          bind (upd_inode i (\<lambda>ip. ip\<lparr>i_addrs := (i_addrs ip)[bn := addr]\<rparr>)) (\<lambda>_.
          ret addr))
        else ret (i_addrs ip ! bn))
     else let bn = bn - NDIRECT in
     if bn < NINDIRECT then
       bind (if i_addrs ip ! NDIRECT = 0 then
               bind (balloc (i_dev ip)) (\<lambda>addr.
               if addr = 0 then ret 0 else
               bind (upd_inode i (\<lambda>ip. ip\<lparr>i_addrs := (i_addrs ip)[NDIRECT := addr]\<rparr>)) (\<lambda>_.
               ret addr))
             else ret (i_addrs ip ! NDIRECT)) (\<lambda>addr.
       if addr = 0 then ret 0 else
       bind (bread (i_dev ip) addr) (\<lambda>bp.
       bind (the_buf bp) (\<lambda>buf.
       bind (if ind_get (b_data buf) bn = 0 then
               bind (balloc (i_dev ip)) (\<lambda>addr.
               bind (if addr \<noteq> 0 then
                       bind (upd_buf bp (\<lambda>x. x\<lparr>b_data := put32 (b_data x) (4 * bn) addr\<rparr>)) (\<lambda>_. log_write bp)
                     else ret ()) (\<lambda>_.
               ret addr))
             else ret (ind_get (b_data buf) bn)) (\<lambda>addr.
       bind (brelse bp) (\<lambda>_.
       ret addr)))))
     else panic ''bmap: out of range'')"

definition itrunc :: "nat \<Rightarrow> ('x kfs_scheme, unit) kfun" where
  "itrunc i =
     bind (foreach [0..<NDIRECT] (\<lambda>k.
       bind (the_inode i) (\<lambda>ip.
       if i_addrs ip ! k \<noteq> 0 then
         bind (bfree (i_dev ip) (i_addrs ip ! k)) (\<lambda>_.
         upd_inode i (\<lambda>ip. ip\<lparr>i_addrs := (i_addrs ip)[k := 0]\<rparr>))
       else ret ()))) (\<lambda>_.
     bind (the_inode i) (\<lambda>ip.
     bind (if i_addrs ip ! NDIRECT \<noteq> 0 then
             bind (bread (i_dev ip) (i_addrs ip ! NDIRECT)) (\<lambda>bp.
             bind (foreach [0..<NINDIRECT] (\<lambda>j.
               bind (the_buf bp) (\<lambda>buf.
               if ind_get (b_data buf) j \<noteq> 0 then bfree (i_dev ip) (ind_get (b_data buf) j) else ret ()))) (\<lambda>_.
             bind (brelse bp) (\<lambda>_.
             bind (bfree (i_dev ip) (i_addrs ip ! NDIRECT)) (\<lambda>_.
             upd_inode i (\<lambda>ip. ip\<lparr>i_addrs := (i_addrs ip)[NDIRECT := 0]\<rparr>)))))
           else ret ()) (\<lambda>_.
     bind (upd_inode i (\<lambda>ip. ip\<lparr>i_size := 0\<rparr>)) (\<lambda>_.
     iupdate i))))"

definition iput :: "nat \<Rightarrow> ('x kfs_scheme, unit) kfun" where
  "iput i =
     bind (acquire ItableLock) (\<lambda>_.
     bind (the_inode i) (\<lambda>ip.
     let last = i_ref ip = 1 \<and> i_valid ip \<noteq> 0 \<and> i_nlink ip = 0 in
     bind (if last then
             bind (inode_acquiresleep i) (\<lambda>_.
             bind (release ItableLock) (\<lambda>_.
             bind (itrunc i) (\<lambda>_.
             bind (upd_inode i (\<lambda>ip. ip\<lparr>i_valid := 0\<rparr>)) (\<lambda>_.
             bind (inode_releasesleep i) (\<lambda>_.
             acquire ItableLock)))))
           else ret ()) (\<lambda>_.
     bind (upd_inode i (\<lambda>ip. ip\<lparr>i_ref := i_ref ip - 1\<rparr>)) (\<lambda>_.
     bind (release ItableLock) (\<lambda>_.
     if last then ifree (i_dev ip) (i_inum ip) else ret ())))))"

definition iunlockput :: "nat \<Rightarrow> ('x kfs_scheme, unit) kfun" where
  "iunlockput i = bind (iunlock (Some i)) (\<lambda>_. iput i)"

definition ireclaim :: "u32 \<Rightarrow> ('x kfs_scheme, unit) kfun" where
  "ireclaim dev =
     bind (gets sb) (\<lambda>sb0.
     foreach (map of_nat [1..<unat (sb_ninodes sb0)]) (\<lambda>inum.
       bind (gets sb) (\<lambda>sb.
       bind (bread dev (IBLOCK inum sb)) (\<lambda>bp.
       bind (the_buf bp) (\<lambda>buf.
       let dip = dec_dinode (b_data buf) (dinode_off inum) in
       bind (if d_type dip \<noteq> 0 \<and> d_nlink dip = 0 then bind (iget dev inum) (\<lambda>i. ret (Some i)) else ret None) (\<lambda>ipo.
       bind (brelse bp) (\<lambda>_. case ipo of None \<Rightarrow> ret () | Some i \<Rightarrow>
         bind begin_op (\<lambda>_.
         bind (ilock (Some i)) (\<lambda>_.
         bind (iunlock (Some i)) (\<lambda>_.
         bind (iput i) (\<lambda>_.
         end_op)))))))))))"

definition fsinit :: "u32 \<Rightarrow> ('x kfs_scheme, unit) kfun" where
  "fsinit dev =
     bind (readsb dev) (\<lambda>_.
     bind (gets sb) (\<lambda>sb.
     if sb_magic sb \<noteq> FSMAGIC then panic ''invalid file system'' else
     bind (initlog dev (sb_logstart sb)) (\<lambda>_.
     ireclaim dev)))"

record stat =
  st_dev :: int
  st_ino :: u32
  st_type :: u16
  st_nlink :: u16
  st_size :: u64

definition stati :: "nat \<Rightarrow> ('x kfs_scheme, stat) kfun" where
  "stati i =
     bind (the_inode i) (\<lambda>ip.
     ret \<lparr>st_dev = sint (i_dev ip), st_ino = i_inum ip, st_type = i_type ip, st_nlink = i_nlink ip, st_size = ucast (i_size ip)\<rparr>)"

section \<open>Reading and writing\<close>

text \<open>How much of the current block a turn of the loops of \<open>readi\<close> and \<open>writei\<close> moves.\<close>

definition blk_part :: "nat \<Rightarrow> nat \<Rightarrow> nat" where
  "blk_part off rem = min rem (BSIZE - off mod BSIZE)"

lemma blk_part_pos: "0 < rem \<Longrightarrow> 0 < blk_part off rem"
  by (simp add: blk_part_def)

fun dst_add :: "copy_dst \<Rightarrow> nat \<Rightarrow> copy_dst" where
  "dst_add (UserDst a) m = UserDst (a + of_nat m)"
| "dst_add (PhysDst a) m = PhysDst (a + of_nat m)"
| "dst_add KernDst m = KernDst"

fun src_add :: "copy_src \<Rightarrow> nat \<Rightarrow> copy_src" where
  "src_add (UserSrc a) m = UserSrc (a + of_nat m)"
| "src_add (KernSrc bs) m = KernSrc (drop m bs)"

text \<open>The result of the loop of \<open>readi\<close> is \<open>tot\<close> and the bytes copied, for a destination in the kernel.\<close>

function readi_loop :: "nat \<Rightarrow> copy_dst \<Rightarrow> nat \<Rightarrow> nat \<Rightarrow> nat \<Rightarrow> bytes \<Rightarrow> ('x kfs_scheme, int \<times> bytes) kfun" where
  "readi_loop i dst off tot n acc s =
     (if n \<le> tot then Done (int tot, acc) s else
      bind (bmap i (off div BSIZE)) (\<lambda>addr.
      if addr = 0 then ret (int tot, acc) else
      bind (the_inode i) (\<lambda>ip.
      bind (bread (i_dev ip) addr) (\<lambda>bp.
      bind (the_buf bp) (\<lambda>buf.
      let m = blk_part off (n - tot); bs = take m (drop (off mod BSIZE) (b_data buf)) in
      bind (either_copyout dst bs) (\<lambda>r.
      if r = - 1 then bind (brelse bp) (\<lambda>_. ret (- 1, acc)) else
      bind (brelse bp) (\<lambda>_.
      readi_loop i (dst_add dst m) (off + m) (tot + m) n (acc @ bs))))))) s)"
  by pat_completeness auto
termination
  by (relation "measure (\<lambda>(i, dst, off, tot, n, acc, s). n - tot)") (auto simp: blk_part_def)

definition readi :: "nat \<Rightarrow> copy_dst \<Rightarrow> u32 \<Rightarrow> u32 \<Rightarrow> ('x kfs_scheme, int \<times> bytes) kfun" where
  "readi i dst off n =
     bind (the_inode i) (\<lambda>ip.
     if i_size ip < off \<or> off + n < off then ret (0, []) else
     let n = (if i_size ip < off + n then i_size ip - off else n) in
     readi_loop i dst (unat off) 0 (unat n) [])"

function writei_loop :: "nat \<Rightarrow> copy_src \<Rightarrow> nat \<Rightarrow> nat \<Rightarrow> nat \<Rightarrow> ('x kfs_scheme, nat \<times> nat) kfun" where
  "writei_loop i src off tot n s =
     (if n \<le> tot then Done (tot, off) s else
      bind (bmap i (off div BSIZE)) (\<lambda>addr.
      if addr = 0 then ret (tot, off) else
      bind (the_inode i) (\<lambda>ip.
      bind (bread (i_dev ip) addr) (\<lambda>bp.
      let m = blk_part off (n - tot) in
      bind (either_copyin src m) (\<lambda>(r, bs).
      bind (upd_buf bp (\<lambda>x. x\<lparr>b_data := patch (off mod BSIZE) bs (b_data x)\<rparr>)) (\<lambda>_.
      bind (log_write bp) (\<lambda>_.
      bind (brelse bp) (\<lambda>_.
      if r = - 1 then ret (tot, off)
      else writei_loop i (src_add src m) (off + m) (tot + m) n))))))) s)"
  by pat_completeness auto
termination
  by (relation "measure (\<lambda>(i, src, off, tot, n, s). n - tot)") (auto simp: blk_part_def)

definition writei :: "nat \<Rightarrow> copy_src \<Rightarrow> u32 \<Rightarrow> u32 \<Rightarrow> ('x kfs_scheme, int) kfun" where
  "writei i src off n =
     bind (the_inode i) (\<lambda>ip.
     if i_size ip < off \<or> off + n < off then ret (- 1)
     else if of_nat (MAXFILE * BSIZE) < off + n then ret (- 1) else
     bind (writei_loop i src (unat off) 0 (unat n)) (\<lambda>(tot, off).
     bind (upd_inode i (\<lambda>ip. if unat (i_size ip) < off then ip\<lparr>i_size := of_nat off\<rparr> else ip)) (\<lambda>_.
     bind (iupdate i) (\<lambda>_.
     ret (int tot)))))"

section \<open>Directories\<close>

definition namecmp :: "bytes \<Rightarrow> bytes \<Rightarrow> int" where
  "namecmp s t = strncmp s t DIRSIZ"

text \<open>The loop of \<open>dirlookup\<close>: the inode number and offset of the first entry with the name.\<close>

function dirlookup_loop :: "nat \<Rightarrow> bytes \<Rightarrow> nat \<Rightarrow> nat \<Rightarrow> ('x kfs_scheme, (u16 \<times> nat) option) kfun" where
  "dirlookup_loop dp name sz off s =
     (if sz \<le> off then Done None s else
      bind (readi dp KernDst (of_nat off) (of_nat sizeof_dirent)) (\<lambda>(r, bs).
      if r \<noteq> int sizeof_dirent then panic ''dirlookup read'' else
      let de = dec_dirent bs in
      if de_inum de = 0 then dirlookup_loop dp name sz (off + sizeof_dirent)
      else if namecmp name (de_name de) = 0 then ret (Some (de_inum de, off))
      else dirlookup_loop dp name sz (off + sizeof_dirent)) s)"
  by pat_completeness auto
termination
  by (relation "measure (\<lambda>(dp, name, sz, off, s). sz - off)") auto

definition dirlookup :: "nat \<Rightarrow> bytes \<Rightarrow> ('x kfs_scheme, (nat \<times> nat) option) kfun" where
  "dirlookup dp name =
     bind (the_inode dp) (\<lambda>d.
     if i_type d \<noteq> T_DIR then panic ''dirlookup not DIR'' else
     bind (dirlookup_loop dp name (unat (i_size d)) 0) (\<lambda>r. case r of
       None \<Rightarrow> ret None
     | Some (inum, off) \<Rightarrow> bind (iget (i_dev d) (ucast inum)) (\<lambda>i. ret (Some (i, off)))))"

text \<open>The second loop of \<open>dirlink\<close>: the offset of the first empty entry, or the size.\<close>

function dirlink_loop :: "nat \<Rightarrow> nat \<Rightarrow> nat \<Rightarrow> ('x kfs_scheme, nat) kfun" where
  "dirlink_loop dp sz off s =
     (if sz \<le> off then Done off s else
      bind (readi dp KernDst (of_nat off) (of_nat sizeof_dirent)) (\<lambda>(r, bs).
      if r \<noteq> int sizeof_dirent then panic ''dirlink read''
      else if de_inum (dec_dirent bs) = 0 then ret off
      else dirlink_loop dp sz (off + sizeof_dirent)) s)"
  by pat_completeness auto
termination
  by (relation "measure (\<lambda>(dp, sz, off, s). sz - off)") auto

definition dirlink :: "nat \<Rightarrow> bytes \<Rightarrow> u32 \<Rightarrow> ('x kfs_scheme, int) kfun" where
  "dirlink dp name inum =
     bind (dirlookup dp name) (\<lambda>r. case r of
       Some (i, _) \<Rightarrow> bind (iput i) (\<lambda>_. ret (- 1))
     | None \<Rightarrow>
         bind (the_inode dp) (\<lambda>d.
         bind (dirlink_loop dp (unat (i_size d)) 0) (\<lambda>off.
         let de = \<lparr>de_inum = ucast inum, de_name = strncpy (replicate DIRSIZ 0) name (int DIRSIZ)\<rparr> in
         bind (writei dp (KernSrc (enc_dirent de)) (of_nat off) (of_nat sizeof_dirent)) (\<lambda>r.
         if r \<noteq> int sizeof_dirent then ret (- 1) else ret 0))))"

section \<open>Paths\<close>

definition slash :: u8 where "slash = 47"

fun skip_slashes :: "bytes \<Rightarrow> bytes" where
  "skip_slashes [] = []"
| "skip_slashes (c # p) = (if c = slash then skip_slashes p else c # p)"

text \<open>The characters up to the next slash or the end, and what follows them.\<close>

fun path_elem :: "bytes \<Rightarrow> bytes \<times> bytes" where
  "path_elem [] = ([], [])"
| "path_elem (c # p) = (if c = slash \<or> c = 0 then ([], c # p) else let (e, q) = path_elem p in (c # e, q))"

definition skipelem :: "bytes \<Rightarrow> bytes \<Rightarrow> (bytes \<times> bytes) option" where
  "skipelem path name =
     (let path = skip_slashes path in
      if chd path = 0 then None else
      let (s, path) = path_elem path; len = length s;
          name = (if DIRSIZ \<le> len then patch 0 (take DIRSIZ s) name else (patch 0 s name)[len := 0])
      in Some (skip_slashes path, name))"

lemma skip_slashes_length: "length (skip_slashes p) \<le> length p"
  by (induction p) auto

lemma path_elem_length: "length (snd (path_elem p)) \<le> length p"
  by (induction p) (auto split: prod.split)

lemma skipelem_shorter:
  assumes "skipelem path name = Some (path', name')"
  shows "length path' < length path"
proof -
  obtain c p where cp: "skip_slashes path = c # p"
    using assms by (cases "skip_slashes path") (auto simp: skipelem_def chd_def Let_def)
  have c: "c \<noteq> slash" using cp by (induction path) (auto split: if_splits)
  have c0: "c \<noteq> 0" using assms cp by (auto simp: skipelem_def chd_def Let_def)
  have "path' = skip_slashes (snd (path_elem (c # p)))"
    using assms cp by (auto simp: skipelem_def Let_def chd_def split: if_splits prod.splits)
  then have "length path' \<le> length (snd (path_elem (c # p)))" by (simp add: skip_slashes_length)
  also have "\<dots> \<le> length p" using c c0 path_elem_length[of p] by (auto split: prod.split)
  also have "\<dots> < length path" using skip_slashes_length[of path] cp by simp
  finally show ?thesis .
qed

text \<open>The loop of \<open>namex\<close>, from the inode reached so far.\<close>

function namex_loop :: "bytes \<Rightarrow> bool \<Rightarrow> bytes \<Rightarrow> nat \<Rightarrow> ('x kfs_scheme, nat option \<times> bytes) kfun" where
  "namex_loop path nameiparent name ip s = (case skipelem path name of
       None \<Rightarrow>
         if nameiparent then bind (iput ip) (\<lambda>_. ret (None, name)) s else Done (Some ip, name) s
     | Some (path', name') \<Rightarrow>
         bind (ilock (Some ip)) (\<lambda>_.
         bind (the_inode ip) (\<lambda>d.
         if i_type d \<noteq> T_DIR then bind (iunlockput ip) (\<lambda>_. ret (None, name'))
         else if i_nlink d = 0 then bind (iunlockput ip) (\<lambda>_. ret (None, name'))
         else if nameiparent \<and> chd path' = 0 then bind (iunlock (Some ip)) (\<lambda>_. ret (Some ip, name'))
         else bind (dirlookup ip name') (\<lambda>r. case r of
           None \<Rightarrow> bind (iunlockput ip) (\<lambda>_. ret (None, name'))
         | Some (next, _) \<Rightarrow>
             bind (iunlockput ip) (\<lambda>_. namex_loop path' nameiparent name' next)))) s)"
  by pat_completeness auto
termination
  by (relation "measure (\<lambda>(path, np, name, ip, s). length path)") (auto dest: skipelem_shorter)

definition namex :: "bytes \<Rightarrow> bool \<Rightarrow> bytes \<Rightarrow> ('x kfs_scheme, nat option \<times> bytes) kfun" where
  "namex path nameiparent name =
     bind (if chd path = slash then bind (iget ROOTDEV ROOTINO) (\<lambda>i. ret (Some i))
           else bind myproc (\<lambda>p. bind (the_proc p) (\<lambda>pr. idup (p_cwd pr)))) (\<lambda>ip. case ip of
       None \<Rightarrow> panic ''kerneltrap''
     | Some ip \<Rightarrow> namex_loop path nameiparent name ip)"

definition namei :: "bytes \<Rightarrow> ('x kfs_scheme, nat option) kfun" where
  "namei path = bind (namex path False (replicate DIRSIZ 0)) (\<lambda>(ip, _). ret ip)"

definition nameiparent :: "bytes \<Rightarrow> bytes \<Rightarrow> ('x kfs_scheme, nat option \<times> bytes) kfun" where
  "nameiparent path name = namex path True name"

text \<open>A state just after boot: the layout of the image \<^verbatim>\<open>mkfs\<close> builds and an empty inode table.\<close>

definition zero_inode :: inode where
  "zero_inode = \<lparr>i_dev = 0, i_inum = 0, i_ref = 0, i_lock = initsleeplock ''inode'', i_valid = 0, i_type = 0, i_major = 0,
     i_minor = 0, i_nlink = 0, i_size = 0, i_addrs = replicate (NDIRECT + 1) 0\<rparr>"

definition fs_demo :: kfs where
  "fs_demo = klog.extend log_demo \<lparr>sb = \<lparr>sb_magic = FSMAGIC, sb_size = 2000, sb_nblocks = 1954, sb_ninodes = 200, sb_nlog = 30,
     sb_logstart = 2, sb_inodestart = 32, sb_bmapstart = 45\<rparr>, itable = replicate NINODE zero_inode\<rparr>"

end
