(* ===== verification/Txn.thy ===== *)
theory Txn
  imports Crash Fs
begin

text \<open>
  What a system call sees between \<open>begin_op\<close> and \<open>end_op\<close>: blocks it opens with \<open>bread\<close>, changes, records with
  \<open>log_write\<close> and closes with \<open>brelse\<close>. The interface is a locale, which the log of \<open>Log\<close> over the cache of \<open>Bio\<close>
  provides; its laws give the two patterns the file system is written in.
\<close>

section \<open>The interface of the file system to the log\<close>

text \<open>A transaction: the blocks as the caller sees them and as they are on disk, the blocks recorded in the log, the
  blocks the caller has open, and those of them it has changed but not recorded.\<close>

record trans =
  t_view :: "u32 \<Rightarrow> bytes"
  t_disk :: "u32 \<Rightarrow> bytes"
  t_trace :: "(u32 \<times> bytes) list"
  t_log :: "u32 set"
  t_open :: "u32 set"
  t_dirty :: "u32 set"

locale transaction =
  fixes tr :: "'s \<Rightarrow> trans \<Rightarrow> bool" and hand :: "'s \<Rightarrow> nat \<Rightarrow> u32 \<Rightarrow> bool" and frame :: "'s \<Rightarrow> 's \<Rightarrow> bool"
    and area :: "'s \<Rightarrow> u32 set"
    and read :: "u32 \<Rightarrow> ('s, nat) kfun" and look :: "nat \<Rightarrow> ('s, buf) kfun"
    and edit :: "nat \<Rightarrow> (buf \<Rightarrow> buf) \<Rightarrow> ('s, unit) kfun"
    and recd :: "nat \<Rightarrow> ('s, unit) kfun" and rel :: "nat \<Rightarrow> ('s, unit) kfun"
  assumes frame_refl: "frame s s"
    and frame_trans: "frame s t \<Longrightarrow> frame t u \<Longrightarrow> frame s u"
    and frame_area: "frame s t \<Longrightarrow> area t = area s"
    and view_size: "tr s x \<Longrightarrow> length (t_view x n) = BSIZE"
    and read_law: "tr s x \<Longrightarrow> n \<notin> t_open x \<Longrightarrow> card (t_log x \<union> t_open x) < NBUF \<Longrightarrow>
      (\<And>i t. tr t (x\<lparr>t_open := insert n (t_open x)\<rparr>) \<Longrightarrow> frame s t \<Longrightarrow> hand t i n \<Longrightarrow>
        (\<And>j m. hand s j m \<Longrightarrow> m \<in> t_open x \<Longrightarrow> hand t j m) \<Longrightarrow> Q i t) \<Longrightarrow> wp (read n) Q s"
    and look_law: "tr s x \<Longrightarrow> hand s i n \<Longrightarrow> (\<And>b. b_data b = t_view x n \<Longrightarrow> R b s) \<Longrightarrow> wp (look i) R s"
    and edit_law: "tr s x \<Longrightarrow> hand s i n \<Longrightarrow> n \<in> t_open x \<Longrightarrow> (\<And>b. length b = BSIZE \<Longrightarrow> length (f b) = BSIZE) \<Longrightarrow>
      (\<And>t. tr t (x\<lparr>t_view := (t_view x)(n := f (t_view x n)), t_dirty := insert n (t_dirty x)\<rparr>) \<Longrightarrow> frame s t \<Longrightarrow>
        (\<And>j m. hand s j m \<Longrightarrow> hand t j m) \<Longrightarrow> P () t) \<Longrightarrow>
      wp (edit i (\<lambda>b. b\<lparr>b_data := f (b_data b)\<rparr>)) P s"
    and recd_law: "tr s x \<Longrightarrow> hand s i n \<Longrightarrow> n \<in> t_open x \<Longrightarrow> card (t_log x) < LOGBLOCKS \<Longrightarrow> n \<notin> area s \<Longrightarrow>
      (\<And>t. tr t (x\<lparr>t_log := insert n (t_log x), t_dirty := t_dirty x - {n}\<rparr>) \<Longrightarrow> frame s t \<Longrightarrow>
        (\<And>j m. hand s j m \<Longrightarrow> hand t j m) \<Longrightarrow> P () t) \<Longrightarrow> wp (recd i) P s"
    and rel_law: "tr s x \<Longrightarrow> hand s i n \<Longrightarrow> n \<in> t_open x \<Longrightarrow> n \<notin> t_dirty x \<Longrightarrow>
      (\<And>t. tr t (x\<lparr>t_open := t_open x - {n}\<rparr>) \<Longrightarrow> frame s t \<Longrightarrow>
        (\<And>j m. hand s j m \<Longrightarrow> hand t j m) \<Longrightarrow> P () t) \<Longrightarrow> wp (rel i) P s"
begin

text \<open>Changing a block: open it, look at it, change it, record it and close it.\<close>

lemma finish_update:
  assumes x: "tr s (x\<lparr>t_open := insert n (t_open x)\<rparr>)" and h: "hand s i n" and n: "n \<notin> t_open x" "n \<notin> area s" "n \<notin> t_dirty x"
    and room: "card (t_log x) < LOGBLOCKS" and len: "\<And>b. length b = BSIZE \<Longrightarrow> length (f b) = BSIZE"
    and k: "\<And>t. tr t (x\<lparr>t_view := (t_view x)(n := f (t_view x n)), t_log := insert n (t_log x)\<rparr>) \<Longrightarrow> frame s t \<Longrightarrow>
      (\<And>j m. hand s j m \<Longrightarrow> hand t j m) \<Longrightarrow> Q () t"
  shows "wp (bind (edit i (\<lambda>b. b\<lparr>b_data := f (b_data b)\<rparr>)) (\<lambda>_. bind (recd i) (\<lambda>_. rel i))) Q s"
  unfolding wp_bind
  apply (rule edit_law[OF x h _ len], simp, assumption)
  subgoal premises p1 for t1
    apply (rule recd_law[OF p1(1) p1(3)[OF h]])
    subgoal by simp
    subgoal using room by simp
    subgoal using n(2) frame_area[OF p1(2)] by simp
    subgoal premises p2 for t2
      apply (rule rel_law[OF p2(1) p2(3)[OF p1(3)[OF h]]])
      subgoal by simp
      subgoal by simp
      subgoal premises p3 for t3
        apply (rule k)
        subgoal using p3(1) n by (cases x) (simp add: insert_absorb)
        subgoal by (rule frame_trans[OF p1(2) frame_trans[OF p2(2) p3(2)]])
        subgoal for j m by (rule p3(3), rule p2(3), rule p1(3))
        done
      done
    done
  done

lemma update_block:
  assumes x: "tr s x" and n: "n \<notin> t_open x" "n \<notin> area s" "n \<notin> t_dirty x" and room: "card (t_log x \<union> t_open x) < NBUF"
    and lroom: "card (t_log x) < LOGBLOCKS" and len: "\<And>b. length b = BSIZE \<Longrightarrow> length (f b) = BSIZE"
    and k: "\<And>t. tr t (x\<lparr>t_view := (t_view x)(n := f (t_view x n)), t_log := insert n (t_log x)\<rparr>) \<Longrightarrow> frame s t \<Longrightarrow>
      (\<And>j m. hand s j m \<Longrightarrow> m \<in> t_open x \<Longrightarrow> hand t j m) \<Longrightarrow> Q () t"
  shows "wp (bind (read n) (\<lambda>i. bind (edit i (\<lambda>b. b\<lparr>b_data := f (b_data b)\<rparr>)) (\<lambda>_. bind (recd i) (\<lambda>_. rel i)))) Q s"
  unfolding wp_bind[of "read n"]
  apply (rule read_law[OF x n(1) room])
  subgoal premises p for i t
    apply (rule finish_update[OF p(1,3) n(1) _ n(3) lroom len])
    subgoal using n(2) frame_area[OF p(2)] by simp
    subgoal .
    subgoal premises q for u by (rule k[OF q(1) frame_trans[OF p(2) q(2)]]) (rule q(3), rule p(4))
    done
  done

text \<open>Looking at a block: open it and look, go on with what it holds.\<close>

lemma open_block:
  assumes x: "tr s x" and n: "n \<notin> t_open x" and room: "card (t_log x \<union> t_open x) < NBUF"
    and k: "\<And>t i b. tr t (x\<lparr>t_open := insert n (t_open x)\<rparr>) \<Longrightarrow> frame s t \<Longrightarrow> hand t i n \<Longrightarrow>
      (\<And>j m. hand s j m \<Longrightarrow> m \<in> t_open x \<Longrightarrow> hand t j m) \<Longrightarrow> b_data b = t_view x n \<Longrightarrow> wp (K i b) Q t"
  shows "wp (bind (read n) (\<lambda>i. bind (look i) (\<lambda>b. K i b))) Q s"
  unfolding wp_bind
  apply (rule read_law[OF x n room])
  subgoal premises p for i t
    by (rule look_law[OF p(1,3)]) (rule k[OF p(1-3)], erule (1) p(4), simp)
  done

lemma close_block:
  assumes x: "tr s (x\<lparr>t_open := insert n (t_open x)\<rparr>)" and h: "hand s i n" and n: "n \<notin> t_open x" "n \<notin> t_dirty x"
    and k: "\<And>t. tr t x \<Longrightarrow> frame s t \<Longrightarrow> (\<And>j m. hand s j m \<Longrightarrow> hand t j m) \<Longrightarrow> Q () t"
  shows "wp (rel i) Q s"
  by (rule rel_law[OF x h]) (use n k in \<open>simp_all\<close>)

end

section \<open>The log provides it\<close>

text \<open>The cache of a transaction: a block is referred to by the log, which pins it, and by the caller, who has it open.\<close>

definition tcache :: "int \<Rightarrow> trans \<Rightarrow> cache" where
  "tcache pid x = \<lparr>c_view = t_view x, c_disk = t_disk x, c_trace = t_trace x,
     c_refs = (\<lambda>m. of_bool (m \<in> t_log x) + of_bool (m \<in> t_open x)),
     c_owner = (\<lambda>m. if m \<in> t_open x then Some pid else None)\<rparr>"

definition txn :: "u32 \<Rightarrow> int \<Rightarrow> 'x klog_scheme \<Rightarrow> trans \<Rightarrow> bool" where
  "txn d pid s x \<longleftrightarrow> cst d s pid (tcache pid x) \<and> l_dev s = d \<and> LogLock \<notin> held s \<and> l_committing s = 0 \<and> 1 \<le> l_outstanding s \<and>
     0 \<le> l_n s \<and> length (l_block s) = LOGBLOCKS \<and> logged_ok (l_start s) (l_block s) (nat (l_n s)) \<and>
     set (take (nat (l_n s)) (l_block s)) = t_log x \<and>
     t_dirty x \<subseteq> t_open x \<and> (\<forall>m. m \<notin> t_log x \<union> t_dirty x \<longrightarrow> t_view x m = t_disk x m)"

definition log_frame :: "'x klog_scheme \<Rightarrow> 'x klog_scheme \<Rightarrow> bool" where
  "log_frame s t \<longleftrightarrow> (\<exists>ps bs hp hn D W n bl. t = s\<lparr>procs := ps, bufs := bs, head_prev := hp, head_next := hn,
     dblocks := D, wtrace := W, l_n := n, l_block := bl\<rparr>)"

lemma log_frame_bio: "bio_frame s t \<Longrightarrow> log_frame s t"
proof -
  assume "bio_frame s t"
  then obtain ps bs hp hn D W where "t = s\<lparr>procs := ps, bufs := bs, head_prev := hp, head_next := hn,
     dblocks := D, wtrace := W\<rparr>" unfolding bio_frame_def by blast
  then have "t = s\<lparr>procs := ps, bufs := bs, head_prev := hp, head_next := hn,
     dblocks := D, wtrace := W, l_n := l_n s, l_block := l_block s\<rparr>" by simp
  then show ?thesis unfolding log_frame_def by blast
qed

lemma log_frame_refl [simp]: "log_frame s s"
  by (rule log_frame_bio) simp

lemma log_frame_trans:
  assumes "log_frame s t" and "log_frame t u"
  shows "log_frame s u"
proof -
  obtain ps bs hp hn D W n bl where t: "t = s\<lparr>procs := ps, bufs := bs, head_prev := hp, head_next := hn,
     dblocks := D, wtrace := W, l_n := n, l_block := bl\<rparr>" using assms(1) unfolding log_frame_def by blast
  obtain ps' bs' hp' hn' D' W' n' bl' where "u = t\<lparr>procs := ps', bufs := bs', head_prev := hp', head_next := hn',
     dblocks := D', wtrace := W', l_n := n', l_block := bl'\<rparr>" using assms(2) unfolding log_frame_def by blast
  then have "u = s\<lparr>procs := ps', bufs := bs', head_prev := hp', head_next := hn',
     dblocks := D', wtrace := W', l_n := n', l_block := bl'\<rparr>" unfolding t by simp
  then show ?thesis unfolding log_frame_def by blast
qed

lemma log_frameD:
  assumes "log_frame s t"
  shows "l_start t = l_start s" "l_dev t = l_dev s" "l_outstanding t = l_outstanding s" "l_committing t = l_committing s"
    "held t = held s" "curproc t = curproc s" "l_ncommit t = l_ncommit s" "klog.more t = klog.more s"
  using assms by (auto simp: log_frame_def)

lemma log_frame_fs:
  assumes "log_frame s (t :: 'x kfs_scheme)"
  shows "sb t = sb s" and "itable t = itable s"
  using assms by (auto simp: log_frame_def)

lemma txn_log_card: "txn d pid s x \<Longrightarrow> card (t_log x) = nat (l_n s) \<and> finite (t_log x)"
  unfolding txn_def logged_ok_def by (metis distinct_card length_take min.absorb2 List.finite_set)

text \<open>A step of the cache that leaves the log alone.\<close>

lemma txn_bio:
  assumes "txn d pid s x" and "bio_frame s t" and "cst d t pid (tcache pid y)" and "t_log y = t_log x"
    and "t_dirty y \<subseteq> t_open y" and "\<forall>m. m \<notin> t_log y \<union> t_dirty y \<longrightarrow> t_view y m = t_disk y m"
  shows "txn d pid t y"
  using assms bio_frame_log[OF assms(2)] unfolding txn_def by auto

lemma tcache_room:
  assumes "card (t_log x \<union> t_open x) < NBUF"
  shows "has_room (tcache pid x) n"
proof -
  have "{m. c_refs (tcache pid x) m \<noteq> 0} = t_log x \<union> t_open x" by (auto simp: tcache_def)
  then show ?thesis using assms by (simp add: has_room_def)
qed

lemma txn_read:
  assumes x: "txn d pid s x" and n: "n \<notin> t_open x" and room: "card (t_log x \<union> t_open x) < NBUF"
    and k: "\<And>i t. txn d pid t (x\<lparr>t_open := insert n (t_open x)\<rparr>) \<Longrightarrow> log_frame s t \<Longrightarrow> handle d t i n \<Longrightarrow>
        (\<And>j m. handle d s j m \<Longrightarrow> m \<in> t_open x \<Longrightarrow> handle d t j m) \<Longrightarrow> Q i t"
  shows "wp (bread d n) Q s"
proof (rule bread_step[OF _ tcache_room[OF room]])
  show "cst d s pid (tcache pid x)" using x by (simp add: txn_def)
  show "c_owner (tcache pid x) n = None" "c_refs (tcache pid x) n + 1 < 2 ^ 32" using n by (simp_all add: tcache_def of_bool_def)
  fix i t
  let ?y = "x\<lparr>t_open := insert n (t_open x)\<rparr>"
  assume c: "cst d t pid (tcache pid x\<lparr>c_refs := (c_refs (tcache pid x))(n := c_refs (tcache pid x) n + 1),
      c_owner := (c_owner (tcache pid x))(n := Some pid)\<rparr>)"
    and f: "bio_frame s t" and h: "handle d t i n" and hs: "\<And>j m. handle d s j m \<Longrightarrow> c_refs (tcache pid x) m \<noteq> 0 \<Longrightarrow> handle d t j m"
  have "tcache pid x\<lparr>c_refs := (c_refs (tcache pid x))(n := c_refs (tcache pid x) n + 1),
      c_owner := (c_owner (tcache pid x))(n := Some pid)\<rparr> = tcache pid ?y"
    using n by (auto simp: tcache_def fun_eq_iff)
  then have "txn d pid t ?y" using txn_bio[OF x f, of ?y] c x by (auto simp: txn_def)
  then show "Q i t" by (rule k[OF _ log_frame_bio[OF f] h]) (rule hs, auto simp: tcache_def)
qed

lemma txn_edit:
  assumes x: "txn d pid s x" and h: "handle d s i n" and n: "n \<in> t_open x" and len: "\<And>b. length b = BSIZE \<Longrightarrow> length (f b) = BSIZE"
    and k: "\<And>t. txn d pid t (x\<lparr>t_view := (t_view x)(n := f (t_view x n)), t_dirty := insert n (t_dirty x)\<rparr>) \<Longrightarrow> log_frame s t \<Longrightarrow>
        (\<And>j m. handle d s j m \<Longrightarrow> handle d t j m) \<Longrightarrow> Q () t"
  shows "wp (upd_buf i (\<lambda>b. b\<lparr>b_data := f (b_data b)\<rparr>)) Q s"
proof (rule set_data_step[OF _ h _ len])
  show "cst d s pid (tcache pid x)" using x by (simp add: txn_def)
  show "c_refs (tcache pid x) n \<noteq> 0" using n by (simp add: tcache_def)
  fix t
  let ?y = "x\<lparr>t_view := (t_view x)(n := f (t_view x n)), t_dirty := insert n (t_dirty x)\<rparr>"
  assume c: "cst d t pid (tcache pid x\<lparr>c_view := (c_view (tcache pid x))(n := f (c_view (tcache pid x) n))\<rparr>)"
    and f: "bio_frame s t" and hs: "\<And>j m. handle d s j m \<Longrightarrow> handle d t j m"
  have "tcache pid x\<lparr>c_view := (c_view (tcache pid x))(n := f (c_view (tcache pid x) n))\<rparr> = tcache pid ?y"
    by (simp add: tcache_def)
  then have "txn d pid t ?y" using txn_bio[OF x f, of ?y] c x n by (auto simp: txn_def)
  then show "Q () t" by (rule k[OF _ log_frame_bio[OF f]]) (rule hs)
qed

lemma txn_rel:
  assumes x: "txn d pid s x" and h: "handle d s i n" and n: "n \<in> t_open x" "n \<notin> t_dirty x"
    and k: "\<And>t. txn d pid t (x\<lparr>t_open := t_open x - {n}\<rparr>) \<Longrightarrow> log_frame s t \<Longrightarrow>
        (\<And>j m. handle d s j m \<Longrightarrow> handle d t j m) \<Longrightarrow> Q () t"
  shows "wp (brelse i) Q s"
proof (rule brelse_step[OF _ h])
  show "cst d s pid (tcache pid x)" using x by (simp add: txn_def)
  show "c_owner (tcache pid x) n = Some pid" "c_refs (tcache pid x) n \<noteq> 0" using n by (simp_all add: tcache_def)
  show "c_refs (tcache pid x) n = 1 \<Longrightarrow> c_view (tcache pid x) n = c_disk (tcache pid x) n" using x n by (auto simp: tcache_def txn_def)
  fix t
  let ?y = "x\<lparr>t_open := t_open x - {n}\<rparr>"
  assume c: "cst d t pid (tcache pid x\<lparr>c_refs := (c_refs (tcache pid x))(n := c_refs (tcache pid x) n - 1),
      c_owner := (c_owner (tcache pid x))(n := None)\<rparr>)"
    and f: "bio_frame s t" and hs: "\<And>j m. handle d s j m \<Longrightarrow> handle d t j m"
  have "tcache pid x\<lparr>c_refs := (c_refs (tcache pid x))(n := c_refs (tcache pid x) n - 1),
      c_owner := (c_owner (tcache pid x))(n := None)\<rparr> = tcache pid ?y"
    using n by (auto simp: tcache_def fun_eq_iff)
  then have "txn d pid t ?y" using txn_bio[OF x f, of ?y] c x n by (auto simp: txn_def)
  then show "Q () t" by (rule k[OF _ log_frame_bio[OF f]]) (rule hs)
qed

section \<open>Recording a block in the log\<close>

lemma find_logged_eq:
  assumes "i + k \<le> length bl"
  shows "find_logged bl k i b = i + length (takeWhile (\<lambda>x. x \<noteq> b) (take k (drop i bl)))"
  using assms
proof (induction k arbitrary: i)
  case (Suc k)
  have "take (Suc k) (drop i bl) = bl ! i # take k (drop (Suc i) bl)" using Suc.prems by (simp add: Cons_nth_drop_Suc[symmetric])
  then show ?case using Suc by simp
qed simp

lemma find_logged_spec:
  assumes "n \<le> length bl"
  shows "b \<notin> set (take n bl) \<Longrightarrow> find_logged bl n 0 b = n"
    and "b \<in> set (take n bl) \<Longrightarrow> find_logged bl n 0 b < n \<and> bl ! find_logged bl n 0 b = b"
proof -
  let ?w = "takeWhile (\<lambda>x. x \<noteq> b) (take n bl)"
  have e: "find_logged bl n 0 b = length ?w" using find_logged_eq[of 0 n bl b] assms by simp
  show "b \<notin> set (take n bl) \<Longrightarrow> find_logged bl n 0 b = n" unfolding e using assms by (subst takeWhile_eq_all_conv[THEN iffD2]) auto
  assume "b \<in> set (take n bl)"
  then obtain xs ys where t: "take n bl = xs @ b # ys" "b \<notin> set xs" by (metis split_list_first)
  then have "takeWhile (\<lambda>x. x \<noteq> b) xs = xs" by auto
  then have w: "?w = xs" unfolding t(1) by simp
  have l: "length xs < n" using arg_cong[OF t(1), of length] assms by simp
  have "take n bl ! length xs = b" unfolding t(1) by simp
  then show "find_logged bl n 0 b < n \<and> bl ! find_logged bl n 0 b = b" unfolding e w using l by simp
qed

lemma cst_held_log:
  fixes s :: "'x kbio_scheme"
  shows "cst d (s\<lparr>held := insert LogLock (held s)\<rparr>) pid c = cst d s pid c"
    and "cst d (s\<lparr>held := held s - {LogLock}\<rparr>) pid c = cst d s pid c"
  by (simp_all add: cst_def ready_def in_proc_def ptable_ok_def cache_of_cong[of "s\<lparr>held := _\<rparr>" s] bio_ok_cong[of "s\<lparr>held := _\<rparr>" s])

lemma handle_cong: "bufs t = bufs s \<Longrightarrow> handle d t i n = handle d s i n"
  by (simp add: handle_def slot_def)

lemma bpin_step:
  assumes "cst d s pid c" and "handle d s i n" and "c_refs c n + 1 < 2 ^ 32"
    and "\<And>t. cst d t pid (c\<lparr>c_refs := (c_refs c)(n := c_refs c n + 1)\<rparr>) \<Longrightarrow>
      bio_frame s t \<Longrightarrow> (\<And>j m. handle d s j m \<Longrightarrow> handle d t j m) \<Longrightarrow> Q () t"
  shows "wp (bpin i) Q s"
  by (rule wp_mono[OF wp_bpin[of s pid]]) (use assms in \<open>auto simp: cst_def\<close>)

lemma txn_recd:
  assumes x: "txn d pid s x" and h: "handle d s i n" and n: "n \<in> t_open x" "n \<notin> log_region (l_start s)"
    and room: "card (t_log x) < LOGBLOCKS"
    and k: "\<And>t. txn d pid t (x\<lparr>t_log := insert n (t_log x), t_dirty := t_dirty x - {n}\<rparr>) \<Longrightarrow> log_frame s t \<Longrightarrow>
        (\<And>j m. handle d s j m \<Longrightarrow> handle d t j m) \<Longrightarrow> Q () t"
  shows "wp (log_write i) Q s"
proof -
  let ?n = "nat (l_n s)" and ?bl = "l_block s" and ?y = "x\<lparr>t_log := insert n (t_log x), t_dirty := t_dirty x - {n}\<rparr>"
  let ?s1 = "s\<lparr>held := insert LogLock (held s)\<rparr>"
  have u: "cst d s pid (tcache pid x)" "LogLock \<notin> held s" "1 \<le> l_outstanding s" "0 \<le> l_n s" "length ?bl = LOGBLOCKS"
    "logged_ok (l_start s) ?bl ?n" "set (take ?n ?bl) = t_log x" using x by (simp_all add: txn_def)
  have card: "?n < LOGBLOCKS" using txn_log_card[OF x] room by simp
  define r where "r = find_logged ?bl ?n 0 n"
  have r: "r \<le> ?n" "r = ?n \<longleftrightarrow> n \<notin> t_log x" "n \<in> t_log x \<Longrightarrow> ?bl ! r = n"
    using find_logged_spec[of ?n ?bl n] card u(5,7) unfolding r_def by (cases "n \<in> t_log x"; simp)+
  let ?s2 = "?s1\<lparr>l_block := ?bl[r := n]\<rparr>"
  have c2: "cst d ?s2 pid (tcache pid x)" using u(1) by (simp add: cst_held_log cst_log_cong)
  have h2: "handle d ?s2 j m = handle d s j m" for j m by (rule handle_cong) simp
  have fin: "Q () (t\<lparr>l_n := l_n s + of_bool (n \<notin> t_log x), held := held t - {LogLock}\<rparr>)"
    if t: "bio_frame ?s2 t" "cst d t pid (tcache pid ?y)" "\<And>j m. handle d s j m \<Longrightarrow> handle d t j m" for t
  proof -
    let ?t = "t\<lparr>l_n := l_n s + of_bool (n \<notin> t_log x), held := held t - {LogLock}\<rparr>"
    note f = bio_frame_log[OF t(1)]
    have hd: "held ?t = held s" using u(2) by (simp add: f)
    obtain ps bs hp hn D W where e: "t = ?s2\<lparr>procs := ps, bufs := bs, head_prev := hp, head_next := hn,
      dblocks := D, wtrace := W\<rparr>" using t(1) unfolding bio_frame_def by blast
    have "?t = s\<lparr>procs := ps, bufs := bs, head_prev := hp, head_next := hn, dblocks := D, wtrace := W,
       l_n := l_n s + of_bool (n \<notin> t_log x), l_block := ?bl[r := n]\<rparr>" using u(2) by (simp add: e)
    then have fr: "log_frame s ?t" unfolding log_frame_def by blast
    have tk: "set (take (nat (l_n s + of_bool (n \<notin> t_log x))) (?bl[r := n])) = insert n (t_log x) \<and>
        logged_ok (l_start s) (?bl[r := n]) (nat (l_n s + of_bool (n \<notin> t_log x)))"
    proof (cases "n \<in> t_log x")
      case True
      then have "?bl[r := n] = ?bl" using r(3) by (metis list_update_id)
      then show ?thesis using True u(6,7) by (simp add: insert_absorb)
    next
      case False
      then have "r = ?n" using r(2) by simp
      then have "take (Suc ?n) (?bl[r := n]) = take ?n ?bl @ [n]" using card u(5) by (simp add: take_Suc_conv_app_nth)
      moreover have "nat (l_n s + 1) = Suc ?n" using u(4) by simp
      ultimately show ?thesis using u(5-7) card False n(2) by (auto simp: logged_ok_def)
    qed
    have "cst d ?t pid (tcache pid ?y)" using t(2) cst_held_log(2)[of d "t\<lparr>l_n := l_n s + of_bool (n \<notin> t_log x)\<rparr>"]
      by (simp add: cst_log_cong)
    then have "txn d pid ?t ?y" using x tk u n(1) f unfolding txn_def by auto
    then show ?thesis by (rule k[OF _ fr]) (simp add: handle_cong[of ?t t] t(3))
  qed
  have ty: "tcache pid ?y = (tcache pid x)\<lparr>c_refs := (c_refs (tcache pid x))(n := c_refs (tcache pid x) n + 1)\<rparr>" if "n \<notin> t_log x"
    using that by (auto simp: tcache_def fun_eq_iff)
  have ty': "tcache pid ?y = tcache pid x" if "n \<in> t_log x" using that by (auto simp: tcache_def insert_absorb)
  have stay: "Q () (?s2\<lparr>held := held ?s2 - {LogLock}\<rparr>)" if "n \<in> t_log x" using fin[of ?s2] that c2 ty' by (simp add: h2)
  have look: "wp (the_buf i) (\<lambda>b t. t = ?s1 \<and> b_blockno b = n) ?s1"
    by (rule the_buf_step[of d ?s1 pid "tcache pid x" i n]) (use u(1) h in \<open>simp_all add: cst_held_log handle_cong[of ?s1 s]\<close>)
  have ne: "r < LOGBLOCKS" using r(1) card by simp
  have lt: "\<not> int LOGBLOCKS \<le> l_n s" using card by linarith
  have "int r = l_n s \<longleftrightarrow> r = ?n" using u(4) by linarith
  then have ir: "int r = l_n s \<longleftrightarrow> n \<notin> t_log x" using r(2) by simp
  have hl: "held t = insert LogLock (held s)" if "bio_frame ?s2 t" for t using bio_frame_log(7)[OF that] by simp
  have pin: "wp (bpin i) (\<lambda>_. wp (modify (\<lambda>s. s\<lparr>l_n := l_n s + 1\<rparr>)) (\<lambda>_. wp (release LogLock) Q)) ?s2" if "n \<notin> t_log x"
    apply (rule bpin_step[OF c2, of i n])
    subgoal unfolding h2 by (rule h)
    subgoal using n(1) by (simp add: tcache_def of_bool_def)
    subgoal premises p for t using fin[of t] p that bio_frame_log(3)[OF p(2)] hl[OF p(2)] by (simp add: ty h2 wp_rules)
    done
  have rest: "wp (bind (set_block r n) (\<lambda>_. bind (if int r = l_n s then bind (bpin i) (\<lambda>_. modify (\<lambda>s. s\<lparr>l_n := l_n s + 1\<rparr>)) else ret ())
      (\<lambda>_. release LogLock))) Q ?s1"
    using pin stay ne by (simp add: ir wp_rules set_block_def wp_Done del: LOGBLOCKS_def)
  show ?thesis
    apply (simp add: log_write_def wp_rules lt u(2,3) not_less Let_def del: LOGBLOCKS_def)
    apply (rule wp_mono[OF look])
    using rest by (simp add: r_def wp_bind)
qed

interpretation tx: transaction "txn d pid" "handle d" log_frame "\<lambda>s. log_region (l_start s)" "bread d" the_buf upd_buf log_write brelse
  for d pid
proof (unfold_locales, goal_cases)
  case 1 show ?case by simp
next
  case 2 then show ?case by (rule log_frame_trans)
next
  case 3 then show ?case by (simp add: log_frameD)
next
  case (4 s x n)
  then have "cst d s pid (tcache pid x)" by (simp add: txn_def)
  from view_length[OF this, of n] show ?case by (simp add: tcache_def)
next
  case 5 show ?case by (rule txn_read[OF 5(1-3)]) (rule 5(4))
next
  case (6 s x i n)
  have c: "cst d s pid (tcache pid x)" using 6(1) by (simp add: txn_def)
  show ?case by (rule the_buf_step[OF c 6(2)]) (rule 6(3), simp add: tcache_def)
next
  case 7 show ?case by (rule txn_edit[OF 7(1-3)]) (fact 7(4), rule 7(5))
next
  case 8 show ?case by (rule txn_recd[OF 8(1-3) 8(5,4)]) (rule 8(6))
next
  case 9 show ?case by (rule txn_rel[OF 9(1-4)]) (rule 9(5))
qed

section \<open>Between system calls\<close>

text \<open>No system call is in the file system: the log is empty, on disk too, and no block is in use.\<close>

definition idle :: "u32 \<Rightarrow> int \<Rightarrow> 'x klog_scheme \<Rightarrow> (u32 \<Rightarrow> bytes) \<Rightarrow> bool" where
  "idle d pid s D \<longleftrightarrow> cst d s pid \<lparr>c_view = D, c_disk = D, c_trace = wtrace s, c_refs = (\<lambda>_. 0), c_owner = (\<lambda>_. None)\<rparr> \<and>
     l_dev s = d \<and> LogLock \<notin> held s \<and> l_committing s = 0 \<and> l_outstanding s = 0 \<and> l_n s = 0 \<and> length (l_block s) = LOGBLOCKS \<and>
     head_n (D (l_start s)) = 0"

definition fresh :: "(u32 \<Rightarrow> bytes) \<Rightarrow> (u32 \<times> bytes) list \<Rightarrow> trans" where
  "fresh D W = \<lparr>t_view = D, t_disk = D, t_trace = W, t_log = {}, t_open = {}, t_dirty = {}\<rparr>"

lemma cst_log_state:
  fixes s :: "'x klog_scheme"
  shows "cst d (s\<lparr>l_outstanding := n\<rparr>) pid c = cst d s pid c" and "cst d (s\<lparr>l_committing := n\<rparr>) pid c = cst d s pid c"
    and "cst d (s\<lparr>l_ncommit := n\<rparr>) pid c = cst d s pid c"
  by (rule cst_cong; simp)+

lemma wp_begin_op:
  fixes s :: "'x klog_scheme"
  assumes i: "idle d pid s D" and k: "txn d pid (s\<lparr>l_outstanding := 1\<rparr>) (fresh D (wtrace s)) \<Longrightarrow> Q () (s\<lparr>l_outstanding := 1\<rparr>)"
  shows "wp begin_op Q s"
proof -
  have "tcache pid (fresh D (wtrace s)) = \<lparr>c_view = D, c_disk = D, c_trace = wtrace s, c_refs = (\<lambda>_. 0), c_owner = (\<lambda>_. None)\<rparr>"
    by (simp add: tcache_def fresh_def)
  then have "txn d pid (s\<lparr>l_outstanding := 1\<rparr>) (fresh D (wtrace s))"
    using i by (simp add: idle_def txn_def cst_log_state logged_ok_def) (simp add: fresh_def)
  note q = k[OF this]
  have h: "LogLock \<notin> held s" and f: "l_committing s = 0" "l_n s = 0" "l_outstanding s = 0" using i by (simp_all add: idle_def)
  have "s\<lparr>held := held s, l_outstanding := 1\<rparr> = s\<lparr>l_outstanding := 1\<rparr>" by simp
  then show ?thesis using q h f by (simp add: begin_op_def wp_rules)
qed

end
