(* ===== verification/Fsblocks.thy ===== *)
theory Fsblocks
  imports Txn
begin

text \<open>
  The block allocator of \<^verbatim>\<open>fs.c\<close> inside a transaction: \<open>bzero\<close>, \<open>balloc\<close> and \<open>bfree\<close> on the bitmap the
  transaction sees.
\<close>

section \<open>Bits of the bitmap\<close>

lemma bit_bmap_mask: "bit (bmap_mask bi) k \<longleftrightarrow> k = bi mod 8"
  by (auto simp: bmap_mask_def bit_exp_iff)

lemma and_zero_iff: "(a :: u8) AND b = 0 \<longleftrightarrow> (\<forall>n. \<not> (bit a n \<and> bit b n))"
proof
  show "a AND b = 0 \<Longrightarrow> \<forall>n. \<not> (bit a n \<and> bit b n)" by (metis bit_0_eq bit_and_iff bot_apply bot_bool_def)
  show "\<forall>n. \<not> (bit a n \<and> bit b n) \<Longrightarrow> a AND b = 0" by (rule bit_eqI) (simp add: bit_and_iff)
qed

lemma bit_free_iff: "bit_free d bi \<longleftrightarrow> \<not> bit (d ! (bi div 8)) (bi mod 8)"
  by (auto simp: bit_free_def and_zero_iff bit_bmap_mask)

lemma same_bit: "(bi :: nat) div 8 = bj div 8 \<Longrightarrow> bi mod 8 = bj mod 8 \<Longrightarrow> bi = bj"
  by (metis div_mult_mod_eq)

lemma bit_free_used:
  assumes "bi < 8 * length d"
  shows "bit_free (set_bit_used bi d) bj \<longleftrightarrow> bit_free d bj \<and> bj \<noteq> bi"
proof (cases "bj div 8 = bi div 8")
  case True
  have e: "bj = bi \<longleftrightarrow> bj mod 8 = bi mod 8" using True same_bit by metis
  have "bi div 8 < length d" using assms by simp
  then show ?thesis unfolding bit_free_iff set_bit_used_def True e by (simp add: bit_or_iff bit_bmap_mask)
qed (auto simp: bit_free_iff set_bit_used_def)

lemma bit_free_free:
  assumes "bi < 8 * length d"
  shows "bit_free (set_bit_free bi d) bj \<longleftrightarrow> bit_free d bj \<or> bj = bi"
proof (cases "bj div 8 = bi div 8")
  case True
  have e: "bj = bi \<longleftrightarrow> bj mod 8 = bi mod 8" using True same_bit by metis
  have "bi div 8 < length d" "bj mod 8 < 8" using assms by simp_all
  then show ?thesis unfolding bit_free_iff set_bit_free_def True e by (auto simp: bit_and_iff bit_not_iff bit_bmap_mask)
qed (auto simp: bit_free_iff set_bit_free_def)

lemma length_set_bit [simp]: "length (set_bit_used bi d) = length d" "length (set_bit_free bi d) = length d"
  by (simp_all add: set_bit_used_def set_bit_free_def)

section \<open>Free blocks\<close>

text \<open>Block \<open>b\<close> is free in the bitmap.\<close>

definition is_free :: "(u32 \<Rightarrow> bytes) \<Rightarrow> superblock \<Rightarrow> nat \<Rightarrow> bool" where
  "is_free V B b \<longleftrightarrow> bit_free (V (BBLOCK (of_nat b) B)) (b mod BPB)"

text \<open>The layout \<open>balloc\<close> relies on: the bitmap is outside the log, and so is every free block, which is no block of
  the bitmap.\<close>

definition bitmap_ok :: "u32 \<Rightarrow> superblock \<Rightarrow> (u32 \<Rightarrow> bytes) \<Rightarrow> bool" where
  "bitmap_ok start B V \<longleftrightarrow> (\<forall>b<unat (sb_size B). BBLOCK (of_nat b) B \<notin> log_region start \<and>
     (is_free V B b \<longrightarrow> of_nat b \<notin> log_region start \<and> (\<forall>c<unat (sb_size B). BBLOCK (of_nat c) B \<noteq> of_nat b)))"

definition allocated :: "superblock \<Rightarrow> nat \<Rightarrow> trans \<Rightarrow> trans" where
  "allocated B b x = (let bb = BBLOCK (of_nat b) B in
     x\<lparr>t_view := (t_view x)(bb := set_bit_used (b mod BPB) (t_view x bb), of_nat b := replicate BSIZE 0),
       t_log := insert (of_nat b) (insert bb (t_log x))\<rparr>)"

lemma BBLOCK_same:
  assumes "b < 2 ^ 32" and "c < 2 ^ 32"
  shows "BBLOCK (of_nat b) B = BBLOCK (of_nat c) B \<longleftrightarrow> b div BPB = c div BPB"
proof -
  have "unat (of_nat b div of_nat BPB :: u32) = b div BPB" "unat (of_nat c div of_nat BPB :: u32) = c div BPB"
    using assms by (simp_all add: unat_div_distrib unat_of_nat_small)
  then show ?thesis unfolding BBLOCK_def by (metis add_right_cancel unsigned_word_eqI)
qed

text \<open>Allocating takes one block and no other.\<close>

lemma is_free_allocated:
  assumes ok: "bitmap_ok start B (t_view x)" and len: "\<And>n. length (t_view x n) = BSIZE"
    and b: "b < unat (sb_size B)" "is_free (t_view x) B b" and c: "c < unat (sb_size B)"
  shows "is_free (t_view (allocated B b x)) B c \<longleftrightarrow> is_free (t_view x) B c \<and> c \<noteq> b"
proof -
  have s: "unat (sb_size B) < 2 ^ 32" using unat_less_2p[of "sb_size B"] by simp
  have ne: "BBLOCK (of_nat c) B \<noteq> of_nat b" using ok b c unfolding bitmap_ok_def by blast
  have bb: "b mod BPB < 8 * length (t_view x (BBLOCK (of_nat b) B))" by (simp add: len)
  have same: "BBLOCK (of_nat c) B = BBLOCK (of_nat b) B \<longleftrightarrow> c div BPB = b div BPB"
    by (rule BBLOCK_same) (use b c s in linarith)+
  show ?thesis
  proof (cases "c div BPB = b div BPB")
    case True
    have "c mod BPB = b mod BPB \<longleftrightarrow> c = b" using True by (metis div_mult_mod_eq)
    then show ?thesis using True same ne by (simp add: is_free_def allocated_def Let_def bit_free_used[OF bb] del: BPB_def)
  next
    case False
    then show ?thesis using same ne by (auto simp: is_free_def allocated_def Let_def simp del: BPB_def)
  qed
qed

section \<open>The operations\<close>

lemma wp_bzero:
  fixes s :: "'x kfs_scheme"
  assumes x: "txn d pid s x" and n: "n \<notin> t_open x" "n \<notin> log_region (l_start s)" "n \<notin> t_dirty x"
    and room: "card (t_log x \<union> t_open x) < NBUF" "card (t_log x) < LOGBLOCKS"
    and k: "\<And>t. txn d pid t (x\<lparr>t_view := (t_view x)(n := replicate BSIZE 0), t_log := insert n (t_log x)\<rparr>) \<Longrightarrow> log_frame s t \<Longrightarrow> Q () t"
  shows "wp (bzero d n) Q s"
  unfolding bzero_def
  by (rule tx.update_block[OF x n room, of "\<lambda>_. replicate BSIZE 0"]) (simp, rule k)

lemma find_least: "find P [0..<n] = Some i \<Longrightarrow> i < n \<and> P i \<and> (\<forall>j<i. \<not> P j)"
  by (auto simp: find_Some_iff)

lemma wp_balloc_scan:
  fixes s :: "'x kfs_scheme"
  assumes "txn d pid s x" and "t_open x = {}" and "card (t_log x) + 1 < LOGBLOCKS"
    and "bitmap_ok (l_start s) (sb s) (t_view x)" and "\<forall>b<k * BPB. b < unat (sb_size (sb s)) \<longrightarrow> \<not> is_free (t_view x) (sb s) b"
    and "unat (sb_size (sb s)) \<le> K * BPB" and "(K - 1) * BPB < unat (sb_size (sb s)) \<or> K = 0"
  shows "wp (balloc_scan d (map (\<lambda>k. k * BPB) [k..<K])) (\<lambda>r t. log_frame s t \<and>
    (r = 0 \<and> txn d pid t x \<and> (\<forall>b<unat (sb_size (sb s)). \<not> is_free (t_view x) (sb s) b) \<or>
     (\<exists>b<unat (sb_size (sb s)). is_free (t_view x) (sb s) b \<and> (\<forall>c<b. \<not> is_free (t_view x) (sb s) c) \<and>
       r = of_nat b \<and> txn d pid t (allocated (sb s) b x)))) s"
  using assms
proof (induction "K - k" arbitrary: k s)
  case 0
  then have "K \<le> k" by simp
  then have "K * BPB \<le> k * BPB" by (rule mult_le_mono1)
  then have "b < k * BPB" if "b < unat (sb_size (sb s))" for b using 0(7) that by linarith
  then show ?case using 0 by (simp add: wp_ret)
next
  case (Suc m)
  let ?sb = "sb s" and ?V = "t_view x"
  let ?N = "unat (sb_size ?sb)"
  let ?bb = "BBLOCK (of_nat (k * BPB)) ?sb"
  let ?Q = "\<lambda>r t. log_frame s t \<and> (r = 0 \<and> txn d pid t x \<and> (\<forall>b<?N. \<not> is_free ?V ?sb b) \<or>
     (\<exists>b<?N. is_free ?V ?sb b \<and> (\<forall>c<b. \<not> is_free ?V ?sb c) \<and> r = of_nat b \<and> txn d pid t (allocated ?sb b x)))"
  have kK: "k < K" using Suc(2) by simp
  then have "k * BPB \<le> (K - 1) * BPB" by (intro mult_le_mono1) simp
  then have kN: "k * BPB < ?N" using Suc.prems(7) kK by linarith
  have N: "?N < 2 ^ 32" using unat_less_2p[of "sb_size ?sb"] by simp
  have blk: "BBLOCK (of_nat (k * BPB + bi)) ?sb = ?bb" if "bi < BPB" "k * BPB + bi < ?N" for bi
  proof (subst BBLOCK_same)
    show "k * BPB + bi < 2 ^ 32" "k * BPB < 2 ^ 32" using that N kN by linarith+
    show "(k * BPB + bi) div BPB = k * BPB div BPB" using that(1) by simp
  qed
  have fr: "is_free ?V ?sb (k * BPB + bi) \<longleftrightarrow> bit_free (?V ?bb) bi" if "bi < BPB" "k * BPB + bi < ?N" for bi
    using blk[OF that] that(1) by (simp add: is_free_def del: BPB_def)
  have bbr: "?bb \<notin> log_region (l_start s)" using Suc.prems(4) kN unfolding bitmap_ok_def by blast
  have dr: "t_dirty x = {}" using Suc.prems(1,2) by (auto simp: txn_def)
  have cl: "card (t_log x) < NBUF" "card (insert ?bb (t_log x)) < NBUF" "card (insert ?bb (t_log x)) < LOGBLOCKS"
    using Suc.prems(3) txn_log_card[OF Suc.prems(1)] by (simp_all add: card_insert_if)
  have go: "wp (case find (bit_free (b_data buf)) [0..<min BPB (?N - k * BPB)] of
       Some bi \<Rightarrow> bind (upd_buf i (\<lambda>x. x\<lparr>b_data := set_bit_used bi (b_data x)\<rparr>)) (\<lambda>_. bind (log_write i) (\<lambda>_.
         bind (brelse i) (\<lambda>_. bind (bzero d (of_nat (k * BPB + bi))) (\<lambda>_. ret (of_nat (k * BPB + bi))))))
     | None \<Rightarrow> bind (brelse i) (\<lambda>_. balloc_scan d (map (\<lambda>k. k * BPB) [Suc k..<K]))) ?Q t"
    if t: "txn d pid t (x\<lparr>t_open := insert ?bb (t_open x)\<rparr>)" "log_frame s t" "handle d t i ?bb" "b_data buf = ?V ?bb" for t i buf
  proof (cases "find (bit_free (b_data buf)) [0..<min BPB (?N - k * BPB)]")
    case None
    have "\<not> bit_free (?V ?bb) bi" if "bi < BPB" "k * BPB + bi < ?N" for bi
      using None that t(4) by (auto simp: find_None_iff simp del: BPB_def)
    then have nf: "\<not> is_free ?V ?sb b" if "b < Suc k * BPB" "b < ?N" for b
      using Suc.prems(5) fr[of "b - k * BPB"] that by (cases "b < k * BPB") (auto simp del: BPB_def)
    have "wp (balloc_scan d (map (\<lambda>k. k * BPB) [Suc k..<K])) ?Q u" if u: "txn d pid u x" "log_frame t u" for u
    proof -
      have f: "log_frame s u" by (rule log_frame_trans[OF t(2) u(2)])
      have e: "sb u = sb s" "l_start u = l_start s" using log_frame_fs[OF f] log_frameD[OF f] by simp_all
      have "\<forall>b<Suc k * BPB. b < unat (sb_size (sb u)) \<longrightarrow> \<not> is_free (t_view x) (sb u) b" using nf unfolding e by blast
      from Suc(1)[OF _ u(1) Suc.prems(2,3) _ this, unfolded e] Suc(2) Suc.prems(4,6,7)
      have "wp (balloc_scan d (map (\<lambda>k. k * BPB) [Suc k..<K])) (\<lambda>r t. log_frame u t \<and>
        (r = 0 \<and> txn d pid t x \<and> (\<forall>b<?N. \<not> is_free ?V ?sb b) \<or>
        (\<exists>b<?N. is_free ?V ?sb b \<and> (\<forall>c<b. \<not> is_free ?V ?sb c) \<and> r = of_nat b \<and> txn d pid t (allocated ?sb b x)))) u" by simp
      then show ?thesis by (rule wp_mono) (use log_frame_trans[OF f] in blast)
    qed
    then have "wp (brelse i) (\<lambda>_. wp (balloc_scan d (map (\<lambda>k. k * BPB) [Suc k..<K])) ?Q) t"
      by (intro tx.close_block[OF t(1,3)]) (use Suc.prems(2) dr in simp_all)
    then show ?thesis unfolding None option.case wp_bind_fun .
  next
    case (Some bi)
    then have bi: "bi < BPB" "k * BPB + bi < ?N" "bit_free (?V ?bb) bi" "\<forall>j<bi. \<not> bit_free (?V ?bb) j"
      using find_least[OF Some] t(4) by auto
    let ?b = "k * BPB + bi"
    have fb: "is_free ?V ?sb ?b" using fr[OF bi(1,2)] bi(3) by simp
    have low: "\<not> is_free ?V ?sb c" if "c < ?b" for c
      using Suc.prems(5) fr[of "c - k * BPB"] bi that by (cases "c < k * BPB") (auto simp del: BPB_def)
    have r: "of_nat ?b \<notin> log_region (l_start s)" "of_nat ?b \<noteq> ?bb"
      using Suc.prems(4) bi(2) fb kN unfolding bitmap_ok_def by metis+
    let ?y = "x\<lparr>t_view := ?V(?bb := set_bit_used bi (?V ?bb)), t_log := insert ?bb (t_log x)\<rparr>"
    have "?y\<lparr>t_view := (t_view ?y)(of_nat ?b := replicate BSIZE 0), t_log := insert (of_nat ?b) (t_log ?y)\<rparr> = allocated ?sb ?b x"
      using blk[OF bi(1,2)] bi(1) by (simp add: allocated_def Let_def del: BPB_def)
    note al = this
    have z: "wp (bzero d (of_nat ?b)) (\<lambda>_. wp (ret (of_nat ?b)) ?Q) u" if u: "txn d pid u ?y" "log_frame t u" for u
    proof (rule wp_bzero[OF u(1)])
      have f: "log_frame s u" by (rule log_frame_trans[OF t(2) u(2)])
      show "of_nat ?b \<notin> log_region (l_start u)" using r(1) log_frameD(1)[OF f] by simp
      show "of_nat ?b \<notin> t_open ?y" "of_nat ?b \<notin> t_dirty ?y" "card (t_log ?y \<union> t_open ?y) < NBUF" "card (t_log ?y) < LOGBLOCKS"
        using Suc.prems(2) dr cl by simp_all
      fix v assume v: "txn d pid v (?y\<lparr>t_view := (t_view ?y)(of_nat ?b := replicate BSIZE 0), t_log := insert (of_nat ?b) (t_log ?y)\<rparr>)" "log_frame u v"
      show "wp (ret (of_nat ?b)) ?Q v"
        unfolding wp_ret using v(1)[unfolded al] log_frame_trans[OF f v(2)] bi(2) fb low by blast
    qed
    have "wp (bind (upd_buf i (\<lambda>x. x\<lparr>b_data := set_bit_used bi (b_data x)\<rparr>)) (\<lambda>_. bind (log_write i) (\<lambda>_. brelse i)))
       (\<lambda>_. wp (bzero d (of_nat ?b)) (\<lambda>_. wp (ret (of_nat ?b)) ?Q)) t"
      by (rule tx.finish_update[OF t(1,3)]) (use Suc.prems(2,3) dr bbr log_frameD(1)[OF t(2)] z in \<open>simp_all del: BPB_def of_nat_mult of_nat_add\<close>)
    then show ?thesis unfolding Some option.case wp_bind_fun .
  qed
  have l: "map (\<lambda>k. k * BPB) [k..<K] = k * BPB # map (\<lambda>k. k * BPB) [Suc k..<K]" using kK by (simp add: upt_conv_Cons)
  show ?case
    unfolding l balloc_scan.simps wp_bind[of "gets _"] wp_gets
    by (rule tx.open_block[OF Suc.prems(1)]) (use Suc.prems(2) cl(1) in simp, use Suc.prems(2) cl(1) in simp, rule go)
qed

section \<open>A file system to start from\<close>

text \<open>A disk of zeroes but for its bitmap, in which the blocks 0 to 47 are in use.\<close>

definition fs_disk :: "u32 \<Rightarrow> bytes" where
  "fs_disk n = (if n = 45 then replicate 6 255 @ replicate 1018 0 else replicate 1024 0)"

definition fs_state :: kfs where
  "fs_state = fs_demo\<lparr>dblocks := fs_disk\<rparr>"

lemma fs_state_fields:
  "length (bufs fs_state) = NBUF" "\<forall>j<NBUF. unused_buf (bufs fs_state ! j)" "dblocks fs_state = fs_disk" "ready fs_state 1"
  "l_start fs_state = 2" "l_dev fs_state = 1" "l_n fs_state = 0" "l_outstanding fs_state = 0" "l_committing fs_state = 0"
  "l_block fs_state = replicate 30 0" "held fs_state = {}"
  using bio_demo_fields
  by (simp_all add: fs_state_def fs_demo_def log_demo_def klog.defs kbio.defs ready_def in_proc_def ptable_ok_def del: NBUF_def)

lemma length_fs_disk: "length (fs_disk n) = BSIZE"
  by (simp add: fs_disk_def)

lemma fs_started:
  "\<exists>t. binit fs_state = Done () t \<and> idle 1 1 t fs_disk \<and> sb t = sb fs_demo \<and> itable t = itable fs_demo \<and> l_start t = 2 \<and> held t = {}"
proof -
  obtain t where t: "binit fs_state = Done () t" "linked_upto NBUF t" "only_cache fs_state t"
    using binit_links[OF fs_state_fields(1,2)] by blast
  obtain bs hp hn where e: "t = fs_state\<lparr>bufs := bs, head_prev := hp, head_next := hn\<rparr>" using t(3) by (auto simp: only_cache_def)
  have f: "dblocks t = fs_disk" "l_start t = 2" "l_dev t = 1" "l_n t = 0" "l_outstanding t = 0" "l_committing t = 0"
    "l_block t = replicate 30 0" "held t = {}" "sb t = sb fs_demo" "itable t = itable fs_demo" "ready t 1"
    using fs_state_fields by (simp_all add: e ready_def in_proc_def ptable_ok_def fs_state_def)
  have "(1 :: u32) \<noteq> 0" by simp
  note l = linked_empty[OF t(2) this, unfolded f(1), OF allI, OF length_fs_disk]
  have "head_n (fs_disk 2) = 0" by (simp add: fs_disk_def head_n_zero)
  then have "idle 1 1 t fs_disk" using l f by (simp add: idle_def cst_def)
  then show ?thesis using t(1) f by blast
qed

section \<open>Properties\<close>

lemma txn_disk: "txn d pid s x \<Longrightarrow> t_disk x = dblocks s"
  using cst_disk[of d s pid "tcache pid x"] by (simp add: txn_def tcache_def)

lemma ceil_blocks: "N \<le> (N + BPB - 1) div BPB * BPB" "((N + BPB - 1) div BPB - 1) * BPB < N \<or> (N + BPB - 1) div BPB = 0"
proof -
  have p: "0 < BPB" by simp
  have e: "(N + BPB - 1) div BPB * BPB + (N + BPB - 1) mod BPB = N + BPB - 1" "(N + BPB - 1) mod BPB < BPB"
    by (rule div_mult_mod_eq) (rule mod_less_divisor[OF p])
  then show "N \<le> (N + BPB - 1) div BPB * BPB" by linarith
  have "((N + BPB - 1) div BPB - 1) * BPB = (N + BPB - 1) div BPB * BPB - BPB" by (simp add: diff_mult_distrib)
  then show "((N + BPB - 1) div BPB - 1) * BPB < N \<or> (N + BPB - 1) div BPB = 0" using e p by (cases "N = 0") (simp, linarith)
qed

text \<open>C33: \<open>balloc\<close> returns. If every block of the file system is in use it gives 0 and changes nothing. Otherwise it gives the
  first free block, marks it and no other block as used, fills it with zeroes, and changes no other block; both changed blocks are
  recorded in the log and nothing is written to disk.\<close>

theorem balloc_takes_free_block:
  fixes s :: "'x kfs_scheme"
  assumes x: "txn d pid s x" and o: "t_open x = {}" and room: "card (t_log x) + 1 < LOGBLOCKS"
    and ok: "bitmap_ok (l_start s) (sb s) (t_view x)"
  shows "\<exists>r t y. balloc d s = Done r t \<and> txn d pid t y \<and> t_open y = {} \<and> dblocks t = dblocks s \<and>
    (if \<forall>b<unat (sb_size (sb s)). \<not> is_free (t_view x) (sb s) b then r = 0 \<and> y = x
     else unat r < unat (sb_size (sb s)) \<and> is_free (t_view x) (sb s) (unat r) \<and> (\<forall>c<unat r. \<not> is_free (t_view x) (sb s) c) \<and>
       t_view y r = replicate BSIZE 0 \<and> t_log y = {r, BBLOCK r (sb s)} \<union> t_log x \<and>
       (\<forall>b<unat (sb_size (sb s)). is_free (t_view y) (sb s) b \<longleftrightarrow> is_free (t_view x) (sb s) b \<and> b \<noteq> unat r) \<and>
       (\<forall>m. m \<noteq> r \<and> m \<noteq> BBLOCK r (sb s) \<longrightarrow> t_view y m = t_view x m))"
proof -
  let ?N = "unat (sb_size (sb s))" and ?V = "t_view x" and ?B = "sb s"
  obtain r t where b: "balloc d s = Done r t" and c: "r = 0 \<and> txn d pid t x \<and> (\<forall>b<?N. \<not> is_free ?V ?B b) \<or>
     (\<exists>b<?N. is_free ?V ?B b \<and> (\<forall>c<b. \<not> is_free ?V ?B c) \<and> r = of_nat b \<and> txn d pid t (allocated ?B b x))"
    using wp_balloc_scan[OF x o room ok, of 0 "(?N + BPB - 1) div BPB"] ceil_blocks[of ?N]
    unfolding balloc_def wp_iff by (auto simp del: BPB_def)
  show ?thesis
  proof (cases "\<forall>b<?N. \<not> is_free ?V ?B b")
    case True
    then have "r = 0" "txn d pid t x" using c by auto
    then show ?thesis using b o True txn_disk[OF x] txn_disk[of d pid t x] by auto
  next
    case False
    then obtain n where n: "n < ?N" "is_free ?V ?B n" "\<forall>c<n. \<not> is_free ?V ?B c" "r = of_nat n" "txn d pid t (allocated ?B n x)"
      using c by blast
    have un: "unat r = n" using n(1,4) unat_less_2p[of "sb_size ?B"] by (simp add: unat_of_nat_small)
    have al: "t_open (allocated ?B n x) = {}" "t_disk (allocated ?B n x) = t_disk x" "t_view (allocated ?B n x) r = replicate BSIZE 0"
      "t_log (allocated ?B n x) = {r, BBLOCK r ?B} \<union> t_log x" "\<forall>m. m \<noteq> r \<and> m \<noteq> BBLOCK r ?B \<longrightarrow> t_view (allocated ?B n x) m = ?V m"
      using o n(4) by (auto simp: allocated_def Let_def)
    have "\<forall>b<?N. is_free (t_view (allocated ?B n x)) ?B b \<longleftrightarrow> is_free ?V ?B b \<and> b \<noteq> unat r"
      using is_free_allocated[OF ok tx.view_size[OF x] n(1,2)] un by blast
    then show ?thesis using b n al un False txn_disk[OF x] txn_disk[OF n(5)] by auto
  qed
qed

lemma log_region_2: "m \<in> log_region 2 \<Longrightarrow> unat m \<le> 32"
proof -
  assume "m \<in> log_region 2"
  then consider "m = 2" | i where "i < 30" "m = 2 + of_nat i + 1" by (auto simp: log_region_def)
  then show ?thesis
  proof cases
    case 2
    then have "m = of_nat (i + 3)" by simp
    then show ?thesis using 2(1) unat_of_nat_small[of "i + 3", where 'a = 32] by simp
  qed simp
qed

lemma fs_disk_free:
  assumes "b < 2000"
  shows "BBLOCK (of_nat b) (sb fs_demo) = 45" and "is_free fs_disk (sb fs_demo) b \<longleftrightarrow> 48 \<le> b"
proof -
  have "BBLOCK (of_nat b) (sb fs_demo) = BBLOCK (of_nat 0) (sb fs_demo)" using assms by (subst BBLOCK_same) simp_all
  then show e: "BBLOCK (of_nat b) (sb fs_demo) = 45" by (simp add: BBLOCK_def fs_demo_def klog.defs)
  have "bit (255 :: u8) (b mod 8)"
  proof -
    have m: "(255 :: u8) = mask 8" by (simp add: mask_eq_exp_minus_1)
    show ?thesis unfolding m bit_mask_iff by simp
  qed
  moreover have "(replicate 6 255 @ replicate 1018 0 :: bytes) ! (b div 8) = (if b div 8 < 6 then 255 else 0)"
    using assms by (simp add: nth_append)
  ultimately show "is_free fs_disk (sb fs_demo) b \<longleftrightarrow> 48 \<le> b"
    using assms by (auto simp: is_free_def e fs_disk_def bit_free_iff)
qed

lemma fs_disk_ok: "bitmap_ok 2 (sb fs_demo) fs_disk"
proof -
  have size: "unat (sb_size (sb fs_demo)) = 2000" by (simp add: fs_demo_def klog.defs)
  have "(45 :: u32) \<notin> log_region 2" using log_region_2[of 45] by auto
  moreover have "of_nat b \<notin> log_region 2 \<and> (45 :: u32) \<noteq> of_nat b" if "48 \<le> b" "b < 2000" for b
  proof -
    have u: "unat (of_nat b :: u32) = b" using that(2) by (simp add: unat_of_nat_small)
    have "(45 :: u32) \<noteq> of_nat b"
    proof
      assume "(45 :: u32) = of_nat b"
      then have "unat (45 :: u32) = b" using u by simp
      then show False using that(1) by simp
    qed
    then show ?thesis using u that(1) log_region_2[of "of_nat b"] by auto
  qed
  ultimately show ?thesis unfolding bitmap_ok_def size by (simp add: fs_disk_free)
qed

lemma fs_in_txn:
  "\<exists>s t W. binit fs_state = Done () s \<and> begin_op s = Done () t \<and> txn 1 1 t (fresh fs_disk W) \<and> sb t = sb fs_demo \<and>
     itable t = itable fs_demo \<and> l_start t = 2 \<and> held t = {}"
proof -
  obtain s where s: "binit fs_state = Done () s" "idle 1 1 s fs_disk" "sb s = sb fs_demo" "itable s = itable fs_demo" "l_start s = 2" "held s = {}"
    using fs_started by blast
  let ?t = "s\<lparr>l_outstanding := 1\<rparr>"
  have "begin_op s = Done () ?t \<and> txn 1 1 ?t (fresh fs_disk (wtrace s))"
    using wp_begin_op[OF s(2), of "\<lambda>_ u. u = ?t \<and> txn 1 1 u (fresh fs_disk (wtrace s))"] unfolding wp_unit_iff by auto
  moreover have "sb ?t = sb fs_demo" "itable ?t = itable fs_demo" "l_start ?t = 2" "held ?t = {}" using s by simp_all
  ultimately show ?thesis using s(1) by blast
qed

theorem balloc_takes_free_block_witness:
  "\<exists>s t u. binit fs_state = Done () s \<and> begin_op s = Done () t \<and> balloc 1 t = Done 48 u"
proof -
  obtain s t W where s: "binit fs_state = Done () s" "begin_op s = Done () t" "sb t = sb fs_demo" "l_start t = 2"
    and t: "txn 1 1 t (fresh fs_disk W)" using fs_in_txn by blast
  let ?x = "fresh fs_disk W"
  have size: "unat (sb_size (sb fs_demo)) = 2000" by (simp add: fs_demo_def klog.defs)
  have h: "t_open ?x = {}" "card (t_log ?x) + 1 < LOGBLOCKS" "bitmap_ok (l_start t) (sb t) (t_view ?x)"
    using fs_disk_ok s(3,4) by (simp_all add: fresh_def)
  have f: "sb t = sb fs_demo" "t_view ?x = fs_disk" using s(3) by (simp_all add: fresh_def)
  have ex: "\<not> (\<forall>b<2000. \<not> is_free fs_disk (sb fs_demo) b)" using fs_disk_free(2)[of 48] by (auto intro!: exI[of _ 48])
  obtain r u where r: "balloc 1 t = Done r u" and ur: "unat r < 2000" "is_free fs_disk (sb fs_demo) (unat r)"
      "\<forall>c<unat r. \<not> is_free fs_disk (sb fs_demo) c"
    using balloc_takes_free_block[OF t h, unfolded f size if_not_P[OF ex]] by blast
  have "is_free fs_disk (sb fs_demo) 48" by (simp add: fs_disk_free(2))
  then have "48 \<le> unat r" "\<not> 48 < unat r" using fs_disk_free(2)[OF ur(1)] ur(2,3) by blast+
  then have "unat r = unat (48 :: u32)" by simp
  then have "r = 48" by (rule unsigned_word_eqI)
  then show ?thesis using s(1,2) r by blast
qed

text \<open>C34: \<open>bfree\<close> on a block that is free already panics. On a block in use it returns, the block is free, and the state of every other
  block of the file system is as before, as are all blocks but the one of the bitmap; that one is recorded in the log and nothing is
  written to disk.\<close>

theorem bfree_frees_block:
  fixes s :: "'x kfs_scheme"
  assumes x: "txn d pid s x" and o: "t_open x = {}" and room: "card (t_log x) < LOGBLOCKS"
    and b: "unat b < unat (sb_size (sb s))" "BBLOCK b (sb s) \<notin> log_region (l_start s)"
  shows "if is_free (t_view x) (sb s) (unat b) then bfree d b s = Panic ''freeing free block''
    else \<exists>t y. bfree d b s = Done () t \<and> txn d pid t y \<and> t_open y = {} \<and> t_log y = insert (BBLOCK b (sb s)) (t_log x) \<and> dblocks t = dblocks s \<and>
      (\<forall>c<unat (sb_size (sb s)). is_free (t_view y) (sb s) c \<longleftrightarrow> is_free (t_view x) (sb s) c \<or> c = unat b) \<and>
      (\<forall>m. m \<noteq> BBLOCK b (sb s) \<longrightarrow> t_view y m = t_view x m)"
proof -
  let ?bb = "BBLOCK b (sb s)" and ?V = "t_view x" and ?bi = "unat b mod BPB"
  have dr: "t_dirty x = {}" using x o by (auto simp: txn_def)
  have "wp (bread d ?bb) (\<lambda>i t. txn d pid t (x\<lparr>t_open := insert ?bb (t_open x)\<rparr>) \<and> log_frame s t \<and> handle d t i ?bb) s"
    by (rule txn_read[OF x]) (use o room in simp_all)
  then obtain i t where t: "bread d ?bb s = Done i t" "txn d pid t (x\<lparr>t_open := insert ?bb (t_open x)\<rparr>)" "log_frame s t" "handle d t i ?bb"
    unfolding wp_iff by blast
  have "wp (the_buf i) (\<lambda>u t'. t' = t \<and> b_data u = ?V ?bb) t" by (rule tx.look_law[OF t(2,4)]) simp
  then obtain u where u: "the_buf i t = Done u t" "b_data u = ?V ?bb" unfolding wp_iff by blast
  have fr: "is_free ?V (sb s) (unat b) \<longleftrightarrow> bit_free (?V ?bb) ?bi" by (simp add: is_free_def)
  have run: "bfree d b s = (if bit_free (?V ?bb) ?bi then Panic ''freeing free block''
      else bind (upd_buf i (\<lambda>x. x\<lparr>b_data := set_bit_free ?bi (b_data x)\<rparr>)) (\<lambda>_. bind (log_write i) (\<lambda>_. brelse i)) t)"
    by (simp add: bfree_def bind_def[of "bread d ?bb"] bind_def[of "the_buf i"] t(1) u Let_def del: BPB_def)
  show ?thesis
  proof (cases "is_free ?V (sb s) (unat b)")
    case True
    then show ?thesis using run fr by simp
  next
    case False
    let ?y = "x\<lparr>t_view := ?V(?bb := set_bit_free ?bi (?V ?bb)), t_log := insert ?bb (t_log x)\<rparr>"
    have "wp (bind (upd_buf i (\<lambda>x. x\<lparr>b_data := set_bit_free ?bi (b_data x)\<rparr>)) (\<lambda>_. bind (log_write i) (\<lambda>_. brelse i)))
        (\<lambda>_ w. txn d pid w ?y) t"
      by (rule tx.finish_update[OF t(2,4)]) (use o dr room b(2) log_frameD(1)[OF t(3)] in simp_all)
    then obtain w where w: "bfree d b s = Done () w" "txn d pid w ?y" using run fr False unfolding wp_unit_iff by auto
    have sz: "unat (sb_size (sb s)) < 2 ^ 32" using unat_less_2p[of "sb_size (sb s)"] by simp
    have len: "?bi < 8 * length (?V ?bb)" using tx.view_size[OF x, of ?bb] by simp
    have "is_free (t_view ?y) (sb s) c \<longleftrightarrow> is_free ?V (sb s) c \<or> c = unat b" if c: "c < unat (sb_size (sb s))" for c
    proof -
      have "BBLOCK (of_nat c) (sb s) = BBLOCK (of_nat (unat b)) (sb s) \<longleftrightarrow> c div BPB = unat b div BPB"
        by (rule BBLOCK_same) (use b(1) c sz in linarith)+
      moreover have "c div BPB = unat b div BPB \<Longrightarrow> c mod BPB = ?bi \<longleftrightarrow> c = unat b" by (metis div_mult_mod_eq)
      ultimately show ?thesis by (auto simp: is_free_def bit_free_free[OF len] simp del: BPB_def)
    qed
    moreover have "dblocks w = dblocks s" using txn_disk[OF w(2)] txn_disk[OF x] by simp
    ultimately show ?thesis using w o False by (intro if_not_P[THEN iffD2]) auto
  qed
qed

theorem bfree_frees_block_witness:
  "\<exists>s t u. binit fs_state = Done () s \<and> begin_op s = Done () t \<and> bfree 1 46 t = Done () u \<and> bfree 1 60 t = Panic ''freeing free block''"
proof -
  obtain s t W where s: "binit fs_state = Done () s" "begin_op s = Done () t" "sb t = sb fs_demo" "l_start t = 2"
    and t: "txn 1 1 t (fresh fs_disk W)" using fs_in_txn by blast
  let ?x = "fresh fs_disk W"
  have x: "t_open ?x = {}" "card (t_log ?x) < LOGBLOCKS" "t_view ?x = fs_disk" by (simp_all add: fresh_def)
  have h: "unat b < unat (sb_size (sb t))" "BBLOCK b (sb t) \<notin> log_region (l_start t)" if "unat b < 2000" for b
    using fs_disk_free(1)[OF that] log_region_2[of 45] that s(3,4) by (auto simp: fs_demo_def klog.defs)
  have "is_free fs_disk (sb fs_demo) (unat (60 :: u32))" "\<not> is_free fs_disk (sb fs_demo) (unat (46 :: u32))"
    using fs_disk_free(2)[of 60] fs_disk_free(2)[of 46] by simp_all
  then show ?thesis using bfree_frees_block[OF t x(1,2) h, of 60] bfree_frees_block[OF t x(1,2) h, of 46] s x(3) by auto
qed

end
