(* ===== verification/Atomic.thy ===== *)
theory Atomic
  imports Fsblocks
begin

text \<open>
  A system call as a transaction: \<open>begin_op\<close>, changes to blocks through the interface of \<open>Txn\<close>, \<open>end_op\<close>. The last
  \<open>end_op\<close> commits, and a crash at any of the block writes leaves all of the changes or none.
\<close>

section \<open>The commit of a transaction\<close>

text \<open>The block writes of a commit, none when nothing was recorded.\<close>

definition end_writes :: "'x klog_scheme \<Rightarrow> (u32 \<Rightarrow> bytes) \<Rightarrow> (u32 \<times> bytes) list" where
  "end_writes s V = (if 0 < l_n s then commit_writes (l_start s) (l_block s) (nat (l_n s)) V (V (l_start s)) else [])"

lemma apply_writes_cong:
  "(\<And>m. m \<notin> fst ` set ws \<Longrightarrow> V m = D m) \<Longrightarrow> apply_writes V ws = apply_writes D ws"
proof (induction ws arbitrary: V D)
  case (Cons w ws)
  obtain n b where w: "w = (n, b)" by (cases w)
  show ?case unfolding w apply_writes_Cons by (rule Cons.IH) (use Cons.prems w in auto)
qed auto

text \<open>What the disk holds once a transaction is committed.\<close>

lemma txn_end_writes:
  fixes s :: "'x klog_scheme"
  assumes x: "txn d pid s x" and o: "t_open x = {}" and h: "head_n (t_disk x (l_start s)) = 0"
  defines "ws \<equiv> end_writes s (t_view x)"
  shows "apply_writes (t_view x) ws = apply_writes (t_disk x) ws"
    and "m \<notin> log_region (l_start s) \<Longrightarrow> apply_writes (t_disk x) ws m = t_view x m"
    and "head_n (apply_writes (t_disk x) ws (l_start s)) = 0"
proof -
  let ?a = "l_start s" and ?bl = "l_block s" and ?n = "nat (l_n s)" and ?V = "t_view x" and ?D = "t_disk x"
  have d: "t_dirty x = {}" using x o by (auto simp: txn_def)
  then have out: "m \<notin> t_log x \<Longrightarrow> ?V m = ?D m" for m using x by (simp add: txn_def)
  have lg: "logged_ok ?a ?bl ?n" and st: "set (take ?n ?bl) = t_log x" and n0: "0 \<le> l_n s" using x by (simp_all add: txn_def)
  have n: "?n \<le> LOGBLOCKS" "?n \<le> length ?bl" using lg by (simp_all add: logged_ok_def)
  have mem: "fst ` set (install_writes ?bl ?n ?V) = t_log x"
    using arg_cong[OF map_nth_take[OF n(2)], of set] by (simp add: install_writes_def image_image st)
  have empty: "t_log x = {}" if "\<not> 0 < l_n s" using st that n0 by auto
  have sv: "?V ?a = ?D ?a" by (rule out) (use lg st start_in_region in \<open>unfold logged_ok_def, blast\<close>)
  have hl: "length (?V ?a) = BSIZE" by (rule tx.view_size[OF x])
  show "apply_writes ?V ws = apply_writes ?D ws"
  proof (rule apply_writes_cong, rule out, rule notI)
    fix m assume m: "m \<notin> fst ` set ws" "m \<in> t_log x"
    then have "0 < l_n s" using empty by auto
    then show False using m mem by (auto simp: ws_def end_writes_def commit_writes_def)
  qed
  show "apply_writes ?D ws m = ?V m" if "m \<notin> log_region ?a" for m
  proof (cases "0 < l_n s")
    case True
    have ma: "m \<noteq> ?a" using that start_in_region by metis
    have "apply_writes ?D (log_writes ?a ?bl ?n ?V) m = ?D m" by (rule log_writes_out[OF n(1)]) (use that in simp)
    moreover have "apply_writes E (install_writes ?bl ?n ?V) m = (if m \<in> t_log x then ?V m else E m)" for E
      using install_writes_in[OF lg order_refl] install_writes_out[OF n(2)] st by auto
    ultimately show ?thesis
      using True ma out[of m] by (simp add: ws_def end_writes_def commit_writes_def apply_writes_append apply_writes_Cons)
  qed (use empty out in \<open>simp add: ws_def end_writes_def\<close>)
  show "head_n (apply_writes ?D ws ?a) = 0"
    using h hl n(1) by (simp add: ws_def end_writes_def commit_writes_def apply_writes_append apply_writes_Cons head_n_bytes)
qed

text \<open>Cut the writes of the commit anywhere: the disk recovers to the blocks before the transaction or after it.\<close>

lemma txn_crash:
  fixes s :: "'x klog_scheme"
  assumes x: "txn d pid s x" and o: "t_open x = {}" and h: "head_n (t_disk x (l_start s)) = 0"
    and k: "k \<le> length (end_writes s (t_view x))"
  shows "\<exists>E\<in>{t_disk x, t_view x}. recovers_to (l_start s) (apply_writes (t_disk x) (take k (end_writes s (t_view x)))) E"
proof -
  let ?a = "l_start s" and ?bl = "l_block s" and ?n = "nat (l_n s)" and ?V = "t_view x" and ?D = "t_disk x"
  have lg: "logged_ok ?a ?bl ?n" and st: "set (take ?n ?bl) = t_log x" using x by (simp_all add: txn_def)
  have d: "t_dirty x = {}" using x o by (auto simp: txn_def)
  then have cm: "committed ?bl ?n ?V ?D = ?V" using x by (auto simp: committed_def st txn_def fun_eq_iff)
  have sv: "?V ?a = ?D ?a" using d x lg st start_in_region[of ?a] unfolding txn_def logged_ok_def by blast
  then have hl: "length (?D ?a) = BSIZE" using tx.view_size[OF x, of ?a] by simp
  show ?thesis
  proof (cases "0 < l_n s")
    case True
    then have e: "end_writes s ?V = commit_writes ?a ?bl ?n ?V (?D ?a)" by (simp add: end_writes_def sv)
    have "k \<le> 2 * ?n + 2" using k by (simp add: e commit_writes_def log_writes_def install_writes_def)
    from crash_in_commit[where D = ?D and v = ?V, OF lg hl h this] show ?thesis unfolding e cm by (cases "k \<le> ?n") auto
  next
    case False
    then have "end_writes s ?V = []" by (simp add: end_writes_def)
    then show ?thesis using recovers_empty[where D = ?D and E = ?D, OF hl h] by auto
  qed
qed

lemma txn_can_commit:
  assumes x: "txn d pid s x" and o: "t_open x = {}" and c: "card (t_log x) < NBUF"
  shows "can_commit (l_start s) (l_block s) (nat (l_n s)) (tcache pid x)"
proof -
  have "{m. c_refs (tcache pid x) m \<noteq> 0} = t_log x" using o by (auto simp: tcache_def)
  then show ?thesis using x o c by (auto simp: can_commit_def txn_def tcache_def of_bool_def)
qed

lemma wp_commit_txn:
  fixes s :: "'x klog_scheme"
  assumes x: "txn d pid s x" and s': "s' = s\<lparr>l_outstanding := a, l_committing := b\<rparr>"
    and o: "t_open x = {}" and c: "card (t_log x) < NBUF" and h: "head_n (t_disk x (l_start s)) = 0"
  shows "wp commit (\<lambda>_ t. bio_frame (s'\<lparr>l_n := 0\<rparr>) t \<and> cst d t pid \<lparr>c_view = apply_writes (t_disk x) (end_writes s (t_view x)),
      c_disk = apply_writes (t_disk x) (end_writes s (t_view x)), c_trace = t_trace x @ end_writes s (t_view x),
      c_refs = (\<lambda>_. 0), c_owner = (\<lambda>_. None)\<rparr>) s'"
proof (cases "0 < l_n s")
  case True
  have f: "l_start s' = l_start s" "l_block s' = l_block s" "l_n s' = l_n s" "l_dev s' = d" using x by (simp_all add: s' txn_def)
  have c1: "cst d s' pid (tcache pid x)" using x by (simp add: s' txn_def cst_log_state)
  have "set (take (nat (l_n s)) (l_block s)) = t_log x" using x by (simp add: txn_def)
  then have "after_commit (l_start s) (l_block s) (nat (l_n s)) (tcache pid x) =
      \<lparr>c_view = apply_writes (t_disk x) (end_writes s (t_view x)),
      c_disk = apply_writes (t_disk x) (end_writes s (t_view x)), c_trace = t_trace x @ end_writes s (t_view x),
      c_refs = (\<lambda>_. 0), c_owner = (\<lambda>_. None)\<rparr>"
    using True o txn_end_writes(1)[OF x o h]
    by (simp add: after_commit_def tcache_def writes_cache_def unpinned_def end_writes_def fun_eq_iff)
  then show ?thesis using commit_step[of s' pid "tcache pid x"] c1 txn_can_commit[OF x o c] True unfolding f by simp
next
  case False
  then have n: "l_n s = 0" using x by (simp add: txn_def)
  then have "t_log x = {}" using x by (simp add: txn_def)
  moreover have "t_dirty x = {}" using x o by (auto simp: txn_def)
  ultimately have "t_view x = t_disk x" using x by (auto simp: txn_def)
  then have "tcache pid x = \<lparr>c_view = t_disk x, c_disk = t_disk x, c_trace = t_trace x, c_refs = (\<lambda>_. 0), c_owner = (\<lambda>_. None)\<rparr>"
    using o \<open>t_log x = {}\<close> by (simp add: tcache_def)
  moreover have "cst d s' pid (tcache pid x)" using x by (simp add: s' txn_def cst_log_state)
  moreover have "s'\<lparr>l_n := 0\<rparr> = s'" using n by (simp add: s')
  moreover have "wp commit Q s' = Q () s'" for Q using n by (simp add: s' commit_def wp_rules)
  ultimately show ?thesis by (simp add: n end_writes_def)
qed

text \<open>The last \<open>end_op\<close>: what it writes to the disk is the commit, and the system is idle on the new blocks.\<close>

lemma cst_woken: "cst d s pid c \<Longrightarrow> cst d (woken ch s) pid c"
  by (simp add: cst_def ready_woken) (simp add: woken_def)

lemma wp_end_op:
  fixes s :: "'x klog_scheme"
  assumes x: "txn d pid s x" and o: "t_open x = {}" and l: "l_outstanding s = 1" and c: "card (t_log x) < NBUF"
    and h: "head_n (t_disk x (l_start s)) = 0"
  shows "wp end_op (\<lambda>_ t. idle d pid t (apply_writes (t_disk x) (end_writes s (t_view x))) \<and> l_start t = l_start s \<and>
    wtrace t = t_trace x @ end_writes s (t_view x) \<and> klog.more t = klog.more s) s"
proof -
  let ?D = "apply_writes (t_disk x) (end_writes s (t_view x))" and ?W = "t_trace x @ end_writes s (t_view x)"
  let ?c = "\<lparr>c_view = ?D, c_disk = ?D, c_trace = ?W, c_refs = (\<lambda>_. 0), c_owner = (\<lambda>_. None)\<rparr>"
  have u: "LogLock \<notin> held s" "l_committing s = 0" "length (l_block s) = LOGBLOCKS" "l_dev s = d" using x by (simp_all add: txn_def)
  define s' where "s' = s\<lparr>l_outstanding := 0, l_committing := 1\<rparr>"
  have cm: "wp commit (\<lambda>_ t. bio_frame (s'\<lparr>l_n := 0\<rparr>) t \<and> cst d t pid ?c) s'" by (rule wp_commit_txn[OF x s'_def o c h])
  have fin: "wp (bind (acquire LogLock) (\<lambda>_. bind (modify (\<lambda>s. s\<lparr>l_committing := 0, l_ncommit := l_ncommit s + 1\<rparr>)) (\<lambda>_.
       bind (wakeup (Some ChanLog)) (\<lambda>_. release LogLock)))) (\<lambda>_ t. idle d pid t ?D \<and> l_start t = l_start s \<and>
       wtrace t = ?W \<and> klog.more t = klog.more s) t"
    if t: "bio_frame (s'\<lparr>l_n := 0\<rparr>) t" "cst d t pid ?c" for t
  proof -
    note f = bio_frame_log[OF t(1)]
    let ?t = "t\<lparr>held := insert LogLock (held t), l_committing := 0, l_ncommit := l_ncommit t + 1\<rparr>"
    have ct: "cst d ?t pid ?c" using t(2) by (simp add: cst_held_log cst_log_state)
    then have "ptable_ok ?t" by (simp add: cst_def ready_def in_proc_def)
    then have wk: "wakeup (Some ChanLog) ?t = Done () (woken ChanLog ?t)" by (simp add: wakeup_eq woken_def)
    let ?u = "(woken ChanLog ?t)\<lparr>held := held t - {LogLock}\<rparr>"
    have hl: "LogLock \<notin> held t" using u(1) by (simp add: f s'_def)
    have hw: "held (woken ChanLog ?t) = insert LogLock (held t)" by (simp add: woken_def)
    have cu: "cst d ?u pid ?c" using cst_held_log(2)[of d "woken ChanLog ?t"] cst_woken[OF ct] by (simp add: hw)
    have wt: "wtrace ?u = ?W" using cst_disk[OF cu] by simp
    have "klog.more t = klog.more s" using t(1) by (auto simp: bio_frame_def s'_def)
    then have rest: "l_dev ?u = d" "LogLock \<notin> held ?u" "l_committing ?u = 0" "l_outstanding ?u = 0" "l_n ?u = 0"
      "length (l_block ?u) = LOGBLOCKS" "l_start ?u = l_start s" "klog.more ?u = klog.more s"
      using f u by (simp_all add: woken_def s'_def)
    have "idle d pid ?u ?D" using cu rest(1-6) txn_end_writes(3)[OF x o h] unfolding idle_def wt rest(7) by blast
    moreover have "bind (acquire LogLock) (\<lambda>_. bind (modify (\<lambda>s. s\<lparr>l_committing := 0, l_ncommit := l_ncommit s + 1\<rparr>)) (\<lambda>_.
       bind (wakeup (Some ChanLog)) (\<lambda>_. release LogLock))) t = Done () ?u"
      using hl hw wk by (simp add: bind_def acquire_def release_def modify_def)
    ultimately show ?thesis using rest(7,8) wt unfolding wp_unit_iff by blast
  qed
  show ?thesis
    using u(1,2) l by (simp add: end_op_def wp_rules s'_def[symmetric]) (rule wp_mono[OF cm], elim conjE, rule fin)
qed

section \<open>Properties\<close>

text \<open>C1: a system call is atomic. Let \<open>body\<close> be any operation that, run inside a transaction, ends with no block open and with
  fewer blocks recorded than the cache has buffers. Then \<open>begin_op\<close>, \<open>body\<close> and \<open>end_op\<close> return; nothing is written to the disk but
  by the commit; afterwards the disk holds, outside the log, what the body saw at its end; and after a crash at any of the block
  writes \<open>initlog\<close> gives all blocks outside the log their old contents or all of them their new ones.\<close>

theorem transaction_atomic:
  fixes s :: "'x klog_scheme" and body :: "('x klog_scheme, unit) kfun"
  assumes s: "idle d pid s D"
    and body: "\<And>t. txn d pid t (fresh D (wtrace s)) \<Longrightarrow> t = s\<lparr>l_outstanding := 1\<rparr> \<Longrightarrow>
      wp body (\<lambda>_ u. \<exists>x. txn d pid u x \<and> t_disk x = D \<and> t_trace x = wtrace s \<and> t_open x = {} \<and> card (t_log x) < NBUF \<and> t_view x = V \<and>
        l_outstanding u = 1 \<and> l_start u = l_start s) t"
  shows "\<exists>w ws. bind begin_op (\<lambda>_. bind body (\<lambda>_. end_op)) s = Done () w \<and> wtrace w = wtrace s @ ws \<and>
    dblocks w = apply_writes D ws \<and> idle d pid w (dblocks w) \<and> (\<forall>m. m \<notin> log_region (l_start s) \<longrightarrow> dblocks w m = V m) \<and>
    (\<forall>k\<le>length ws. \<exists>E\<in>{D, V}. \<forall>(u :: 'x klog_scheme) pid' c'. cst d u pid' c' \<and> booted c' \<and> length (l_block u) = LOGBLOCKS \<and>
        dblocks u = apply_writes D (take k ws) \<longrightarrow>
      (\<exists>v. initlog d (l_start s) u = Done () v \<and> (\<forall>m. m \<notin> log_region (l_start s) \<longrightarrow> dblocks v m = E m)))"
proof -
  have h: "head_n (D (l_start s)) = 0" using s by (simp add: idle_def)
  obtain t where t: "body (s\<lparr>l_outstanding := 1\<rparr>) = Done () t" "\<exists>x. txn d pid t x \<and> t_disk x = D \<and> t_trace x = wtrace s \<and> t_open x = {} \<and>
        card (t_log x) < NBUF \<and> t_view x = V \<and> l_outstanding t = 1 \<and> l_start t = l_start s"
    and b: "begin_op s = Done () (s\<lparr>l_outstanding := 1\<rparr>)"
    using wp_begin_op[OF s, of "\<lambda>_ u. u = s\<lparr>l_outstanding := 1\<rparr> \<and> txn d pid u (fresh D (wtrace s))"] body
    unfolding wp_unit_iff by blast
  then obtain x where x: "txn d pid t x" "t_disk x = D" "t_trace x = wtrace s" "t_open x = {}" "card (t_log x) < NBUF" "t_view x = V"
    and l: "l_outstanding t = 1" "l_start t = l_start s" by blast
  let ?ws = "end_writes t V"
  obtain w where w: "end_op t = Done () w" "idle d pid w (apply_writes D ?ws)" "wtrace w = wtrace s @ ?ws"
    using wp_end_op[OF x(1,4) l(1) x(5)] h x(2,3,6) l(2) unfolding wp_unit_iff by auto
  have dw: "dblocks w = apply_writes D ?ws" using w(2) cst_disk unfolding idle_def by fastforce
  have out: "apply_writes D ?ws m = V m" if "m \<notin> log_region (l_start s)" for m
    using txn_end_writes(2)[OF x(1,4)] that h x(2,6) l(2) by simp
  have "\<forall>k\<le>length ?ws. \<exists>E\<in>{D, V}. \<forall>(u :: 'x klog_scheme) pid' c'. cst d u pid' c' \<and> booted c' \<and> length (l_block u) = LOGBLOCKS \<and>
        dblocks u = apply_writes D (take k ?ws) \<longrightarrow>
      (\<exists>v. initlog d (l_start s) u = Done () v \<and> (\<forall>m. m \<notin> log_region (l_start s) \<longrightarrow> dblocks v m = E m))"
  proof (intro allI impI)
    fix k assume "k \<le> length ?ws"
    then obtain E where E: "E \<in> {D, V}" "recovers_to (l_start s) (apply_writes D (take k ?ws)) E"
      using txn_crash[OF x(1,4), of k] h x(2,6) l(2) by auto
    have "\<exists>v. initlog d (l_start s) u = Done () v \<and> (\<forall>m. m \<notin> log_region (l_start s) \<longrightarrow> dblocks v m = E m)"
      if u: "cst d u pid' c'" "booted c'" "length (l_block u) = LOGBLOCKS" "dblocks u = apply_writes D (take k ?ws)"
      for u :: "'x klog_scheme" and pid' c'
      by (rule reboot_recovers[OF _ u(1-3)]) (use E(2) u(4) in simp)
    then show "\<exists>E\<in>{D, V}. \<forall>(u :: 'x klog_scheme) pid' c'. cst d u pid' c' \<and> booted c' \<and> length (l_block u) = LOGBLOCKS \<and>
        dblocks u = apply_writes D (take k ?ws) \<longrightarrow>
      (\<exists>v. initlog d (l_start s) u = Done () v \<and> (\<forall>m. m \<notin> log_region (l_start s) \<longrightarrow> dblocks v m = E m))" using E(1) by blast
  qed
  moreover have "bind begin_op (\<lambda>_. bind body (\<lambda>_. end_op)) s = Done () w" using b t(1) w(1) by (simp add: bind_def)
  ultimately show ?thesis using w dw out by auto
qed

theorem transaction_atomic_witness:
  "\<exists>s w ws. binit fs_state = Done () s \<and> bind begin_op (\<lambda>_. bind (bzero 1 45) (\<lambda>_. end_op)) s = Done () w \<and>
     wtrace w = wtrace s @ ws \<and> dblocks w 45 = replicate 1024 0 \<and> fs_disk 45 \<noteq> replicate 1024 0"
proof -
  obtain s where s: "binit fs_state = Done () s" "idle 1 1 s fs_disk" "l_start s = 2" using fs_started by blast
  have r: "(45 :: u32) \<notin> log_region 2" using log_region_2[of 45] by auto
  let ?V = "fs_disk(45 := replicate BSIZE 0)"
  have body: "wp (bzero 1 45) (\<lambda>_ u. \<exists>x. txn 1 1 u x \<and> t_disk x = fs_disk \<and> t_trace x = wtrace s \<and> t_open x = {} \<and> card (t_log x) < NBUF \<and>
      t_view x = ?V \<and> l_outstanding u = 1 \<and> l_start u = l_start s) t"
    if t: "txn 1 1 t (fresh fs_disk (wtrace s))" "t = s\<lparr>l_outstanding := 1\<rparr>" for t
  proof (rule wp_bzero[OF t(1)])
    fix u assume u: "txn 1 1 u ((fresh fs_disk (wtrace s))\<lparr>t_view := (t_view (fresh fs_disk (wtrace s)))(45 := replicate BSIZE 0),
      t_log := insert 45 (t_log (fresh fs_disk (wtrace s)))\<rparr>)" "log_frame t u"
    show "\<exists>x. txn 1 1 u x \<and> t_disk x = fs_disk \<and> t_trace x = wtrace s \<and> t_open x = {} \<and> card (t_log x) < NBUF \<and>
      t_view x = ?V \<and> l_outstanding u = 1 \<and> l_start u = l_start s"
      by (rule exI, rule conjI[OF u(1)]) (use log_frameD[OF u(2)] t(2) in \<open>simp add: fresh_def\<close>)
  qed (use r s(3) t(2) in \<open>simp_all add: fresh_def\<close>)
  obtain w ws where w: "bind begin_op (\<lambda>_. bind (bzero 1 45) (\<lambda>_. end_op)) s = Done () w" "wtrace w = wtrace s @ ws"
    "\<forall>m. m \<notin> log_region (l_start s) \<longrightarrow> dblocks w m = ?V m"
    using transaction_atomic[OF s(2) body] by blast
  have "fs_disk 45 ! 0 \<noteq> replicate 1024 (0 :: u8) ! 0" by (simp add: fs_disk_def nth_append)
  then have "fs_disk 45 \<noteq> replicate 1024 0" by metis
  moreover have "dblocks w 45 = replicate 1024 0" using w(3) r s(3) by simp
  ultimately show ?thesis using s(1) w by blast
qed

section \<open>A full log\<close>

text \<open>When as many blocks are in use as there are buffers, every buffer holds one of them.\<close>

lemma bread_no_room:
  assumes c: "cst d s pid c" and full: "card {m. c_refs c m \<noteq> 0} = NBUF" and n: "c_refs c n = 0"
  shows "bread d n s = Panic ''bget: no buffers''"
proof -
  have ok: "bio_ok d s" and cc: "c = cache_of d s" and lk: "BcacheLock \<notin> held s" using c by (auto simp: cst_def ready_def)
  obtain xs where xs: "lru s xs" "set xs = {0..<NBUF}" and len: "length (bufs s) = NBUF" and u: "uniq d s" using ok by (auto simp: bio_ok_def)
  let ?M = "{m. c_refs c m \<noteq> 0}" and ?f = "\<lambda>m. the (slot d s m)"
  have sl: "?f m < NBUF \<and> is_id d m (bufs s ! ?f m) \<and> b_refcnt (bufs s ! ?f m) \<noteq> 0" if "m \<in> ?M" for m
  proof -
    have "c_refs (cache_of d s) m \<noteq> 0" using that cc by simp
    then obtain i where i: "slot d s m = Some i" "b_refcnt (bufs s ! i) \<noteq> 0" by (cases "slot d s m") (auto simp: cache_of_def word_neq_0_iff_unat)
    then show ?thesis using slot_Some[OF i(1)] len by simp
  qed
  have "inj_on ?f ?M" by (rule inj_onI) (metis is_id_def sl)
  then have "card (?f ` ?M) = NBUF" using full by (simp add: card_image del: NBUF_def)
  moreover have "?f ` ?M \<subseteq> {0..<NBUF}" using sl by auto
  ultimately have all: "?f ` ?M = {0..<NBUF}" by (intro card_subset_eq) (simp_all del: NBUF_def)
  have "b_refcnt (bufs s ! i) \<noteq> 0 \<and> \<not> (b_dev (bufs s ! i) = d \<and> b_blockno (bufs s ! i) = n)" if "i < NBUF" for i
  proof -
    have "i \<in> ?f ` ?M" unfolding all using that by simp
    then obtain m where m: "m \<in> ?M" "i = ?f m" by (rule imageE)
    then have "m \<noteq> n" using n by auto
    then show ?thesis using sl[OF m(1)] m(2) by (auto simp: is_id_def)
  qed
  then show ?thesis by (intro bread_full[OF xs lk]) blast+
qed

text \<open>C37: the log admits as many blocks as the cache has buffers, and the commit needs one buffer more. When a transaction has recorded
  \<open>LOGBLOCKS\<close> blocks, its last \<open>end_op\<close> panics in \<open>bget\<close> before anything is written.\<close>

theorem full_transaction_panics:
  fixes s :: "'x klog_scheme"
  assumes x: "txn d pid s x" and o: "t_open x = {}" and l: "l_outstanding s = 1" and full: "card (t_log x) = LOGBLOCKS"
  shows "end_op s = Panic ''bget: no buffers''"
proof -
  have u: "LogLock \<notin> held s" "l_committing s = 0" "l_dev s = d" "logged_ok (l_start s) (l_block s) (nat (l_n s))"
    "set (take (nat (l_n s)) (l_block s)) = t_log x" using x by (simp_all add: txn_def)
  define s' where "s' = s\<lparr>l_outstanding := 0, l_committing := 1\<rparr>"
  have c: "cst d s' pid (tcache pid x)" using x by (simp add: s'_def txn_def cst_log_state)
  have n: "nat (l_n s) = 30" using txn_log_card[OF x] full by simp
  then have pos: "0 < l_n s'" "nat (l_n s') = 30" by (simp_all add: s'_def)
  have "{m. c_refs (tcache pid x) m \<noteq> 0} = t_log x" using o by (auto simp: tcache_def)
  then have cd: "card {m. c_refs (tcache pid x) m \<noteq> 0} = NBUF" using full by simp
  have "log_block (l_start s) 0 \<notin> t_log x" using u(4,5) log_block_in_region[of 0 "l_start s"] unfolding logged_ok_def by auto
  then have "c_refs (tcache pid x) (log_block (l_start s) 0) = 0" using o by (simp add: tcache_def)
  from bread_no_room[OF c cd this] have "write_log_block 0 s' = Panic ''bget: no buffers''"
    by (simp add: write_log_block_def bind_gets bind_Panic s'_def u(3))
  moreover have "[0..<30] = 0 # [1..<30 :: nat]" by (simp add: upt_conv_Cons)
  ultimately have "write_log s' = Panic ''bget: no buffers''" by (simp add: write_log_def bind_gets pos(2) bind_Panic)
  then have "commit s' = Panic ''bget: no buffers''" using pos(1) by (simp add: commit_def bind_gets bind_Panic)
  then show ?thesis using u(1,2) l by (simp add: end_op_def bind_def acquire_def release_def modify_def s'_def[symmetric])
qed

lemma foreach_bzero:
  fixes s :: "'x kfs_scheme"
  assumes "txn d pid s x" and "t_open x = {}" and "\<forall>n\<in>set ns. n \<notin> log_region (l_start s)" and "card (t_log x) + length ns \<le> LOGBLOCKS"
  shows "\<exists>t y. foreach ns (bzero d) s = Done () t \<and> log_frame s t \<and> txn d pid t y \<and> t_open y = {} \<and> t_log y = t_log x \<union> set ns"
  using assms
proof (induction ns arbitrary: s x)
  case Nil
  then show ?case by auto
next
  case (Cons n ns)
  let ?y = "x\<lparr>t_view := (t_view x)(n := replicate BSIZE 0), t_log := insert n (t_log x)\<rparr>"
  have "t_dirty x = {}" using Cons.prems(1,2) by (auto simp: txn_def)
  then have "wp (bzero d n) (\<lambda>_ t. txn d pid t ?y \<and> log_frame s t) s"
    by (intro wp_bzero[OF Cons.prems(1)]) (use Cons.prems in simp_all)
  then obtain t where t: "bzero d n s = Done () t" "txn d pid t ?y" "log_frame s t" unfolding wp_unit_iff by blast
  have "card (t_log ?y) + length ns \<le> LOGBLOCKS"
    using Cons.prems(4) txn_log_card[OF Cons.prems(1)] by (simp add: card_insert_if)
  then obtain u y where u: "foreach ns (bzero d) t = Done () u" "log_frame t u" "txn d pid u y" "t_open y = {}" "t_log y = t_log ?y \<union> set ns"
    using Cons.IH[OF t(2)] Cons.prems(2,3) log_frameD(1)[OF t(3)] by auto
  have "foreach (n # ns) (bzero d) s = Done () u" using t(1) u(1) by (simp add: bind_def)
  then show ?case using u log_frame_trans[OF t(3) u(2)] by auto
qed

theorem full_transaction_panics_witness:
  "\<exists>s t u. binit fs_state = Done () s \<and> begin_op s = Done () t \<and> foreach (map of_nat [50..<80]) (bzero 1) t = Done () u \<and>
     end_op u = Panic ''bget: no buffers''"
proof -
  obtain s where s: "binit fs_state = Done () s" "idle 1 1 s fs_disk" "l_start s = 2" using fs_started by blast
  let ?t = "s\<lparr>l_outstanding := 1\<rparr>" and ?ns = "map of_nat [50..<80] :: u32 list"
  have t: "begin_op s = Done () ?t" "txn 1 1 ?t (fresh fs_disk (wtrace s))"
    using wp_begin_op[OF s(2), of "\<lambda>_ u. u = ?t \<and> txn 1 1 u (fresh fs_disk (wtrace s))"] unfolding wp_unit_iff by auto
  have un: "unat (of_nat n :: u32) = n" if "n < 80" for n using that by (simp add: unat_of_nat_small)
  have out: "\<forall>n\<in>set ?ns. n \<notin> log_region (l_start ?t)" using log_region_2 un s(3) by fastforce
  have "inj_on (of_nat :: nat \<Rightarrow> u32) {50..<80}" by (rule inj_onI) (metis atLeastLessThan_iff un)
  then have card: "card (set ?ns) = 30" by (simp add: card_image)
  obtain u y where u: "foreach ?ns (bzero 1) ?t = Done () u" "log_frame ?t u" "txn 1 1 u y" "t_open y = {}" "t_log y = t_log (fresh fs_disk (wtrace s)) \<union> set ?ns"
    using foreach_bzero[OF t(2) _ out] by (auto simp: fresh_def)
  have c30: "card (t_log y) = LOGBLOCKS" using u(5) card by (simp add: fresh_def)
  have "l_outstanding u = 1" using log_frameD(3)[OF u(2)] by simp
  from full_transaction_panics[OF u(3,4) this c30] show ?thesis using s(1) t(1) u(1) by blast
qed

end
