(* ===== verification/Fsformat.thy ===== *)
theory Fsformat
  imports Fs
begin

text \<open>
  The on-disk formats and path names: a structure reads back as it was written and leaves its neighbours alone, and
  the elements \<open>skipelem\<close> cuts a path into are the non-empty parts between its slashes.
\<close>

section \<open>Structures in a block\<close>

lemma patch_length [simp]: "off + length new \<le> length bs \<Longrightarrow> length (patch off new bs) = length bs"
  by (simp add: patch_def)

lemma patch_nth:
  assumes "off + length new \<le> length bs" "i < length bs"
  shows "patch off new bs ! i = (if off \<le> i \<and> i < off + length new then new ! (i - off) else bs ! i)"
  using assms by (auto simp: patch_def nth_append min_def)

lemma take_drop_patch_in:
  assumes "off \<le> a" "a + n \<le> off + length new" "off + length new \<le> length bs"
  shows "take n (drop a (patch off new bs)) = take n (drop (a - off) new)"
  by (rule nth_equalityI) (use assms in \<open>auto simp: patch_nth\<close>)

lemma take_drop_patch_out:
  assumes "a + n \<le> off \<or> off + length new \<le> a" "off + length new \<le> length bs"
  shows "take n (drop a (patch off new bs)) = take n (drop a bs)"
  by (rule nth_equalityI) (use assms in \<open>auto simp: patch_nth\<close>)

lemma get16_patch_out: "a + 2 \<le> off \<or> off + length new \<le> a \<Longrightarrow> off + length new \<le> length bs \<Longrightarrow> get16 (patch off new bs) a = get16 bs a"
  by (simp add: get16_def take_drop_patch_out)

lemma get32_patch_out: "a + 4 \<le> off \<or> off + length new \<le> a \<Longrightarrow> off + length new \<le> length bs \<Longrightarrow> get32 (patch off new bs) a = get32 bs a"
  by (simp add: get32_def take_drop_patch_out)

lemma take_drop_words: "i < length as \<Longrightarrow> take 4 (drop (4 * i) (concat (map (\<lambda>a. le_bytes 4 (f a)) as))) = le_bytes 4 (f (as ! i))"
proof (induction as arbitrary: i)
  case (Cons a as)
  then show ?case by (cases i) simp_all
qed simp

lemma length_words [simp]: "length (concat (map (\<lambda>a. le_bytes 4 (f a)) as)) = 4 * length as"
  by (induction as) auto

lemma le_val_word:
  "of_nat (unat (x :: u32) mod 4294967296) = x" "of_nat (unat (y :: u16) mod 65536) = y"
  using unat_less_2p[of x] unat_less_2p[of y] by simp_all

lemma enc_dinode_length: "length (d_addrs d) = NDIRECT + 1 \<Longrightarrow> length (enc_dinode d) = sizeof_dinode"
  by (simp add: enc_dinode_def)

lemma dec_enc_dinode:
  assumes "length (d_addrs d) = NDIRECT + 1" "off + sizeof_dinode \<le> length bs"
  shows "dec_dinode (patch off (enc_dinode d) bs) off = d"
proof -
  let ?p = "patch off (enc_dinode d) bs"
  note len = enc_dinode_length[OF assms(1)]
  have g16: "get16 ?p (off + k) = of_nat (le_val (take 2 (drop k (enc_dinode d))))" if "k + 2 \<le> 64" for k
    unfolding get16_def by (subst take_drop_patch_in) (use that len assms(2) in simp_all)
  have g32: "get32 ?p (off + k) = of_nat (le_val (take 4 (drop k (enc_dinode d))))" if "k + 4 \<le> 64" for k
    unfolding get32_def by (subst take_drop_patch_in) (use that len assms(2) in simp_all)
  have ad: "get32 ?p (off + 12 + 4 * i) = d_addrs d ! i" if "i < 13" for i
  proof -
    have "drop (12 + 4 * i) (enc_dinode d) = drop (4 * i) (concat (map (\<lambda>a. le_bytes 4 (unat a)) (d_addrs d)))"
      by (simp add: enc_dinode_def)
    then show ?thesis using g32[of "12 + 4 * i"] that assms(1) by (simp add: add.assoc take_drop_words le_val_word)
  qed
  have "map (\<lambda>i. get32 ?p (off + 12 + 4 * i)) [0..<NDIRECT + 1] = d_addrs d"
    by (rule nth_equalityI) (use ad assms(1) in simp_all)
  moreover have "take 2 (drop 0 (enc_dinode d)) = le_bytes 2 (unat (d_type d))" "take 2 (drop 2 (enc_dinode d)) = le_bytes 2 (unat (d_major d))"
    "take 2 (drop 4 (enc_dinode d)) = le_bytes 2 (unat (d_minor d))" "take 2 (drop 6 (enc_dinode d)) = le_bytes 2 (unat (d_nlink d))"
    "take 4 (drop 8 (enc_dinode d)) = le_bytes 4 (unat (d_size d))"
    by (simp_all add: enc_dinode_def)
  then have "get16 ?p off = d_type d" "get16 ?p (off + 2) = d_major d" "get16 ?p (off + 4) = d_minor d" "get16 ?p (off + 6) = d_nlink d"
    "get32 ?p (off + 8) = d_size d"
    using g16[of 0] g16[of 2] g16[of 4] g16[of 6] g32[of 8] by (simp_all add: le_val_word)
  ultimately show ?thesis by (simp add: dec_dinode_def)
qed

lemma dec_dinode_other:
  assumes "off' + sizeof_dinode \<le> off \<or> off + length new \<le> off'" "off + length new \<le> length bs"
  shows "dec_dinode (patch off new bs) off' = dec_dinode bs off'"
proof -
  have "get32 (patch off new bs) (off' + 12 + 4 * i) = get32 bs (off' + 12 + 4 * i)" if "i < 13" for i
    by (rule get32_patch_out) (use assms that in auto)
  then have m: "map (\<lambda>i. get32 (patch off new bs) (off' + 12 + 4 * i)) [0..<NDIRECT + 1] = map (\<lambda>i. get32 bs (off' + 12 + 4 * i)) [0..<NDIRECT + 1]"
    by simp
  have h: "get16 (patch off new bs) (off' + k) = get16 bs (off' + k)" if "k \<le> 62" for k
    by (rule get16_patch_out) (use assms that in auto)
  have w: "get32 (patch off new bs) (off' + 8) = get32 bs (off' + 8)"
    by (rule get32_patch_out) (use assms in auto)
  show ?thesis unfolding dec_dinode_def m w using h[of 0] h[of 2] h[of 4] h[of 6] by simp
qed

lemma dinode_off_apart:
  assumes "dinode_off i \<noteq> dinode_off j"
  shows "dinode_off j + sizeof_dinode \<le> dinode_off i \<or> dinode_off i + sizeof_dinode \<le> dinode_off j" and "dinode_off i + sizeof_dinode \<le> BSIZE"
proof -
  have "unat i mod 16 < 16" by simp
  then show "dinode_off i + sizeof_dinode \<le> BSIZE" by (simp add: dinode_off_def)
  show "dinode_off j + sizeof_dinode \<le> dinode_off i \<or> dinode_off i + sizeof_dinode \<le> dinode_off j"
    using assms by (auto simp: dinode_off_def)
qed

lemma inode_place_inj:
  assumes "IBLOCK i b = IBLOCK j b" "dinode_off i = dinode_off j"
  shows "i = j"
proof -
  have "i div 16 = j div 16" using assms(1) by (simp add: IBLOCK_def)
  then have "unat i div 16 = unat j div 16" using unat_div[of i 16] unat_div[of j 16] by simp
  moreover have "unat i mod 16 = unat j mod 16" using assms(2) by (simp add: dinode_off_def)
  ultimately have "unat i = unat j" by (metis div_mult_mod_eq)
  then show ?thesis by (simp add: word_unat_eq_iff)
qed

lemma dinode_fits:
  assumes "length (d_addrs d) = NDIRECT + 1" and "length bs = BSIZE"
  shows "dinode_off i + sizeof_dinode \<le> length bs" and "length (patch (dinode_off i) (enc_dinode d) bs) = BSIZE"
proof -
  show "dinode_off i + sizeof_dinode \<le> length bs"
    using assms(2) mod_less_divisor[of 16 "unat i"] by (simp add: dinode_off_def)
  then show "length (patch (dinode_off i) (enc_dinode d) bs) = BSIZE" using enc_dinode_length[OF assms(1)] assms(2) by simp
qed

text \<open>C29: an inode written to its block reads back unchanged, in the place \<open>IBLOCK\<close> and its offset give it; no two inode
  numbers share a place, and every other inode of the block keeps its contents.\<close>

theorem dinode_round_trip:
  assumes "length (d_addrs d) = NDIRECT + 1" and "length bs = BSIZE"
  shows "dec_dinode (patch (dinode_off i) (enc_dinode d) bs) (dinode_off i) = d \<and>
    length (patch (dinode_off i) (enc_dinode d) bs) = BSIZE \<and>
    (\<forall>j. j \<noteq> i \<and> IBLOCK j b = IBLOCK i b \<longrightarrow>
      dec_dinode (patch (dinode_off i) (enc_dinode d) bs) (dinode_off j) = dec_dinode bs (dinode_off j))"
proof -
  note len = enc_dinode_length[OF assms(1)]
  note fit = dinode_fits(1)[OF assms, of i]
  have "dec_dinode (patch (dinode_off i) (enc_dinode d) bs) (dinode_off j) = dec_dinode bs (dinode_off j)"
    if "j \<noteq> i" "IBLOCK j b = IBLOCK i b" for j
  proof (rule dec_dinode_other)
    have "dinode_off i \<noteq> dinode_off j" using inode_place_inj[of j b i] that by auto
    then show "dinode_off j + sizeof_dinode \<le> dinode_off i \<or> dinode_off i + length (enc_dinode d) \<le> dinode_off j"
      using dinode_off_apart(1)[of i j] len by simp
    show "dinode_off i + length (enc_dinode d) \<le> length bs" using fit len by simp
  qed
  then show ?thesis using dec_enc_dinode[OF assms(1) fit] dinode_fits(2)[OF assms] by simp
qed

theorem dinode_round_trip_witness:
  "dec_dinode (patch (dinode_off 17) (enc_dinode (zero_dinode\<lparr>d_type := 2, d_size := 70000\<rparr>)) (replicate 1024 7)) (dinode_off 17) =
     zero_dinode\<lparr>d_type := 2, d_size := 70000\<rparr>"
  using dinode_round_trip[of "zero_dinode\<lparr>d_type := 2, d_size := 70000\<rparr>" "replicate 1024 7" 17] by (simp add: zero_dinode_def)

section \<open>Paths\<close>

text \<open>The parts of a path between its slashes, the empty ones left out.\<close>

fun split_path :: "bytes \<Rightarrow> bytes \<Rightarrow> bytes list" where
  "split_path e [] = (if e = [] then [] else [e])"
| "split_path e (c # p) = (if c = slash then (if e = [] then [] else [e]) @ split_path [] p else split_path (e @ [c]) p)"

definition elems :: "bytes \<Rightarrow> bytes list" where "elems p = split_path [] p"

text \<open>The elements that repeated calls of \<open>skipelem\<close> give, as \<open>namex\<close> calls it, with the name buffer after each.\<close>

function skip_all :: "bytes \<Rightarrow> bytes \<Rightarrow> bytes list" where
  "skip_all path name = (case skipelem path name of None \<Rightarrow> [] | Some (path', name') \<Rightarrow> name' # skip_all path' name')"
  by pat_completeness auto
termination
  by (relation "measure (\<lambda>(path, name). length path)") (auto dest: skipelem_shorter)

declare skip_all.simps [simp del]

lemma split_path_app: "slash \<notin> set e \<Longrightarrow> split_path x (e @ q) = split_path (x @ e) q"
  by (induction e arbitrary: x) auto

lemma elems_skip: "elems (skip_slashes p) = elems p"
  by (induction p) (auto simp: elems_def)

lemma skip_slashes_form: "skip_slashes p = [] \<or> chd (skip_slashes p) \<noteq> slash"
  by (induction p) (auto simp: chd_def)

lemma set_skip_slashes: "set (skip_slashes p) \<subseteq> set p"
  by (induction p) auto

lemma path_elem_form:
  assumes "path_elem p = (e, q)" "0 \<notin> set p"
  shows "p = e @ q \<and> slash \<notin> set e \<and> (q = [] \<or> (\<exists>q'. q = slash # q'))"
  using assms
proof (induction p arbitrary: e)
  case (Cons c p)
  then show ?case by (cases "path_elem p") (auto split: if_splits)
qed simp

lemma elems_app: "slash \<notin> set e \<Longrightarrow> e \<noteq> [] \<Longrightarrow> q = [] \<or> (\<exists>q'. q = slash # q') \<Longrightarrow> elems (e @ q) = e # elems q"
  unfolding elems_def by (subst split_path_app) auto

lemma skipelem_elems:
  assumes "0 \<notin> set path" "length name = DIRSIZ"
  shows "case skipelem path name of None \<Rightarrow> elems path = []
    | Some (path', name') \<Rightarrow> 0 \<notin> set path' \<and> length name' = DIRSIZ \<and>
        (\<exists>e. elems path = e # elems path' \<and> takeWhile (\<lambda>c. c \<noteq> 0) name' = take DIRSIZ e)"
proof (cases "skip_slashes path")
  case Nil
  then have "elems path = []" using elems_skip[of path] by (simp add: elems_def)
  then show ?thesis using Nil by (simp add: skipelem_def chd_def)
next
  case (Cons c p)
  have nz: "0 \<notin> set (c # p)" using set_skip_slashes[of path] assms(1) Cons by auto
  then have c: "c \<noteq> 0" "c \<noteq> slash" using skip_slashes_form[of path] Cons by (auto simp: chd_def)
  obtain e q where eq: "path_elem (c # p) = (e, q)" by fastforce
  note f = path_elem_form[OF eq nz]
  have ne: "e \<noteq> []" using f c by (cases e) auto
  define name' where "name' = (if DIRSIZ \<le> length e then patch 0 (take DIRSIZ e) name else (patch 0 e name)[length e := 0])"
  have sk: "skipelem path name = Some (skip_slashes q, name')"
    using Cons eq c by (simp add: skipelem_def chd_def name'_def Let_def)
  have ez: "0 \<notin> set e" "0 \<notin> set q" using f nz by auto
  have tw: "takeWhile (\<lambda>c. c \<noteq> 0) name' = take DIRSIZ e" "length name' = DIRSIZ"
  proof -
    have "takeWhile (\<lambda>c. c \<noteq> 0) (take DIRSIZ e) = take DIRSIZ e" using ez by (auto simp: takeWhile_eq_all_conv dest: in_set_takeD)
    moreover have "takeWhile (\<lambda>c. c \<noteq> 0) (e @ 0 # r) = e" for r using ez by (subst takeWhile_append2) auto
    moreover have "(patch 0 e name)[length e := 0] = e @ 0 # drop (Suc (length e)) name" if "length e < DIRSIZ"
      using that assms(2) by (simp add: patch_def list_update_append Cons_nth_drop_Suc[symmetric])
    ultimately show "takeWhile (\<lambda>c. c \<noteq> 0) name' = take DIRSIZ e"
      using assms(2) by (auto simp: name'_def patch_def min_def)
    show "length name' = DIRSIZ" using assms(2) by (auto simp: name'_def patch_def min_def)
  qed
  have "elems path = e # elems (skip_slashes q)"
    using elems_app[OF _ ne, of q] f elems_skip[of path] elems_skip[of q] Cons by simp
  then show ?thesis using sk tw ez set_skip_slashes[of q] by auto
qed

text \<open>C30: walking a path. The names \<open>skipelem\<close> gives when it is called until it returns 0, as \<open>namex\<close> calls it, are the
  non-empty parts of the path between its slashes, in order, each cut to \<open>DIRSIZ\<close> characters; the walk ends on
  every path.\<close>

theorem skipelem_splits_path:
  assumes "0 \<notin> set path" and "length name = DIRSIZ"
  shows "map (takeWhile (\<lambda>c. c \<noteq> 0)) (skip_all path name) = map (take DIRSIZ) (elems path)"
  using assms
proof (induction path name rule: skip_all.induct)
  case (1 path name)
  then show ?case using skipelem_elems[OF 1(2,3)]
    by (subst skip_all.simps) (auto split: option.splits simp del: DIRSIZ_def)
qed

theorem skipelem_splits_path_witness:
  "map (takeWhile (\<lambda>c. c \<noteq> 0)) (skip_all [47, 97, 47, 47, 98, 99] (replicate 14 0)) = [[97], [98, 99]]"
  using skipelem_splits_path[of "[47, 97, 47, 47, 98, 99]" "replicate 14 0"] by (simp add: elems_def slash_def)

end
