(* ===== verification/Fsinode.thy ===== *)
theory Fsinode
  imports Fsblocks Fsformat
begin

text \<open>
  The inode table of \<^verbatim>\<open>fs.c\<close>: \<open>iget\<close> keeps at most one entry for an inode, and the copy of an inode in the table and the one
  on disk agree through \<open>iupdate\<close> and \<open>ilock\<close>.
\<close>

section \<open>The inode table\<close>

definition names :: "u32 \<Rightarrow> u32 \<Rightarrow> inode \<Rightarrow> bool" where
  "names dev inum ip \<longleftrightarrow> 0 < i_ref ip \<and> i_dev ip = dev \<and> i_inum ip = inum"

text \<open>The table is well formed: it has its \<open>NINODE\<close> entries, none with a negative count, and no two entries in use are for
  the same inode.\<close>

definition itab_ok :: "inode list \<Rightarrow> bool" where
  "itab_ok it \<longleftrightarrow> length it = NINODE \<and> (\<forall>i<NINODE. 0 \<le> i_ref (it ! i)) \<and>
     (\<forall>i<NINODE. \<forall>j<NINODE. \<forall>dev inum. names dev inum (it ! i) \<and> names dev inum (it ! j) \<longrightarrow> i = j)"

lemma iget_scan_eq:
  "iget_scan it is dev inum emp = (case find (\<lambda>i. names dev inum (it ! i)) is of
     Some i \<Rightarrow> (Some i, case emp of Some e \<Rightarrow> Some e | None \<Rightarrow> find (\<lambda>i. i_ref (it ! i) = 0) (takeWhile (\<lambda>i. \<not> names dev inum (it ! i)) is))
   | None \<Rightarrow> (None, case emp of Some e \<Rightarrow> Some e | None \<Rightarrow> find (\<lambda>i. i_ref (it ! i) = 0) is))"
  by (induction "is" arbitrary: emp) (auto simp: names_def split: option.splits)

lemma iget_eq:
  assumes "ItableLock \<notin> held s"
  shows "iget dev inum s = (case find (\<lambda>i. names dev inum (itable s ! i)) [0..<NINODE] of
     Some i \<Rightarrow> Done i (s\<lparr>itable := (itable s)[i := (itable s ! i)\<lparr>i_ref := i_ref (itable s ! i) + 1\<rparr>]\<rparr>)
   | None \<Rightarrow> (case find (\<lambda>i. i_ref (itable s ! i) = 0) [0..<NINODE] of
       None \<Rightarrow> Panic ''iget: no inodes''
     | Some i \<Rightarrow> Done i (s\<lparr>itable := (itable s)[i := (itable s ! i)\<lparr>i_dev := dev, i_inum := inum, i_ref := 1, i_valid := 0\<rparr>]\<rparr>)))"
proof -
  have h: "s\<lparr>held := held s, itable := x\<rparr> = s\<lparr>itable := x\<rparr>" for x by simp
  show ?thesis
    using assms
    by (simp add: iget_def bind_def acquire_def release_def iget_scan_eq upd_inode_def h del: NINODE_def split: option.splits)
qed

text \<open>C36: \<open>iget\<close> on a well-formed table. If an entry in use is for the inode, \<open>iget\<close> gives that entry and one more reference to it;
  otherwise it takes the first entry not in use, gives it the inode with one reference and marks its contents as not read; when
  all entries are in use it panics. All other entries stay as they are, and the table stays well formed, with the entry given the
  only one for the inode.\<close>

theorem iget_keeps_table:
  fixes s :: "'x kfs_scheme"
  assumes lk: "ItableLock \<notin> held s" and ok: "itab_ok (itable s)"
  shows "if (\<exists>i<NINODE. names dev inum (itable s ! i)) \<or> (\<exists>i<NINODE. i_ref (itable s ! i) = 0)
    then \<exists>i it. iget dev inum s = Done i (s\<lparr>itable := it\<rparr>) \<and> i < NINODE \<and> itab_ok it \<and>
      (\<forall>j<NINODE. names dev inum (it ! j) \<longleftrightarrow> j = i) \<and> (\<forall>j<NINODE. j \<noteq> i \<longrightarrow> it ! j = itable s ! j) \<and>
      (if \<exists>j<NINODE. names dev inum (itable s ! j)
       then names dev inum (itable s ! i) \<and> it ! i = (itable s ! i)\<lparr>i_ref := i_ref (itable s ! i) + 1\<rparr>
       else (\<forall>j<i. i_ref (itable s ! j) \<noteq> 0) \<and> i_ref (itable s ! i) = 0 \<and> i_ref (it ! i) = 1 \<and> i_valid (it ! i) = 0)
    else iget dev inum s = Panic ''iget: no inodes''"
proof -
  let ?it = "itable s"
  have len: "length ?it = NINODE" using ok by (simp add: itab_ok_def)
  have set_ok: "itab_ok (?it[i := ip]) \<and> (\<forall>j<NINODE. names dev inum (?it[i := ip] ! j) \<longleftrightarrow> j = i)"
    if "i < NINODE" "names dev inum ip" "\<forall>j<NINODE. names dev inum (?it ! j) \<longrightarrow> j = i" for i ip
  proof -
    have n: "names d n (?it[i := ip] ! j) \<longleftrightarrow> (if j = i then d = dev \<and> n = inum else names d n (?it ! j))" if "j < NINODE" for j d n
      using that \<open>names dev inum ip\<close> len by (auto simp: nth_list_update names_def)
    have r: "0 \<le> i_ref (?it[i := ip] ! j)" if "j < NINODE" for j
      using that \<open>names dev inum ip\<close> ok len by (cases "j = i") (auto simp: names_def itab_ok_def)
    have u: "a = b" if ab: "a < NINODE" "b < NINODE" "names d m (?it[i := ip] ! a)" "names d m (?it[i := ip] ! b)" for a b d m
    proof (cases "a = i \<or> b = i")
      case True
      then show ?thesis using ab n \<open>\<forall>j<NINODE. names dev inum (?it ! j) \<longrightarrow> j = i\<close> by metis
    next
      case False
      then have "names d m (?it ! a)" "names d m (?it ! b)" using ab n by metis+
      then show ?thesis using ok ab(1,2) unfolding itab_ok_def by blast
    qed
    have "\<forall>j<NINODE. names dev inum (?it[i := ip] ! j) \<longleftrightarrow> j = i" using n that(3) by metis
    moreover have "length (?it[i := ip]) = NINODE" using len by simp
    ultimately show ?thesis using r u unfolding itab_ok_def by blast
  qed
  show ?thesis
  proof (cases "find (\<lambda>i. names dev inum (?it ! i)) [0..<NINODE]")
    case (Some i)
    then have i: "i < NINODE" "names dev inum (?it ! i)" using find_least[OF Some] by auto
    then have only: "\<forall>j<NINODE. names dev inum (?it ! j) \<longrightarrow> j = i" using ok unfolding itab_ok_def by blast
    let ?ip = "(?it ! i)\<lparr>i_ref := i_ref (?it ! i) + 1\<rparr>"
    have "names dev inum ?ip" using i(2) by (simp add: names_def)
    note st = set_ok[OF i(1) this only]
    let ?jt = "?it[i := ?ip]"
    have run: "iget dev inum s = Done i (s\<lparr>itable := ?jt\<rparr>)" using Some iget_eq[OF lk] by simp
    have ex: "\<exists>j<NINODE. names dev inum (?it ! j)" using i by blast
    then have e: "(\<exists>i<NINODE. names dev inum (?it ! i)) \<or> (\<exists>i<NINODE. i_ref (?it ! i) = 0)" by blast
    have "?jt ! i = ?ip" using i(1) len by simp
    moreover have "\<forall>j<NINODE. j \<noteq> i \<longrightarrow> ?jt ! j = ?it ! j" by simp
    ultimately show ?thesis unfolding if_P[OF e] if_P[OF ex] using run i st by blast
  next
    case None
    then have none: "\<forall>j<NINODE. \<not> names dev inum (?it ! j)" by (simp add: find_None_iff del: NINODE_def)
    show ?thesis
    proof (cases "find (\<lambda>i. i_ref (?it ! i) = 0) [0..<NINODE]")
      case (Some i)
      then have i: "i < NINODE" "i_ref (?it ! i) = 0" "\<forall>j<i. i_ref (?it ! j) \<noteq> 0" using find_least[OF Some] by auto
      let ?ip = "(?it ! i)\<lparr>i_dev := dev, i_inum := inum, i_ref := 1, i_valid := 0\<rparr>"
      let ?jt = "?it[i := ?ip]"
      have "names dev inum ?ip" by (simp add: names_def)
      from set_ok[OF i(1) this] none have st: "itab_ok ?jt" "\<forall>j<NINODE. names dev inum (?jt ! j) \<longleftrightarrow> j = i" by blast+
      have run: "iget dev inum s = Done i (s\<lparr>itable := ?jt\<rparr>)" using Some None iget_eq[OF lk] by simp
      have e: "(\<exists>i<NINODE. names dev inum (?it ! i)) \<or> (\<exists>i<NINODE. i_ref (?it ! i) = 0)" using i by blast
      have ne: "\<not> (\<exists>j<NINODE. names dev inum (?it ! j))" using none by blast
      have oth: "\<forall>j<NINODE. j \<noteq> i \<longrightarrow> ?jt ! j = ?it ! j" by simp
      have "?jt ! i = ?ip" using i(1) len by simp
      then have "i_ref (?jt ! i) = 1" "i_valid (?jt ! i) = 0" by simp_all
      then show ?thesis unfolding if_P[OF e] if_not_P[OF ne] using run i st oth by blast
    next
      case fn: None
      then have "\<forall>j<NINODE. i_ref (?it ! j) \<noteq> 0" by (simp add: find_None_iff del: NINODE_def)
      then show ?thesis using none None fn iget_eq[OF lk] by (subst if_not_P) auto
    qed
  qed
qed

theorem iget_keeps_table_witness:
  "\<exists>it jt. iget 1 5 fs_demo = Done 0 (fs_demo\<lparr>itable := it\<rparr>) \<and> iget 1 5 (fs_demo\<lparr>itable := it\<rparr>) = Done 0 (fs_demo\<lparr>itable := jt\<rparr>) \<and> i_ref (jt ! 0) = 2"
proof -
  have lk: "ItableLock \<notin> held (fs_demo\<lparr>itable := it\<rparr>)" for it by (simp add: fs_demo_def log_demo_def bio_demo_def proc_demo_def klog.defs kbio.defs kproc.defs)
  have it0: "itable fs_demo = replicate NINODE zero_inode" by (simp add: fs_demo_def klog.defs)
  have no: "\<not> names 1 5 (itable fs_demo ! j)" "i_ref (itable fs_demo ! j) = 0" if "j < NINODE" for j
    using that by (simp_all add: it0 names_def zero_inode_def del: NINODE_def)
  have ok: "itab_ok (itable fs_demo)" by (auto simp: it0 itab_ok_def names_def zero_inode_def simp del: NINODE_def)
  have "(0 :: nat) < NINODE" by simp
  note z = no(2)[OF this]
  have ex: "(\<exists>i<NINODE. names 1 5 (itable fs_demo ! i)) \<or> (\<exists>i<NINODE. i_ref (itable fs_demo ! i) = 0)" using z \<open>0 < NINODE\<close> by blast
  have nex: "\<not> (\<exists>j<NINODE. names 1 5 (itable fs_demo ! j))" using no(1) by blast
  obtain i it where i: "iget 1 5 fs_demo = Done i (fs_demo\<lparr>itable := it\<rparr>)" "i < NINODE" "itab_ok it" "\<forall>j<NINODE. names 1 5 (it ! j) \<longleftrightarrow> j = i"
    "\<forall>j<i. i_ref (itable fs_demo ! j) \<noteq> 0" "i_ref (it ! i) = 1"
    using iget_keeps_table[of fs_demo 1 5, unfolded if_P[OF ex] if_not_P[OF nex]] lk[of "itable fs_demo"] ok by auto
  have i0: "i = 0" using i(5) z by (metis gr0I)
  let ?s = "fs_demo\<lparr>itable := it\<rparr>"
  have ex': "\<exists>j<NINODE. names 1 5 (itable ?s ! j)" using i(2,4) by auto
  then have ex'': "(\<exists>i<NINODE. names 1 5 (itable ?s ! i)) \<or> (\<exists>i<NINODE. i_ref (itable ?s ! i) = 0)" by blast
  obtain j jt where j: "iget 1 5 ?s = Done j (?s\<lparr>itable := jt\<rparr>)" "names 1 5 (itable ?s ! j)" "j < NINODE"
    "jt ! j = (itable ?s ! j)\<lparr>i_ref := i_ref (itable ?s ! j) + 1\<rparr>"
    using iget_keeps_table[of ?s 1 5, unfolded if_P[OF ex'] if_P[OF ex'']] lk i(3) by auto
  have j0: "j = 0" using i(4) j(2,3) i0 by auto
  have "i_ref (jt ! 0) = 2" using j(4) i(6) unfolding j0 i0 by simp
  moreover have "iget 1 5 ?s = Done 0 (fs_demo\<lparr>itable := jt\<rparr>)" using j(1) j0 by simp
  ultimately show ?thesis using i(1) i0 by blast
qed

section \<open>Inodes on disk\<close>

lemma txn_itable [simp]: "txn d pid (s\<lparr>itable := it\<rparr>) x = txn d pid (s :: 'x kfs_scheme) x"
proof -
  have "cst d (s\<lparr>itable := it\<rparr>) pid c = cst d s pid c" for c by (rule cst_cong) simp_all
  then show ?thesis by (simp add: txn_def)
qed

lemma handle_itable [simp]: "handle d (s\<lparr>itable := it\<rparr>) i n = handle d (s :: 'x kfs_scheme) i n"
  by (rule handle_cong) simp

lemma wp_iupdate:
  fixes s :: "'x kfs_scheme"
  assumes x: "txn d pid s x" and o: "t_open x = {}" and room: "card (t_log x) < LOGBLOCKS" and dev: "i_dev (itable s ! i) = d"
    and len: "length (i_addrs (itable s ! i)) = NDIRECT + 1" and out: "IBLOCK (i_inum (itable s ! i)) (sb s) \<notin> log_region (l_start s)"
    and k: "\<And>t. txn d pid t (let n = IBLOCK (i_inum (itable s ! i)) (sb s) in
        x\<lparr>t_view := (t_view x)(n := patch (dinode_off (i_inum (itable s ! i))) (enc_dinode (dinode_of (itable s ! i))) (t_view x n)),
          t_log := insert n (t_log x)\<rparr>) \<Longrightarrow> log_frame s t \<Longrightarrow> Q () t"
  shows "wp (iupdate i) Q s"
proof -
  have dr: "t_dirty x = {}" using x o by (auto simp: txn_def)
  have len': "length (d_addrs (dinode_of (itable s ! i))) = NDIRECT + 1" using len by (simp add: dinode_of_def)
  have lp: "length (patch (dinode_off n) (enc_dinode (dinode_of (itable s ! i))) b) = BSIZE" if "length b = BSIZE" for b n
    by (rule dinode_fits(2)[OF len' that])
  show ?thesis
    unfolding iupdate_def the_inode_def wp_bind[of "gets _"] wp_gets dev
    by (rule tx.update_block[OF x]) (use o dr out room lp k in \<open>simp_all add: Let_def\<close>)
qed

lemma txn_in_proc: "txn d pid s x \<Longrightarrow> in_proc s pid"
  by (simp add: txn_def cst_def ready_def)

text \<open>An entry in use that nobody has locked and whose contents have not been read.\<close>

definition unread :: "u32 \<Rightarrow> u32 \<Rightarrow> inode \<Rightarrow> bool" where
  "unread dev inum ip \<longleftrightarrow> names dev inum ip \<and> i_valid ip = 0 \<and> sl_locked (i_lock ip) = 0"

definition filled_in :: "int \<Rightarrow> dinode \<Rightarrow> inode \<Rightarrow> inode" where
  "filled_in pid d ip = (load_dinode d ip)\<lparr>i_valid := 1, i_lock := (i_lock ip)\<lparr>sl_locked := 1, sl_pid := pid\<rparr>\<rparr>"

lemma wp_ilock:
  fixes s :: "'x kfs_scheme"
  assumes x: "txn d pid s x" and o: "t_open x = {}" and room: "card (t_log x) < NBUF"
    and j: "j < length (itable s)" "unread d inum (itable s ! j)" "InodeSleepLk j \<notin> held s"
    and ty: "d_type (dec_dinode (t_view x (IBLOCK inum (sb s))) (dinode_off inum)) \<noteq> 0"
  shows "wp (ilock (Some j)) (\<lambda>_ t. txn d pid t x \<and>
    itable t = (itable s)[j := filled_in pid (dec_dinode (t_view x (IBLOCK inum (sb s))) (dinode_off inum)) (itable s ! j)]) s"
proof -
  let ?n = "IBLOCK inum (sb s)" and ?ip = "itable s ! j"
  let ?D = "dec_dinode (t_view x ?n) (dinode_off inum)"
  have ip: "\<not> i_ref ?ip < 1" "i_valid ?ip = 0" "sl_locked (i_lock ?ip) = 0" "i_dev ?ip = d" "i_inum ?ip = inum"
    using j(2) by (auto simp: unread_def names_def)
  let ?lk = "\<lambda>l. l\<lparr>sl_locked := 1, sl_pid := pid\<rparr>"
  let ?jp = "?ip\<lparr>i_lock := ?lk (i_lock ?ip)\<rparr>"
  let ?s = "s\<lparr>itable := (itable s)[j := ?jp]\<rparr>"
  have lock: "inode_acquiresleep j s = Done () ?s"
    unfolding inode_acquiresleep_def
    by (subst acquiresleep_free[where pid = pid]) (use j(3) ip(3) txn_in_proc[OF x] in \<open>simp_all add: inode_lock_upd_def\<close>)
  have dr: "t_dirty x = {}" using x o by (auto simp: txn_def)
  have jp: "itable ?s ! j = ?jp" using j(1) by simp
  have body: "wp (bind (bread d ?n) (\<lambda>bp. bind (the_buf bp) (\<lambda>buf.
       bind (upd_inode j (load_dinode (dec_dinode (b_data buf) (dinode_off inum)))) (\<lambda>_.
       bind (brelse bp) (\<lambda>_. bind (upd_inode j (\<lambda>ip. ip\<lparr>i_valid := 1\<rparr>)) (\<lambda>_.
       bind (the_inode j) (\<lambda>ip. if i_type ip = 0 then panic ''ilock: no type'' else ret ()))))))) (\<lambda>_ t. txn d pid t x \<and>
    itable t = (itable s)[j := filled_in pid ?D ?ip]) ?s"
  proof (rule tx.open_block)
    show "txn d pid ?s x" using x by simp
    show "?n \<notin> t_open x" "card (t_log x \<union> t_open x) < NBUF" using o room by simp_all
    fix t i b assume t: "txn d pid t (x\<lparr>t_open := insert ?n (t_open x)\<rparr>)" "log_frame ?s t" "handle d t i ?n" "b_data b = t_view x ?n"
    let ?t = "t\<lparr>itable := (itable s)[j := load_dinode ?D ?jp]\<rparr>"
    have it: "itable t = (itable s)[j := ?jp]" using log_frame_fs[OF t(2)] by simp
    have up: "wp (upd_inode j (load_dinode (dec_dinode (b_data b) (dinode_off inum)))) Q t = Q () ?t" for Q
      using j(1) t(4) by (simp add: upd_inode_def wp_rules it)
    have "wp (brelse i) (\<lambda>_. wp (bind (upd_inode j (\<lambda>ip. ip\<lparr>i_valid := 1\<rparr>)) (\<lambda>_.
       bind (the_inode j) (\<lambda>ip. if i_type ip = 0 then panic ''ilock: no type'' else ret ()))) (\<lambda>_ t. txn d pid t x \<and>
       itable t = (itable s)[j := filled_in pid ?D ?ip])) ?t"
    proof (rule tx.close_block)
      show "txn d pid ?t (x\<lparr>t_open := insert ?n (t_open x)\<rparr>)" "handle d ?t i ?n" "?n \<notin> t_open x" "?n \<notin> t_dirty x" using t o dr by simp_all
      fix u assume u: "txn d pid u x" "log_frame ?t u"
      have itu: "itable u = (itable s)[j := load_dinode ?D ?jp]" using log_frame_fs[OF u(2)] by simp
      have "(load_dinode ?D ?jp)\<lparr>i_valid := 1\<rparr> = filled_in pid ?D ?ip" by (simp add: filled_in_def load_dinode_def)
      then show "wp (bind (upd_inode j (\<lambda>ip. ip\<lparr>i_valid := 1\<rparr>)) (\<lambda>_.
         bind (the_inode j) (\<lambda>ip. if i_type ip = 0 then panic ''ilock: no type'' else ret ()))) (\<lambda>_ t. txn d pid t x \<and>
         itable t = (itable s)[j := filled_in pid ?D ?ip]) u"
        using u(1) j(1) ty by (simp add: upd_inode_def the_inode_def wp_rules itu) (simp add: filled_in_def load_dinode_def)
    qed
    then show "wp (bind (upd_inode j (load_dinode (dec_dinode (b_data b) (dinode_off inum)))) (\<lambda>_.
       bind (brelse i) (\<lambda>_. bind (upd_inode j (\<lambda>ip. ip\<lparr>i_valid := 1\<rparr>)) (\<lambda>_.
       bind (the_inode j) (\<lambda>ip. if i_type ip = 0 then panic ''ilock: no type'' else ret ()))))) (\<lambda>_ t. txn d pid t x \<and>
       itable t = (itable s)[j := filled_in pid ?D ?ip]) t"
      by (simp add: wp_bind_fun up)
  qed
  have "ilock (Some j) s = bind (bread d ?n) (\<lambda>bp. bind (the_buf bp) (\<lambda>buf.
       bind (upd_inode j (load_dinode (dec_dinode (b_data buf) (dinode_off inum)))) (\<lambda>_.
       bind (brelse bp) (\<lambda>_. bind (upd_inode j (\<lambda>ip. ip\<lparr>i_valid := 1\<rparr>)) (\<lambda>_.
       bind (the_inode j) (\<lambda>ip. if i_type ip = 0 then panic ''ilock: no type'' else ret ())))))) ?s"
    using lock ip jp by (simp add: ilock_def the_inode_def bind_gets bind_def[of "inode_acquiresleep j"])
  then show ?thesis using body by (simp add: wp_def)
qed

text \<open>C35: what \<open>iupdate\<close> writes, \<open>ilock\<close> reads. In a transaction \<open>iupdate\<close> returns, records the block of the inode in the log, writes
  nothing to disk, and changes no other block and no other inode of that block. If the table later has an unlocked entry for the
  inode whose contents have not been read, \<open>ilock\<close> returns with the entry locked by the caller and with the type, numbers, link
  count, size and block addresses the inode had.\<close>

theorem ilock_reads_iupdate:
  fixes s :: "'x kfs_scheme"
  assumes x: "txn d pid s x" and o: "t_open x = {}" and room: "card (t_log x) + 1 < LOGBLOCKS"
    and ip: "ip = itable s ! i" "i_dev ip = d" "i_type ip \<noteq> 0" "length (i_addrs ip) = NDIRECT + 1"
    and n: "n = IBLOCK (i_inum ip) (sb s)" "n \<notin> log_region (l_start s)"
  shows "\<exists>t y. iupdate i s = Done () t \<and> txn d pid t y \<and> dblocks t = dblocks s \<and> t_log y = insert n (t_log x) \<and>
    (\<forall>m. m \<noteq> n \<longrightarrow> t_view y m = t_view x m) \<and>
    (\<forall>k. k \<noteq> i_inum ip \<and> IBLOCK k (sb s) = n \<longrightarrow> dec_dinode (t_view y n) (dinode_off k) = dec_dinode (t_view x n) (dinode_off k)) \<and>
    (\<forall>it j. j < length it \<and> unread d (i_inum ip) (it ! j) \<and> InodeSleepLk j \<notin> held s \<longrightarrow>
      (\<exists>u. ilock (Some j) (t\<lparr>itable := it\<rparr>) = Done () u \<and> itable u = it[j := filled_in pid (dinode_of ip) (it ! j)]))"
proof -
  let ?p = "patch (dinode_off (i_inum ip)) (enc_dinode (dinode_of ip)) (t_view x n)"
  let ?y = "x\<lparr>t_view := (t_view x)(n := ?p), t_log := insert n (t_log x)\<rparr>"
  have la: "length (d_addrs (dinode_of ip)) = NDIRECT + 1" using ip(4) by (simp add: dinode_of_def)
  have lv: "length (t_view x n) = BSIZE" by (rule tx.view_size[OF x])
  have "wp (iupdate i) (\<lambda>_ t. txn d pid t ?y \<and> log_frame s t) s"
    by (rule wp_iupdate[OF x o]) (use room ip n in \<open>simp_all add: Let_def\<close>)
  then obtain t where t: "iupdate i s = Done () t" "txn d pid t ?y" "log_frame s t" unfolding wp_unit_iff by blast
  have rd: "dec_dinode ?p (dinode_off (i_inum ip)) = dinode_of ip" by (rule dec_enc_dinode[OF la dinode_fits(1)[OF la lv]])
  have other: "dec_dinode ?p (dinode_off k) = dec_dinode (t_view x n) (dinode_off k)" if "k \<noteq> i_inum ip" "IBLOCK k (sb s) = n" for k
  proof (rule dec_dinode_other)
    have "dinode_off (i_inum ip) \<noteq> dinode_off k" using inode_place_inj[of k "sb s" "i_inum ip"] that n(1) by auto
    then show "dinode_off k + sizeof_dinode \<le> dinode_off (i_inum ip) \<or> dinode_off (i_inum ip) + length (enc_dinode (dinode_of ip)) \<le> dinode_off k"
      using dinode_off_apart(1)[of "i_inum ip" k] enc_dinode_length[OF la] by simp
    show "dinode_off (i_inum ip) + length (enc_dinode (dinode_of ip)) \<le> length (t_view x n)"
      using dinode_fits(1)[OF la lv] enc_dinode_length[OF la] by simp
  qed
  have "\<exists>u. ilock (Some j) (t\<lparr>itable := it\<rparr>) = Done () u \<and> itable u = it[j := filled_in pid (dinode_of ip) (it ! j)]"
    if j: "j < length it" "unread d (i_inum ip) (it ! j)" "InodeSleepLk j \<notin> held s" for it j
  proof -
    have c: "card (t_log ?y) < NBUF" using room txn_log_card[OF x] by (simp add: card_insert_if)
    have e: "sb (t\<lparr>itable := it\<rparr>) = sb s" "held (t\<lparr>itable := it\<rparr>) = held s" using log_frame_fs[OF t(3)] log_frameD[OF t(3)] by simp_all
    have tx: "txn d pid (t\<lparr>itable := it\<rparr>) ?y" "t_open ?y = {}" using t(2) o by simp_all
    have ty: "d_type (dec_dinode (t_view ?y (IBLOCK (i_inum ip) (sb (t\<lparr>itable := it\<rparr>)))) (dinode_off (i_inum ip))) \<noteq> 0"
      using ip(3) unfolding e n(1)[symmetric] by (simp add: rd) (simp add: dinode_of_def)
    have "wp (ilock (Some j)) (\<lambda>_ u. txn d pid u ?y \<and> itable u = it[j := filled_in pid (dinode_of ip) (it ! j)]) (t\<lparr>itable := it\<rparr>)"
      using wp_ilock[OF tx c _ _ _ ty] j e by (simp add: n(1)[symmetric] rd)
    then show ?thesis unfolding wp_unit_iff by blast
  qed
  moreover have "dblocks t = dblocks s" using txn_disk[OF t(2)] txn_disk[OF x] by simp
  ultimately show ?thesis using t(1,2) other by (intro exI[of _ t] exI[of _ ?y]) simp
qed

theorem ilock_reads_iupdate_witness:
  "\<exists>s t u v. binit fs_state = Done () s \<and> begin_op s = Done () t \<and>
     iupdate 0 (t\<lparr>itable := [zero_inode\<lparr>i_dev := 1, i_inum := 20, i_ref := 1, i_type := 2, i_size := 70000\<rparr>]\<rparr>) = Done () u \<and>
     ilock (Some 0) (u\<lparr>itable := [zero_inode\<lparr>i_dev := 1, i_inum := 20, i_ref := 1\<rparr>]\<rparr>) = Done () v \<and> i_size (itable v ! 0) = 70000"
proof -
  obtain s t W where s: "binit fs_state = Done () s" "begin_op s = Done () t" "sb t = sb fs_demo" "l_start t = 2" "held t = {}"
    and t: "txn 1 1 t (fresh fs_disk W)" using fs_in_txn by blast
  define ip where "ip = zero_inode\<lparr>i_dev := 1, i_inum := 20, i_ref := 1, i_type := 2, i_size := 70000\<rparr>"
  define jp where "jp = zero_inode\<lparr>i_dev := 1, i_inum := 20, i_ref := 1\<rparr>"
  let ?t = "t\<lparr>itable := [ip]\<rparr>" and ?x = "fresh fs_disk W"
  have h: "txn 1 1 ?t ?x" "t_open ?x = {}" "card (t_log ?x) + 1 < LOGBLOCKS" using t by (simp_all add: fresh_def)
  have i: "ip = itable ?t ! 0" "i_dev ip = 1" "i_type ip \<noteq> 0" "length (i_addrs ip) = NDIRECT + 1"
    by (simp_all add: ip_def zero_inode_def)
  have b: "33 = IBLOCK (i_inum ip) (sb ?t)" by (simp add: IBLOCK_def s(3) fs_demo_def klog.defs ip_def)
  have r: "(33 :: u32) \<notin> log_region (l_start ?t)" using log_region_2[of 33] s(4) by auto
  obtain u where u: "iupdate 0 ?t = Done () u" "\<forall>it j. j < length it \<and> unread 1 (i_inum ip) (it ! j) \<and> InodeSleepLk j \<notin> held ?t \<longrightarrow>
      (\<exists>v. ilock (Some j) (u\<lparr>itable := it\<rparr>) = Done () v \<and> itable v = it[j := filled_in 1 (dinode_of ip) (it ! j)])"
    using ilock_reads_iupdate[OF h i b r] by blast
  have "unread 1 (i_inum ip) ([jp] ! 0)" by (simp add: unread_def names_def ip_def jp_def zero_inode_def initsleeplock_def)
  moreover have "InodeSleepLk 0 \<notin> held ?t" using s(5) by simp
  ultimately obtain v where v: "ilock (Some 0) (u\<lparr>itable := [jp]\<rparr>) = Done () v" "itable v = [jp][0 := filled_in 1 (dinode_of ip) jp]"
    using u(2)[rule_format, of 0 "[jp]"] by auto
  have "i_size (itable v ! 0) = 70000" by (simp add: v(2) filled_in_def load_dinode_def dinode_of_def ip_def)
  then show ?thesis using s(1,2) u(1) v(1) unfolding ip_def jp_def by blast
qed

end
