(* ===== verification/Fsread.thy ===== *)
theory Fsread
  imports Fsblocks
begin

text \<open>
  What a file holds: the bytes of its blocks, found through the direct addresses of the inode and its indirect block. \<open>readi\<close> gives
  these bytes, and \<open>dirlookup\<close> finds the first entry of a name among them.
\<close>

declare readi_loop.simps [simp del] dirlookup_loop.simps [simp del]

section \<open>Reading a block\<close>

text \<open>The cache when a process may read blocks: it has none open, there is a buffer to spare, and blocks nobody refers to are as on disk.\<close>

definition readable :: "u32 \<Rightarrow> int \<Rightarrow> cache \<Rightarrow> 'x kbio_scheme \<Rightarrow> bool" where
  "readable d pid c s \<longleftrightarrow> cst d s pid c \<and> (\<forall>n. c_owner c n = None \<and> c_refs c n + 1 < 2 ^ 32 \<and> (c_refs c n = 0 \<longrightarrow> c_view c n = c_disk c n)) \<and>
     card {n. c_refs c n \<noteq> 0} < NBUF"

lemma txn_readable: "txn d pid s x \<Longrightarrow> t_open x = {} \<Longrightarrow> card (t_log x) < NBUF \<Longrightarrow> readable d pid (tcache pid x) s"
  by (auto simp: readable_def txn_def tcache_def)

lemma readable_size: "readable d pid c s \<Longrightarrow> length (c_view c n) = BSIZE"
  using view_length by (auto simp: readable_def)

lemma bio_frame_fs:
  assumes "bio_frame s (t :: 'x kfs_scheme)"
  shows "sb t = sb s" and "itable t = itable s" and "held t = held s" and "mem t = mem s"
  using assms by (auto simp: bio_frame_def)

lemma with_block:
  fixes s :: "'x kbio_scheme"
  assumes r: "readable d pid c s"
    and k: "\<And>t i b. b_data b = c_view c n \<Longrightarrow> bio_frame s t \<Longrightarrow>
      (\<And>P. (\<And>u. readable d pid c u \<Longrightarrow> bio_frame s u \<Longrightarrow> P () u) \<Longrightarrow> wp (brelse i) P t) \<Longrightarrow> wp (K i b) Q t"
  shows "wp (bind (bread d n) (\<lambda>i. bind (the_buf i) (K i))) Q s"
proof -
  have c: "cst d s pid c" "c_owner c n = None" "c_refs c n + 1 < 2 ^ 32" "has_room c n" "c_refs c n = 0 \<Longrightarrow> c_view c n = c_disk c n"
    using r by (auto simp: readable_def has_room_def)
  let ?c = "c\<lparr>c_refs := (c_refs c)(n := c_refs c n + 1), c_owner := (c_owner c)(n := Some pid)\<rparr>"
  have undo: "?c\<lparr>c_refs := (c_refs ?c)(n := c_refs ?c n - 1), c_owner := (c_owner ?c)(n := None)\<rparr> = c"
    using c(2) by (cases c) (auto simp: fun_eq_iff)
  have "wp (bind (the_buf i) (K i)) Q t" if t: "cst d t pid ?c" "bio_frame s t" "handle d t i n" for i t
    unfolding wp_bind
  proof (rule the_buf_step[OF t(1,3)])
    fix b :: buf assume b: "b_data b = c_view ?c n"
    show "wp (K i b) Q t"
    proof (rule k[OF _ t(2)])
      show "b_data b = c_view c n" using b by simp
      fix P assume P: "\<And>u. readable d pid c u \<Longrightarrow> bio_frame s u \<Longrightarrow> P () u"
      show "wp (brelse i) P t"
      proof (rule brelse_step[OF t(1,3)])
        fix u assume u: "cst d u pid (?c\<lparr>c_refs := (c_refs ?c)(n := c_refs ?c n - 1), c_owner := (c_owner ?c)(n := None)\<rparr>)" "bio_frame t u"
        have "readable d pid c u" using r u(1) unfolding undo by (simp add: readable_def)
        then show "P () u" by (rule P) (rule bio_frame_trans[OF t(2) u(2)])
      qed (use c(5) in simp_all)
    qed
  qed
  then show ?thesis unfolding wp_bind[of "bread d n"] by (intro bread_step[OF c(1,4,2,3)])
qed

section \<open>The bytes of a file\<close>

definition fblock :: "(u32 \<Rightarrow> bytes) \<Rightarrow> inode \<Rightarrow> nat \<Rightarrow> u32" where
  "fblock V ip k = (if k < NDIRECT then i_addrs ip ! k else ind_get (V (i_addrs ip ! NDIRECT)) (k - NDIRECT))"

definition fbyte :: "(u32 \<Rightarrow> bytes) \<Rightarrow> inode \<Rightarrow> nat \<Rightarrow> u8" where
  "fbyte V ip p = V (fblock V ip (p div BSIZE)) ! (p mod BSIZE)"

definition fbytes :: "(u32 \<Rightarrow> bytes) \<Rightarrow> inode \<Rightarrow> nat \<Rightarrow> nat \<Rightarrow> bytes" where
  "fbytes V ip off n = map (fbyte V ip) [off..<off + n]"

text \<open>The inode has blocks for its first \<open>m\<close> bytes.\<close>

definition has_blocks :: "(u32 \<Rightarrow> bytes) \<Rightarrow> inode \<Rightarrow> nat \<Rightarrow> bool" where
  "has_blocks V ip m \<longleftrightarrow> m \<le> MAXFILE * BSIZE \<and>
     (\<forall>k. k * BSIZE < m \<longrightarrow> fblock V ip k \<noteq> 0 \<and> (NDIRECT \<le> k \<longrightarrow> i_addrs ip ! NDIRECT \<noteq> 0))"

lemma wp_bmap:
  fixes s :: "'x kfs_scheme"
  assumes r: "readable d pid c s" and ip: "itable s ! i = ip" "i_dev ip = d" and bn: "has_blocks (c_view c) ip m" "k * BSIZE < m"
    and q: "\<And>t. readable d pid c t \<Longrightarrow> bio_frame s t \<Longrightarrow> Q (fblock (c_view c) ip k) t"
  shows "wp (bmap i k) Q s"
proof -
  have f: "fblock (c_view c) ip k \<noteq> 0" "NDIRECT \<le> k \<Longrightarrow> i_addrs ip ! NDIRECT \<noteq> 0" "k < MAXFILE" using bn by (auto simp: has_blocks_def)
  have the: "bind (the_inode i) K s = K ip s" for K :: "inode \<Rightarrow> ('x kfs_scheme, u32) kfun" using ip(1) by (simp add: the_inode_def bind_gets)
  show ?thesis
  proof (cases "k < NDIRECT")
    case True
    then have "bmap i k s = Done (i_addrs ip ! k) s" "i_addrs ip ! k = fblock (c_view c) ip k" using f(1) by (simp_all add: bmap_def the fblock_def)
    then show ?thesis using q[OF r bio_frame_refl] by (simp add: wp_def)
  next
    case False
    let ?a = "i_addrs ip ! NDIRECT" and ?j = "k - NDIRECT"
    have nz: "?a \<noteq> 0" "?j < NINDIRECT" "ind_get (c_view c ?a) ?j = fblock (c_view c) ip k" using f False by (simp_all add: fblock_def MAXFILE_def)
    let ?K = "\<lambda>bp buf. bind (if ind_get (b_data buf) ?j = 0 then
               bind (balloc (i_dev ip)) (\<lambda>addr.
               bind (if addr \<noteq> 0 then
                       bind (upd_buf bp (\<lambda>x. x\<lparr>b_data := put32 (b_data x) (4 * ?j) addr\<rparr>)) (\<lambda>_. log_write bp)
                     else ret ()) (\<lambda>_.
               ret addr))
             else ret (ind_get (b_data buf) ?j)) (\<lambda>addr. bind (brelse bp) (\<lambda>_. ret addr))"
    have "bmap i k s = bind (bread d ?a) (\<lambda>bp. bind (the_buf bp) (?K bp)) s"
      using False nz(1,2) ip(2) by (simp add: bmap_def the Let_def bind_Done del: NINDIRECT_def NDIRECT_def)
    moreover have "wp (bind (bread d ?a) (\<lambda>bp. bind (the_buf bp) (?K bp))) Q s"
    proof (rule with_block[OF r])
      fix t bp buf
      assume b: "b_data buf = c_view c ?a" and rel: "\<And>P. (\<And>u. readable d pid c u \<Longrightarrow> bio_frame s u \<Longrightarrow> P () u) \<Longrightarrow> wp (brelse bp) P t"
      have "wp (brelse bp) (\<lambda>_. wp (ret (fblock (c_view c) ip k)) Q) t" by (rule rel) (simp add: wp_rules q)
      then show "wp (?K bp buf) Q t" using f(1) nz(3) b by (simp add: wp_rules)
    qed
    ultimately show ?thesis by (simp add: wp_def)
  qed
qed

section \<open>readi\<close>

lemma fbytes_append: "fbytes V ip off (m + n) = fbytes V ip off m @ fbytes V ip (off + m) n"
  unfolding fbytes_def add.assoc[symmetric] upt_add_eq_append[OF le_add1] by simp

lemma blk_part_bytes:
  assumes "length (V (fblock V ip (off div BSIZE))) = BSIZE"
  shows "take (blk_part off rem) (drop (off mod BSIZE) (V (fblock V ip (off div BSIZE)))) = fbytes V ip off (blk_part off rem)"
proof -
  let ?m = "blk_part off rem" and ?B = "V (fblock V ip (off div BSIZE))"
  have le: "?m \<le> BSIZE - off mod BSIZE" by (simp add: blk_part_def)
  have "fbyte V ip (off + j) = ?B ! (off mod BSIZE + j)" if "j < ?m" for j
  proof -
    have j: "off mod BSIZE + j < BSIZE" using that le by simp
    have e: "off + j = off div BSIZE * BSIZE + (off mod BSIZE + j)" by (simp add: div_mult_mod_eq flip: add.assoc)
    have "(off + j) div BSIZE = off div BSIZE + (off mod BSIZE + j) div BSIZE" by (subst e, rule div_mult_self3) simp
    moreover have "(off + j) mod BSIZE = (off mod BSIZE + j) mod BSIZE" by (subst e, rule mod_mult_self3)
    ultimately have "(off + j) div BSIZE = off div BSIZE" "(off + j) mod BSIZE = off mod BSIZE + j" using j by simp_all
    then show ?thesis by (simp add: fbyte_def del: BSIZE_def)
  qed
  then show ?thesis using le assms by (intro nth_equalityI) (simp_all add: fbytes_def del: BSIZE_def)
qed

lemma wp_readi_loop:
  fixes s :: "'x kfs_scheme"
  assumes "readable d pid c s" "itable s ! i = ip" "i_dev ip = d" "tot \<le> n" "has_blocks (c_view c) ip (off + (n - tot))"
    and "\<And>t. readable d pid c t \<Longrightarrow> bio_frame s t \<Longrightarrow> Q (int n, acc @ fbytes (c_view c) ip off (n - tot)) t"
  shows "wp (readi_loop i KernDst off tot n acc) Q s"
  using assms
proof (induction "n - tot" arbitrary: off tot acc s rule: less_induct)
  case less
  let ?V = "c_view c" and ?m = "blk_part off (n - tot)" and ?a = "fblock (c_view c) ip (off div BSIZE)"
  show ?case
  proof (cases "tot < n")
    case False
    then have "tot = n" using less.prems(4) by simp
    then show ?thesis using less.prems(6)[OF less.prems(1) bio_frame_refl] by (simp add: wp_def readi_loop.simps fbytes_def)
  next
    case True
    have m: "0 < ?m" "?m \<le> n - tot" using True by (simp_all add: blk_part_pos) (simp add: blk_part_def)
    have in_file: "off div BSIZE * BSIZE < off + (n - tot)" using True div_times_less_eq_dividend[of off BSIZE] by linarith
    then have nz: "?a \<noteq> 0" using less.prems(5) by (simp add: has_blocks_def)
    have len: "length (?V ?a) = BSIZE" by (rule readable_size[OF less.prems(1)])
    let ?K = "\<lambda>bp buf. let m = ?m; bs = take m (drop (off mod BSIZE) (b_data buf)) in
      bind (either_copyout KernDst bs) (\<lambda>r.
      if r = - 1 then bind (brelse bp) (\<lambda>_. ret (- 1, acc)) else
      bind (brelse bp) (\<lambda>_. readi_loop i (dst_add KernDst m) (off + m) (tot + m) n (acc @ bs)))"
    have run: "readi_loop i KernDst off tot n acc s = bind (bmap i (off div BSIZE)) (\<lambda>addr.
      if addr = 0 then ret (int tot, acc) else
      bind (the_inode i) (\<lambda>ip. bind (bread (i_dev ip) addr) (\<lambda>bp. bind (the_buf bp) (?K bp)))) s"
      using True by (subst readi_loop.simps) simp
    have "wp (bind (bmap i (off div BSIZE)) (\<lambda>addr.
      if addr = 0 then ret (int tot, acc) else
      bind (the_inode i) (\<lambda>ip. bind (bread (i_dev ip) addr) (\<lambda>bp. bind (the_buf bp) (?K bp))))) Q s"
      unfolding wp_bind_fun
    proof (rule wp_bmap[OF less.prems(1-3,5) in_file])
      fix t assume t: "readable d pid c t" "bio_frame s t"
      have it: "itable t ! i = ip" using less.prems(2) bio_frame_fs(2)[OF t(2)] by simp
      have "wp (bind (bread d ?a) (\<lambda>bp. bind (the_buf bp) (?K bp))) Q t"
      proof (rule with_block[OF t(1)])
        fix u bp and buf :: buf
        assume b: "b_data buf = ?V ?a" and rel: "\<And>P. (\<And>v. readable d pid c v \<Longrightarrow> bio_frame t v \<Longrightarrow> P () v) \<Longrightarrow> wp (brelse bp) P u"
        have bs: "take ?m (drop (off mod BSIZE) (b_data buf)) = fbytes ?V ip off ?m" unfolding b using len by (rule blk_part_bytes)
        have e2: "off + ?m + (n - (tot + ?m)) = off + (n - tot)" using m(2) by linarith
        have "n - tot = ?m + (n - (tot + ?m))" using m(2) by linarith
        then have "fbytes ?V ip off (n - tot) = fbytes ?V ip off (?m + (n - (tot + ?m)))" by (rule arg_cong)
        then have app: "fbytes ?V ip off (n - tot) = fbytes ?V ip off ?m @ fbytes ?V ip (off + ?m) (n - (tot + ?m))"
          unfolding fbytes_append .
        have "wp (brelse bp) (\<lambda>_. wp (readi_loop i KernDst (off + ?m) (tot + ?m) n (acc @ fbytes ?V ip off ?m)) Q) u"
        proof (rule rel)
          fix v assume v: "readable d pid c v" "bio_frame t v"
          have sv: "bio_frame s v" by (rule bio_frame_trans[OF t(2) v(2)])
          show "wp (readi_loop i KernDst (off + ?m) (tot + ?m) n (acc @ fbytes ?V ip off ?m)) Q v"
          proof (rule less.hyps[OF _ v(1)])
            show "itable v ! i = ip" using less.prems(2) bio_frame_fs(2)[OF sv] by simp
            show "has_blocks ?V ip (off + ?m + (n - (tot + ?m)))" using less.prems(5) unfolding e2 .
            fix w assume "readable d pid c w" "bio_frame v w"
            then show "Q (int n, (acc @ fbytes ?V ip off ?m) @ fbytes ?V ip (off + ?m) (n - (tot + ?m))) w"
              using less.prems(6)[of w] bio_frame_trans[OF sv] app by simp
          qed (use less.prems(3) m in simp_all)
        qed
        then show "wp (?K bp buf) Q u" using bs by (simp add: Let_def either_copyout_def wp_rules wp_bind_fun del: BSIZE_def)
      qed
      then show "wp (if ?a = 0 then ret (int tot, acc) else bind (the_inode i) (\<lambda>ip. bind (bread (i_dev ip) ?a) (\<lambda>bp. bind (the_buf bp) (?K bp)))) Q t"
        using nz it less.prems(3) by (simp add: the_inode_def wp_rules wp_bind_fun)
    qed
    then show ?thesis unfolding wp_def run .
  qed
qed

lemma readi_spec:
  fixes s :: "'x kfs_scheme"
  assumes r: "readable d pid c s" and ip: "itable s ! i = ip" "i_dev ip = d" and blocks: "has_blocks (c_view c) ip (unat (i_size ip))"
    and k: "k = (if unat (i_size ip) < unat off \<or> 2 ^ 32 \<le> unat off + unat n then 0 else min (unat n) (unat (i_size ip) - unat off))"
  shows "\<exists>t. readi i KernDst off n s = Done (int k, fbytes (c_view c) ip (unat off) k) t \<and> readable d pid c t \<and> bio_frame s t \<and> itable t = itable s"
proof -
  let ?z = "i_size ip"
  have add: "unat (off + n) = (unat off + unat n) mod 2 ^ 32" unfolding unat_word_ariths(1) by simp
  have lt: "unat off < 2 ^ 32" "unat n < 2 ^ 32" using unsigned_less[of off] unsigned_less[of n] by simp_all
  have ov: "off + n < off \<longleftrightarrow> 2 ^ 32 \<le> unat off + unat n"
  proof (cases "unat off + unat n < 2 ^ 32")
    case False
    then have "unat (off + n) = unat off + unat n - 2 ^ 32" using lt unfolding add by (simp add: mod_if)
    then show ?thesis using False lt by (simp add: word_less_nat_alt)
  qed (simp add: word_less_nat_alt add)
  have it: "readi i KernDst off n s = (if ?z < off \<or> off + n < off then ret (0, []) else
     let n = (if ?z < off + n then ?z - off else n) in readi_loop i KernDst (unat off) 0 (unat n) []) s"
    using ip(1) by (simp add: readi_def the_inode_def bind_gets)
  show ?thesis
  proof (cases "?z < off \<or> off + n < off")
    case True
    then have "k = 0" using k ov by (auto simp: word_less_nat_alt)
    then show ?thesis using it True r by (auto simp: fbytes_def)
  next
    case False
    let ?n = "if ?z < off + n then ?z - off else n"
    have nov: "unat off + unat n < 2 ^ 32" and le: "unat off \<le> unat ?z" using False ov by (simp_all add: word_less_nat_alt)
    have un: "unat ?n = k"
    proof (cases "?z < off + n")
      case True
      then have "unat (?z - off) = unat ?z - unat off" using le by (simp add: unat_sub word_le_nat_alt)
      then show ?thesis using True nov le unfolding k by (simp add: word_less_nat_alt add)
    next
      case False
      then show ?thesis using nov le unfolding k by (simp add: word_less_nat_alt add)
    qed
    have kz: "unat off + k \<le> unat ?z" using nov le unfolding k by simp
    have hb: "has_blocks (c_view c) ip (unat off + (k - 0))" using blocks kz by (auto simp: has_blocks_def)
    have "wp (readi_loop i KernDst (unat off) 0 k []) (\<lambda>x t. x = (int k, fbytes (c_view c) ip (unat off) k) \<and> readable d pid c t \<and> bio_frame s t) s"
      by (rule wp_readi_loop[OF r ip _ hb]) simp_all
    then obtain t where t: "readi_loop i KernDst (unat off) 0 k [] s = Done (int k, fbytes (c_view c) ip (unat off) k) t" "readable d pid c t" "bio_frame s t"
      unfolding wp_iff by blast
    have "readi i KernDst off n s = readi_loop i KernDst (unat off) 0 k [] s" unfolding it if_not_P[OF False] Let_def un ..
    then show ?thesis using t bio_frame_fs(2)[OF t(3)] by auto
  qed
qed

text \<open>C9: \<open>readi\<close> gives the bytes of the file. For an inode with blocks for all of its size, a read at \<open>off\<close> of \<open>n\<close> bytes into kernel
  memory returns; the result is 0 if \<open>off\<close> is past the end or \<open>off + n\<close> overflows, and otherwise the smaller of \<open>n\<close> and what is left
  of the file, with just the bytes of the file from \<open>off\<close> on, through direct and indirect blocks. The cache and the disk are as
  before.\<close>

theorem readi_reads_file:
  fixes s :: "'x kfs_scheme"
  assumes r: "readable d pid c s" and ip: "itable s ! i = ip" "i_dev ip = d" and blocks: "has_blocks (c_view c) ip (unat (i_size ip))"
    and k: "k = (if unat (i_size ip) < unat off \<or> 2 ^ 32 \<le> unat off + unat n then 0 else min (unat n) (unat (i_size ip) - unat off))"
  shows "\<exists>t. readi i KernDst off n s = Done (int k, fbytes (c_view c) ip (unat off) k) t \<and> readable d pid c t \<and> bio_frame s t \<and> itable t = itable s"
  by (rule readi_spec[OF assms])

lemma idle_readable:
  "idle d pid s D \<Longrightarrow> readable d pid \<lparr>c_view = D, c_disk = D, c_trace = wtrace s, c_refs = (\<lambda>_. 0), c_owner = (\<lambda>_. None)\<rparr> s"
  by (simp add: idle_def readable_def)

lemma readable_itable: "readable d pid c (s\<lparr>itable := it\<rparr>) = readable d pid c (s :: 'x kfs_scheme)"
  unfolding readable_def by (subst cst_cong[of "s\<lparr>itable := it\<rparr>" s]) simp_all

theorem readi_reads_file_witness:
  "\<exists>s t. binit fs_state = Done () s \<and>
    readi 0 KernDst 4 100 (s\<lparr>itable := [zero_inode\<lparr>i_dev := 1, i_type := T_FILE, i_size := 8, i_addrs := 45 # replicate 12 0\<rparr>]\<rparr>) = Done (4, [255, 255, 0, 0]) t"
proof -
  let ?ip = "zero_inode\<lparr>i_dev := 1, i_type := T_FILE, i_size := 8, i_addrs := 45 # replicate 12 0\<rparr>"
  obtain s where s: "binit fs_state = Done () s" "idle 1 1 s fs_disk" using fs_started by blast
  let ?s = "s\<lparr>itable := [?ip]\<rparr>" and ?c = "\<lparr>c_view = fs_disk, c_disk = fs_disk, c_trace = wtrace s, c_refs = (\<lambda>_. 0), c_owner = (\<lambda>_. None)\<rparr>"
  have r: "readable 1 1 ?c ?s" unfolding readable_itable by (rule idle_readable[OF s(2)])
  have "k = 0" if "k * BSIZE < 8" for k using that by simp
  then have "has_blocks (c_view ?c) ?ip (unat (i_size ?ip))" by (auto simp: has_blocks_def fblock_def)
  from readi_reads_file[OF r _ _ this refl, of 0 4 100]
  have "\<exists>t. readi 0 KernDst 4 100 ?s = Done (4, fbytes fs_disk ?ip 4 4) t" by auto
  moreover have "fbytes fs_disk ?ip 4 4 = [255, 255, 0, 0]" by (simp add: fbytes_def fbyte_def fblock_def fs_disk_def upt_rec nth_append)
  ultimately show ?thesis using s(1) by auto
qed

section \<open>dirlookup\<close>

definition entry :: "(u32 \<Rightarrow> bytes) \<Rightarrow> inode \<Rightarrow> nat \<Rightarrow> dirent" where
  "entry V dp k = dec_dirent (fbytes V dp (sizeof_dirent * k) sizeof_dirent)"

definition named :: "(u32 \<Rightarrow> bytes) \<Rightarrow> inode \<Rightarrow> bytes \<Rightarrow> nat \<Rightarrow> bool" where
  "named V dp name k \<longleftrightarrow> de_inum (entry V dp k) \<noteq> 0 \<and> namecmp name (de_name (entry V dp k)) = 0"

lemma readi_entry:
  fixes s :: "'x kfs_scheme"
  assumes r: "readable d pid c s" and ip: "itable s ! i = ip" "i_dev ip = d" and blocks: "has_blocks (c_view c) ip (unat (i_size ip))"
    and k: "sizeof_dirent * Suc k \<le> unat (i_size ip)"
  obtains t where "readi i KernDst (of_nat (sizeof_dirent * k)) (of_nat sizeof_dirent) s =
      Done (int sizeof_dirent, fbytes (c_view c) ip (sizeof_dirent * k) sizeof_dirent) t"
    "readable d pid c t" "bio_frame s t"
proof -
  have z: "unat (i_size ip) < 2 ^ 32" using unsigned_less[of "i_size ip"] by simp
  have u: "unat (of_nat (sizeof_dirent * k) :: u32) = sizeof_dirent * k" "unat (of_nat sizeof_dirent :: u32) = sizeof_dirent"
    by (rule unat_of_nat_small, use k z in simp, simp)
  have "sizeof_dirent = (if unat (i_size ip) < unat (of_nat (sizeof_dirent * k) :: u32) \<or> 2 ^ 32 \<le> unat (of_nat (sizeof_dirent * k) :: u32) + unat (of_nat sizeof_dirent :: u32)
      then 0 else min (unat (of_nat sizeof_dirent :: u32)) (unat (i_size ip) - unat (of_nat (sizeof_dirent * k) :: u32)))"
    unfolding u using k z by simp
  from readi_spec[OF r ip blocks this] that show thesis unfolding u by blast
qed

lemma dirlookup_loop_spec:
  fixes s :: "'x kfs_scheme"
  assumes "readable d pid c s" "itable s ! i = dp" "i_dev dp = d" "has_blocks (c_view c) dp (unat (i_size dp))"
    and "unat (i_size dp) = sizeof_dirent * n" "k \<le> n"
  shows "\<exists>t. dirlookup_loop i name (sizeof_dirent * n) (sizeof_dirent * k) s =
      Done (map_option (\<lambda>j. (de_inum (entry (c_view c) dp j), sizeof_dirent * j)) (find (named (c_view c) dp name) [k..<n])) t \<and>
    readable d pid c t \<and> bio_frame s t"
  using assms
proof (induction "n - k" arbitrary: k s)
  case 0
  then show ?case using bio_frame_refl by (subst dirlookup_loop.simps) auto
next
  case (Suc m)
  have k: "sizeof_dirent * Suc k \<le> unat (i_size dp)" "k < n" using Suc(2,7) by simp_all
  obtain t where t: "readi i KernDst (of_nat (sizeof_dirent * k)) (of_nat sizeof_dirent) s =
      Done (int sizeof_dirent, fbytes (c_view c) dp (sizeof_dirent * k) sizeof_dirent) t" "readable d pid c t" "bio_frame s t"
    by (rule readi_entry[OF Suc(3-6) k(1)])
  have run: "dirlookup_loop i name (sizeof_dirent * n) (sizeof_dirent * k) s =
      (if named (c_view c) dp name k then Done (Some (de_inum (entry (c_view c) dp k), sizeof_dirent * k)) t
       else dirlookup_loop i name (sizeof_dirent * n) (sizeof_dirent * Suc k) t)"
    using t(1) k(2) by (subst dirlookup_loop.simps) (auto simp: bind_def named_def entry_def Let_def add.commute)
  have u: "[k..<n] = k # [Suc k..<n]" using k(2) by (rule upt_conv_Cons)
  show ?case
  proof (cases "named (c_view c) dp name k")
    case True
    then show ?thesis unfolding run u using t(2,3) by auto
  next
    case False
    have "itable t ! i = dp" using Suc(4) bio_frame_fs(2)[OF t(3)] by simp
    moreover have "m = n - Suc k" "Suc k \<le> n" using Suc(2) k(2) by simp_all
    ultimately obtain v where "dirlookup_loop i name (sizeof_dirent * n) (sizeof_dirent * Suc k) t =
        Done (map_option (\<lambda>j. (de_inum (entry (c_view c) dp j), sizeof_dirent * j)) (find (named (c_view c) dp name) [Suc k..<n])) v"
        "readable d pid c v" "bio_frame t v" using Suc(1)[OF _ t(2) _ Suc(5-7), of "Suc k"] by blast
    then show ?thesis unfolding run u using False bio_frame_trans[OF t(3)] by auto
  qed
qed

text \<open>C39: \<open>dirlookup\<close> finds the first entry of the name. On a directory whose size is a multiple of the size of an entry it returns nothing
  if no entry in use has the name. Otherwise it takes the first one that does: the result is the table entry that \<open>iget\<close> gives for the
  inode number there, with the offset. Nothing but the buffers has changed before \<open>iget\<close>. On an inode that is not a directory it panics.\<close>

theorem dirlookup_finds_first:
  fixes s :: "'x kfs_scheme"
  assumes r: "readable d pid c s" and dp: "itable s ! i = dp" "i_dev dp = d" and blocks: "has_blocks (c_view c) dp (unat (i_size dp))"
    and n: "unat (i_size dp) = sizeof_dirent * n"
  shows "if i_type dp \<noteq> T_DIR then dirlookup i name s = Panic ''dirlookup not DIR''
    else \<exists>t. readable d pid c t \<and> bio_frame s t \<and>
      (if \<forall>k<n. \<not> named (c_view c) dp name k then dirlookup i name s = Done None t
       else \<exists>k<n. named (c_view c) dp name k \<and> (\<forall>j<k. \<not> named (c_view c) dp name j) \<and>
         dirlookup i name s = bind (iget d (ucast (de_inum (entry (c_view c) dp k)))) (\<lambda>e. ret (Some (e, sizeof_dirent * k))) t)"
proof (cases "i_type dp = T_DIR")
  case False
  then show ?thesis using dp(1) by (simp add: dirlookup_def the_inode_def bind_gets)
next
  case True
  let ?f = "find (named (c_view c) dp name) [0..<n]"
  obtain t where t: "dirlookup_loop i name (unat (i_size dp)) 0 s =
      Done (map_option (\<lambda>j. (de_inum (entry (c_view c) dp j), sizeof_dirent * j)) ?f) t" "readable d pid c t" "bio_frame s t"
    using dirlookup_loop_spec[OF r dp blocks n, of 0 name] unfolding n by auto
  have run: "dirlookup i name s = (case ?f of None \<Rightarrow> Done None t
      | Some k \<Rightarrow> bind (iget d (ucast (de_inum (entry (c_view c) dp k)))) (\<lambda>e. ret (Some (e, sizeof_dirent * k))) t)"
    using True dp t(1) by (auto simp: dirlookup_def the_inode_def bind_gets bind_Done split: option.splits)
  have "if \<forall>k<n. \<not> named (c_view c) dp name k then dirlookup i name s = Done None t
       else \<exists>k<n. named (c_view c) dp name k \<and> (\<forall>j<k. \<not> named (c_view c) dp name j) \<and>
         dirlookup i name s = bind (iget d (ucast (de_inum (entry (c_view c) dp k)))) (\<lambda>e. ret (Some (e, sizeof_dirent * k))) t"
  proof (cases ?f)
    case None
    then have "\<forall>k<n. \<not> named (c_view c) dp name k" unfolding find_None_iff by auto
    then show ?thesis unfolding run None by simp
  next
    case (Some k)
    then show ?thesis unfolding run Some using Some[unfolded find_Some_iff] by auto
  qed
  moreover have "\<not> i_type dp \<noteq> T_DIR" using True by simp
  ultimately show ?thesis unfolding if_not_P[OF \<open>\<not> i_type dp \<noteq> T_DIR\<close>] using t(2,3) by blast
qed

theorem dirlookup_finds_first_witness:
  "\<exists>s t. binit fs_state = Done () s \<and>
    dirlookup 0 [255, 255, 255, 255, 0] (s\<lparr>itable := [zero_inode\<lparr>i_dev := 1, i_type := T_DIR, i_size := 16, i_addrs := 45 # replicate 12 0\<rparr>]\<rparr>) =
      bind (iget 1 0xFFFF) (\<lambda>e. ret (Some (e, 0))) t"
proof -
  let ?dp = "zero_inode\<lparr>i_dev := 1, i_type := T_DIR, i_size := 16, i_addrs := 45 # replicate 12 0\<rparr>"
  obtain s where s: "binit fs_state = Done () s" "idle 1 1 s fs_disk" using fs_started by blast
  let ?s = "s\<lparr>itable := [?dp]\<rparr>" and ?c = "\<lparr>c_view = fs_disk, c_disk = fs_disk, c_trace = wtrace s, c_refs = (\<lambda>_. 0), c_owner = (\<lambda>_. None)\<rparr>"
  let ?n = "[255, 255, 255, 255, 0] :: bytes"
  have r: "readable 1 1 ?c ?s" unfolding readable_itable by (rule idle_readable[OF s(2)])
  have "k = 0" if "k * BSIZE < 16" for k using that by simp
  then have b: "has_blocks (c_view ?c) ?dp (unat (i_size ?dp))" by (auto simp: has_blocks_def fblock_def)
  have "fbytes fs_disk ?dp 0 16 = [255, 255, 255, 255, 255, 255, 0, 0, 0, 0, 0, 0, 0, 0, 0, 0]" by (simp add: fbytes_def fbyte_def fblock_def fs_disk_def upt_rec nth_append)
  then have e: "entry fs_disk ?dp 0 = \<lparr>de_inum = 0xFFFF, de_name = [255, 255, 255, 255, 0, 0, 0, 0, 0, 0, 0, 0, 0, 0]\<rparr>"
    by (simp add: entry_def dec_dirent_def get16_def)
  have "strncmp p q (numeral k) = (if chd p \<noteq> 0 \<and> chd p = chd q then strncmp (tl p) (tl q) (pred_numeral k) else uint (chd p) - uint (chd q))" for p q k
    by (simp add: numeral_eq_Suc)
  then have m: "named fs_disk ?dp ?n 0" using e by (simp add: named_def namecmp_def chd_def)
  then have ex: "\<not> (\<forall>k<1. \<not> named (c_view ?c) ?dp ?n k)" by simp
  have n: "unat (i_size ?dp) = sizeof_dirent * 1" by simp
  have "\<exists>t. dirlookup 0 ?n ?s = bind (iget 1 0xFFFF) (\<lambda>e. ret (Some (e, 0))) t"
    using dirlookup_finds_first[OF r _ _ b n, of 0 ?n] e unfolding if_not_P[OF ex] by auto
  then show ?thesis using s(1) by blast
qed

end
