(* ===== verification/Frames.thy ===== *)
theory Frames
  imports Log
begin

text \<open>
  What each layer leaves alone. The state of the kernel is a chain of extensible records, and a function of
  one layer never touches the fields of the layers above it: process code keeps \<open>kproc.more\<close>, the buffer
  cache keeps \<open>kbio.more\<close>, and the log keeps \<open>klog.more\<close>.
\<close>

lemma keeps_kproc_of_kmach: "keeps kmach.more f \<Longrightarrow> keeps (kproc.more :: 'x kproc_scheme \<Rightarrow> 'x) f"
proof -
  have "kmach.more t = kmach.more s \<Longrightarrow> kproc.more t = kproc.more s" for s t :: "'x kproc_scheme"
    by (cases s, cases t, simp)
  then show "keeps kmach.more f \<Longrightarrow> keeps (kproc.more :: 'x kproc_scheme \<Rightarrow> 'x) f" unfolding keeps_def by blast
qed

lemma keeps_kbio_of_kproc: "keeps kproc.more f \<Longrightarrow> keeps (kbio.more :: 'x kbio_scheme \<Rightarrow> 'x) f"
proof -
  have "kproc.more t = kproc.more s \<Longrightarrow> kbio.more t = kbio.more s" for s t :: "'x kbio_scheme"
    by (cases s, cases t, simp)
  then show "keeps kproc.more f \<Longrightarrow> keeps (kbio.more :: 'x kbio_scheme \<Rightarrow> 'x) f" unfolding keeps_def by blast
qed

lemma keeps_klog_of_kbio: "keeps kbio.more f \<Longrightarrow> keeps (klog.more :: 'x klog_scheme \<Rightarrow> 'x) f"
proof -
  have "kbio.more t = kbio.more s \<Longrightarrow> klog.more t = klog.more s" for s t :: "'x klog_scheme"
    by (cases s, cases t, simp)
  then show "keeps kbio.more f \<Longrightarrow> keeps (klog.more :: 'x klog_scheme \<Rightarrow> 'x) f" unfolding keeps_def by blast
qed

section \<open>Processes and sleep locks\<close>

named_theorems more_keeps \<open>functions that keep the layers above theirs\<close>

lemma more_locks [more_keeps]: "keeps kproc.more (acquire lk)" "keeps kproc.more (release lk)"
  by (simp_all add: keeps_def acquire_def release_def)

lemma more_upd_proc [more_keeps]: "keeps kproc.more (upd_proc i f)"
  by (simp add: keeps_def upd_proc_def)

lemma more_tf [more_keeps]: "keeps kproc.more (tf_get tf r)" "keeps kproc.more (tf_set tf r v)"
  by (simp_all add: keeps_def tf_get_def tf_set_def)

lemma more_wakeup [more_keeps]: "keeps kproc.more (wakeup c)"
  unfolding wakeup_def wakeup_one_def by (intro keeps_intros more_keeps)

lemma more_sleep [more_keeps]: "keeps v (sleep c lk)"
  unfolding sleep_def by (simp add: keeps_def bind_def split: outcome.splits)

lemma more_copies [more_keeps]: "keeps kproc.more (copyout pg sz va bs)" "keeps kproc.more (copyin pg sz va n)"
  by (rule keeps_kproc_of_kmach, rule keeps_intros)+

lemma more_either [more_keeps]: "keeps kproc.more (either_copyout dst bs)" "keeps kproc.more (either_copyin src n)"
  unfolding either_copyout_def either_copyin_def
  by (auto intro!: keeps_intros more_keeps split: copy_dst.split copy_src.split)

text \<open>A sleep lock changes nothing but the lock word, which its owner's \<open>upd\<close> writes.\<close>

lemma more_acquiresleep:
  assumes "\<And>f s. v (upd f s) = v s" and "\<And>s lk. v (s\<lparr>held := lk\<rparr>) = v s" and "\<And>s ps. v (s\<lparr>procs := ps\<rparr>) = v s"
  shows "keeps v (acquiresleep lk ch rd upd)" and "keeps v (releasesleep lk ch upd)" and "keeps v (holdingsleep lk rd)"
proof -
  have l: "keeps v (acquire l)" "keeps v (release l)" for l
    using assms(2) by (simp_all add: keeps_def acquire_def release_def)
  have w: "keeps v (wakeup c)" for c
    unfolding wakeup_def wakeup_one_def upd_proc_def by (intro keeps_intros l) (simp add: assms(3))
  have p: "keeps v mypid" unfolding mypid_def by (intro keeps_intros)
  show "keeps v (acquiresleep lk ch rd upd)" unfolding acquiresleep_def
    by (intro keeps_intros l w p more_sleep) (rule assms(1))
  show "keeps v (releasesleep lk ch upd)" unfolding releasesleep_def
    by (intro keeps_intros l w) (rule assms(1))
  show "keeps v (holdingsleep lk rd)" unfolding holdingsleep_def
    by (intro keeps_intros l p)
qed

section \<open>The buffer cache\<close>

lemma more_buf [more_keeps]: "keeps v (the_buf i)" "keeps kbio.more (upd_buf i f)"
  by (simp_all add: keeps_def the_buf_def upd_buf_def)

lemma more_links: "kbio.more (link_front i s) = kbio.more s" "kbio.more (unlink i s) = kbio.more s"
  by (simp_all add: link_front_def unlink_def set_nxt_def set_prv_def Let_def split: bptr.splits)

lemma more_bio_locks [more_keeps]: "keeps kbio.more (acquire lk)" "keeps kbio.more (release lk)"
  by (simp_all add: keeps_def acquire_def release_def)

lemma more_buf_sleep [more_keeps]:
  "keeps kbio.more (buf_acquiresleep i)" "keeps kbio.more (buf_releasesleep i)" "keeps kbio.more (buf_holdingsleep i)"
  unfolding buf_acquiresleep_def buf_releasesleep_def buf_holdingsleep_def
  by (intro more_acquiresleep; simp add: buf_lock_upd_def)+

lemma more_find [more_keeps]: "keeps v (bget_find n p d b)"
proof (induction n arbitrary: p)
  case 0
  then show ?case by (cases p) (simp_all only: bget_find.simps, (rule keeps_intros)+)
next
  case (Suc n)
  then show ?case by (cases p) (simp_all only: bget_find.simps, (intro keeps_intros more_keeps)+)
qed

lemma more_lru [more_keeps]: "keeps v (bget_lru n p)"
proof (induction n arbitrary: p)
  case 0
  then show ?case by (cases p) (simp_all only: bget_lru.simps, (rule keeps_intros)+)
next
  case (Suc n)
  then show ?case by (cases p) (simp_all only: bget_lru.simps, (intro keeps_intros more_keeps)+)
qed

lemma more_bget [more_keeps]: "keeps kbio.more (bget d b)"
  unfolding bget_def by (intro keeps_intros more_keeps)

lemma more_disk_rw [more_keeps]: "keeps kbio.more (disk_rw i w)"
  by (simp add: keeps_def disk_rw_def Let_def)

lemma more_bio [more_keeps]:
  "keeps kbio.more (bread d b)" "keeps kbio.more (bwrite i)" "keeps kbio.more (brelse i)"
  "keeps kbio.more (bpin i)" "keeps kbio.more (bunpin i)"
  unfolding bread_def bwrite_def brelse_def bpin_def bunpin_def
  by (intro keeps_intros more_keeps; simp add: more_links)+

section \<open>The log\<close>

lemmas more_log_bio [more_keeps] = more_bio[THEN keeps_klog_of_kbio] more_buf(2)[THEN keeps_klog_of_kbio]
  more_bio_locks[THEN keeps_klog_of_kbio] more_wakeup[THEN keeps_kbio_of_kproc, THEN keeps_klog_of_kbio]

lemma more_set_block [more_keeps]: "keeps klog.more (set_block i v)"
  by (simp add: keeps_def set_block_def)

lemma more_heads [more_keeps]: "keeps klog.more write_head" "keeps klog.more read_head"
  unfolding write_head_def read_head_def by (intro keeps_intros more_keeps; simp)+

lemma more_trans [more_keeps]: "keeps klog.more (install_trans r)" "keeps klog.more write_log"
  unfolding install_trans_def install_block_def write_log_def write_log_block_def by (intro keeps_intros more_keeps)+

lemma more_log [more_keeps]:
  "keeps klog.more commit" "keeps klog.more recover_from_log" "keeps klog.more (initlog d st)"
  "keeps klog.more begin_op" "keeps klog.more end_op" "keeps klog.more (log_write b)"
  unfolding commit_def recover_from_log_def initlog_def begin_op_def end_op_def log_write_def Let_def
  by (intro keeps_intros more_keeps; simp)+

end
