(* ===== verification/Virtio.thy ===== *)
theory Virtio
  imports Fs Frames
begin

text \<open>
  The disk driver, \<^verbatim>\<open>kernel/virtio_disk.c\<close>, with the structures of \<^verbatim>\<open>kernel/virtio.h\<close>. The three queue pages
  are kept as typed fields: the descriptor table, the available ring and the used ring. An address in
  a descriptor names the object it points to. The device's registers are a function of what the driver
  has written to them so far, an argument of \<open>virtio_disk_init\<close>.
\<close>

section \<open>virtio.h\<close>

definition VIRTIO_MMIO_MAGIC_VALUE :: nat where [simp]: "VIRTIO_MMIO_MAGIC_VALUE = 0x000"
definition VIRTIO_MMIO_VERSION :: nat where [simp]: "VIRTIO_MMIO_VERSION = 0x004"
definition VIRTIO_MMIO_DEVICE_ID :: nat where [simp]: "VIRTIO_MMIO_DEVICE_ID = 0x008"
definition VIRTIO_MMIO_VENDOR_ID :: nat where [simp]: "VIRTIO_MMIO_VENDOR_ID = 0x00c"
definition VIRTIO_MMIO_DEVICE_FEATURES :: nat where [simp]: "VIRTIO_MMIO_DEVICE_FEATURES = 0x010"
definition VIRTIO_MMIO_DRIVER_FEATURES :: nat where [simp]: "VIRTIO_MMIO_DRIVER_FEATURES = 0x020"
definition VIRTIO_MMIO_QUEUE_SEL :: nat where [simp]: "VIRTIO_MMIO_QUEUE_SEL = 0x030"
definition VIRTIO_MMIO_QUEUE_NUM_MAX :: nat where [simp]: "VIRTIO_MMIO_QUEUE_NUM_MAX = 0x034"
definition VIRTIO_MMIO_QUEUE_NUM :: nat where [simp]: "VIRTIO_MMIO_QUEUE_NUM = 0x038"
definition VIRTIO_MMIO_QUEUE_READY :: nat where [simp]: "VIRTIO_MMIO_QUEUE_READY = 0x044"
definition VIRTIO_MMIO_QUEUE_NOTIFY :: nat where [simp]: "VIRTIO_MMIO_QUEUE_NOTIFY = 0x050"
definition VIRTIO_MMIO_INTERRUPT_STATUS :: nat where [simp]: "VIRTIO_MMIO_INTERRUPT_STATUS = 0x060"
definition VIRTIO_MMIO_INTERRUPT_ACK :: nat where [simp]: "VIRTIO_MMIO_INTERRUPT_ACK = 0x064"
definition VIRTIO_MMIO_STATUS :: nat where [simp]: "VIRTIO_MMIO_STATUS = 0x070"
definition VIRTIO_MMIO_QUEUE_DESC_LOW :: nat where [simp]: "VIRTIO_MMIO_QUEUE_DESC_LOW = 0x080"
definition VIRTIO_MMIO_QUEUE_DESC_HIGH :: nat where [simp]: "VIRTIO_MMIO_QUEUE_DESC_HIGH = 0x084"
definition VIRTIO_MMIO_DRIVER_DESC_LOW :: nat where [simp]: "VIRTIO_MMIO_DRIVER_DESC_LOW = 0x090"
definition VIRTIO_MMIO_DRIVER_DESC_HIGH :: nat where [simp]: "VIRTIO_MMIO_DRIVER_DESC_HIGH = 0x094"
definition VIRTIO_MMIO_DEVICE_DESC_LOW :: nat where [simp]: "VIRTIO_MMIO_DEVICE_DESC_LOW = 0x0a0"
definition VIRTIO_MMIO_DEVICE_DESC_HIGH :: nat where [simp]: "VIRTIO_MMIO_DEVICE_DESC_HIGH = 0x0a4"

definition VIRTIO_CONFIG_S_ACKNOWLEDGE :: u32 where "VIRTIO_CONFIG_S_ACKNOWLEDGE = 1"
definition VIRTIO_CONFIG_S_DRIVER :: u32 where "VIRTIO_CONFIG_S_DRIVER = 2"
definition VIRTIO_CONFIG_S_DRIVER_OK :: u32 where "VIRTIO_CONFIG_S_DRIVER_OK = 4"
definition VIRTIO_CONFIG_S_FEATURES_OK :: u32 where "VIRTIO_CONFIG_S_FEATURES_OK = 8"

definition VIRTIO_BLK_F_RO :: nat where "VIRTIO_BLK_F_RO = 5"
definition VIRTIO_BLK_F_SCSI :: nat where "VIRTIO_BLK_F_SCSI = 7"
definition VIRTIO_BLK_F_FLUSH :: nat where "VIRTIO_BLK_F_FLUSH = 9"
definition VIRTIO_BLK_F_CONFIG_WCE :: nat where "VIRTIO_BLK_F_CONFIG_WCE = 11"
definition VIRTIO_BLK_F_MQ :: nat where "VIRTIO_BLK_F_MQ = 12"
definition VIRTIO_F_ANY_LAYOUT :: nat where "VIRTIO_F_ANY_LAYOUT = 27"
definition VIRTIO_RING_F_INDIRECT_DESC :: nat where "VIRTIO_RING_F_INDIRECT_DESC = 28"
definition VIRTIO_RING_F_EVENT_IDX :: nat where "VIRTIO_RING_F_EVENT_IDX = 29"

definition NUM :: nat where [simp]: "NUM = 8"
definition VRING_DESC_F_NEXT :: u16 where "VRING_DESC_F_NEXT = 1"
definition VRING_DESC_F_WRITE :: u16 where "VRING_DESC_F_WRITE = 2"
definition VIRTIO_BLK_T_IN :: u32 where "VIRTIO_BLK_T_IN = 0"
definition VIRTIO_BLK_T_OUT :: u32 where "VIRTIO_BLK_T_OUT = 1"

text \<open>What an address in a descriptor points to: nothing, a command header \<open>disk.ops[i]\<close>, the data of a
  buffer, or a status byte \<open>disk.info[i].status\<close>.\<close>

datatype dma_addr = ANull | AOp nat | AData nat | AStatus nat

record virtq_desc =
  vd_addr :: dma_addr
  vd_len :: u32
  vd_flags :: u16
  vd_next :: u16

record virtq_avail =
  va_flags :: u16
  va_idx :: u16
  va_ring :: "u16 list"

record virtq_used_elem =
  ve_id :: u32
  ve_len :: u32

record virtq_used =
  vu_flags :: u16
  vu_idx :: u16
  vu_ring :: "virtq_used_elem list"

record virtio_blk_req =
  vr_type :: u32
  vr_reserved :: u32
  vr_sector :: u64

record vinfo =
  vi_b :: "nat option"
  vi_status :: u8

section \<open>virtio_disk.c\<close>

record kvirt = kfs +
  vdesc_pa :: u64
  vavail_pa :: u64
  vused_pa :: u64
  vdesc :: "virtq_desc list"
  vavail :: virtq_avail
  vused :: virtq_used
  vfree :: "nat \<Rightarrow> u8"
  vused_idx :: u16
  vinfos :: "vinfo list"
  vops :: "virtio_blk_req list"
  vwrites :: "(nat \<times> u32) list"

definition zero_desc :: virtq_desc where
  "zero_desc = \<lparr>vd_addr = ANull, vd_len = 0, vd_flags = 0, vd_next = 0\<rparr>"

definition vread :: "((nat \<times> u32) list \<Rightarrow> nat \<Rightarrow> u32) \<Rightarrow> nat \<Rightarrow> ('x kvirt_scheme, u32) kfun" where
  "vread dev r = gets (\<lambda>s. dev (vwrites s) r)"

definition vwrite :: "nat \<Rightarrow> u32 \<Rightarrow> ('x kvirt_scheme, unit) kfun" where
  "vwrite r v = modify (\<lambda>s. s\<lparr>vwrites := vwrites s @ [(r, v)]\<rparr>)"

text \<open>The features the driver accepts: those the device offers without the ones it cannot handle.\<close>

definition accepted_features :: "u32 \<Rightarrow> u32" where
  "accepted_features f =
     (let f = f AND NOT (push_bit VIRTIO_BLK_F_RO 1);
          f = f AND NOT (push_bit VIRTIO_BLK_F_SCSI 1);
          f = f AND NOT (push_bit VIRTIO_BLK_F_FLUSH 1);
          f = f AND NOT (push_bit VIRTIO_BLK_F_CONFIG_WCE 1);
          f = f AND NOT (push_bit VIRTIO_BLK_F_MQ 1);
          f = f AND NOT (push_bit VIRTIO_F_ANY_LAYOUT 1);
          f = f AND NOT (push_bit VIRTIO_RING_F_EVENT_IDX 1)
      in f AND NOT (push_bit VIRTIO_RING_F_INDIRECT_DESC 1))"

text \<open>The queue memory: three zeroed pages, registered with the device.\<close>

definition virtio_queue_init :: "('x kvirt_scheme, unit) kfun" where
  "virtio_queue_init =
     bind kalloc (\<lambda>d.
     bind kalloc (\<lambda>a.
     bind kalloc (\<lambda>u.
     bind (modify (\<lambda>s. s\<lparr>vdesc_pa := d, vavail_pa := a, vused_pa := u\<rparr>)) (\<lambda>_.
     if d = 0 \<or> a = 0 \<or> u = 0 then panic ''virtio disk kalloc'' else
     bind (modify (\<lambda>s. s\<lparr>mem := memset (memset (memset (mem s) d 0 4096) a 0 4096) u 0 4096,
       vdesc := replicate NUM zero_desc, vavail := \<lparr>va_flags = 0, va_idx = 0, va_ring = replicate NUM 0\<rparr>,
       vused := \<lparr>vu_flags = 0, vu_idx = 0, vu_ring = replicate NUM \<lparr>ve_id = 0, ve_len = 0\<rparr>\<rparr>\<rparr>)) (\<lambda>_.
     bind (vwrite VIRTIO_MMIO_QUEUE_NUM (of_nat NUM)) (\<lambda>_.
     bind (vwrite VIRTIO_MMIO_QUEUE_DESC_LOW (ucast d)) (\<lambda>_.
     bind (vwrite VIRTIO_MMIO_QUEUE_DESC_HIGH (ucast (drop_bit 32 d))) (\<lambda>_.
     bind (vwrite VIRTIO_MMIO_DRIVER_DESC_LOW (ucast a)) (\<lambda>_.
     bind (vwrite VIRTIO_MMIO_DRIVER_DESC_HIGH (ucast (drop_bit 32 a))) (\<lambda>_.
     bind (vwrite VIRTIO_MMIO_DEVICE_DESC_LOW (ucast u)) (\<lambda>_.
     bind (vwrite VIRTIO_MMIO_DEVICE_DESC_HIGH (ucast (drop_bit 32 u))) (\<lambda>_.
     vwrite VIRTIO_MMIO_QUEUE_READY 1))))))))))))"

definition virtio_disk_init :: "((nat \<times> u32) list \<Rightarrow> nat \<Rightarrow> u32) \<Rightarrow> ('x kvirt_scheme, unit) kfun" where
  "virtio_disk_init dev =
     bind (vread dev VIRTIO_MMIO_MAGIC_VALUE) (\<lambda>magic.
     bind (vread dev VIRTIO_MMIO_VERSION) (\<lambda>version.
     bind (vread dev VIRTIO_MMIO_DEVICE_ID) (\<lambda>device_id.
     bind (vread dev VIRTIO_MMIO_VENDOR_ID) (\<lambda>vendor_id.
     if magic \<noteq> 0x74726976 \<or> version \<noteq> 2 \<or> device_id \<noteq> 2 \<or> vendor_id \<noteq> 0x554d4551
     then panic ''could not find virtio disk'' else
     bind (vwrite VIRTIO_MMIO_STATUS 0) (\<lambda>_.
     let status = VIRTIO_CONFIG_S_ACKNOWLEDGE in
     bind (vwrite VIRTIO_MMIO_STATUS status) (\<lambda>_.
     let status = status OR VIRTIO_CONFIG_S_DRIVER in
     bind (vwrite VIRTIO_MMIO_STATUS status) (\<lambda>_.
     bind (vread dev VIRTIO_MMIO_DEVICE_FEATURES) (\<lambda>features.
     bind (vwrite VIRTIO_MMIO_DRIVER_FEATURES (accepted_features features)) (\<lambda>_.
     let status = status OR VIRTIO_CONFIG_S_FEATURES_OK in
     bind (vwrite VIRTIO_MMIO_STATUS status) (\<lambda>_.
     bind (vread dev VIRTIO_MMIO_STATUS) (\<lambda>status.
     if status AND VIRTIO_CONFIG_S_FEATURES_OK = 0 then panic ''virtio disk FEATURES_OK unset'' else
     bind (vwrite VIRTIO_MMIO_QUEUE_SEL 0) (\<lambda>_.
     bind (vread dev VIRTIO_MMIO_QUEUE_READY) (\<lambda>qready.
     if qready \<noteq> 0 then panic ''virtio disk should not be ready'' else
     bind (vread dev VIRTIO_MMIO_QUEUE_NUM_MAX) (\<lambda>qmax.
     if qmax = 0 then panic ''virtio disk has no queue 0''
     else if qmax < of_nat NUM then panic ''virtio disk max queue too short'' else
     bind virtio_queue_init (\<lambda>_.
     bind (foreach [0..<NUM] (\<lambda>i. modify (\<lambda>s. s\<lparr>vfree := (vfree s)(i := 1)\<rparr>))) (\<lambda>_.
     vwrite VIRTIO_MMIO_STATUS (status OR VIRTIO_CONFIG_S_DRIVER_OK)))))))))))))))))"

fun alloc_desc_scan :: "nat list \<Rightarrow> ('x kvirt_scheme, int) kfun" where
  "alloc_desc_scan [] = ret (- 1)"
| "alloc_desc_scan (i # is) =
     bind (gets vfree) (\<lambda>free.
     if free i \<noteq> 0 then bind (modify (\<lambda>s. s\<lparr>vfree := (vfree s)(i := 0)\<rparr>)) (\<lambda>_. ret (int i))
     else alloc_desc_scan is)"

definition alloc_desc :: "('x kvirt_scheme, int) kfun" where
  "alloc_desc = alloc_desc_scan [0..<NUM]"

definition free_desc :: "nat \<Rightarrow> ('x kvirt_scheme, unit) kfun" where
  "free_desc i =
     (if NUM \<le> i then panic ''free_desc 1'' else
      bind (gets vfree) (\<lambda>free.
      if free i \<noteq> 0 then panic ''free_desc 2'' else
      bind (modify (\<lambda>s. s\<lparr>vdesc := (vdesc s)[i := zero_desc], vfree := (vfree s)(i := 1)\<rparr>)) (\<lambda>_.
      wakeup (Some ChanDiskFree))))"

lemma kvirt_wakeup: "keeps (\<lambda>s :: 'x kvirt_scheme. (vdesc s, vfree s, vinfos s, vops s, vavail s, vused s, vused_idx s, vwrites s)) (wakeup c)"
proof -
  have m: "kproc.more t = kproc.more s \<Longrightarrow> (vdesc t, vfree t, vinfos t, vops t, vavail t, vused t, vused_idx t, vwrites t) =
      (vdesc s, vfree s, vinfos s, vops s, vavail s, vused s, vused_idx s, vwrites s)" for s t :: "'x kvirt_scheme"
    by (cases s, cases t, simp)
  have "keeps kproc.more (wakeup c)" by (rule more_wakeup)
  then show ?thesis unfolding keeps_def using m by blast
qed

text \<open>\<open>free_chain\<close> follows the chain; it ends because each turn frees a descriptor that was not free.\<close>

definition vbusy :: "'x kvirt_scheme \<Rightarrow> nat set" where
  "vbusy s = {i. i < NUM \<and> vfree s i = 0}"

lemma free_desc_Done:
  assumes "free_desc i s = Done u t"
  shows "i < NUM" and "vfree s i = 0" and "vfree t = (vfree s)(i := 1)" and "vdesc t = (vdesc s)[i := zero_desc]"
proof -
  show a: "i < NUM" and b: "vfree s i = 0" using assms by (auto simp: free_desc_def split: if_splits)
  have "wakeup (Some ChanDiskFree) (s\<lparr>vdesc := (vdesc s)[i := zero_desc], vfree := (vfree s)(i := 1)\<rparr>) = Done u t"
    using assms a b by (simp add: free_desc_def split: if_splits)
  from keepsD[OF kvirt_wakeup this] show "vfree t = (vfree s)(i := 1)" "vdesc t = (vdesc s)[i := zero_desc]" by simp_all
qed

lemma free_desc_fewer:
  assumes "free_desc i s = Done u t"
  shows "card (vbusy t) < card (vbusy s)"
proof (rule psubset_card_mono)
  show "finite (vbusy s)" by (simp add: vbusy_def)
  show "vbusy t \<subset> vbusy s" using free_desc_Done[OF assms] by (auto simp: vbusy_def)
qed

function free_chain :: "nat \<Rightarrow> ('x kvirt_scheme, unit) kfun" where
  "free_chain i s =
     bind (gets (\<lambda>s. vdesc s ! i)) (\<lambda>d.
     bind (free_desc i) (\<lambda>_ s.
     if vd_flags d AND VRING_DESC_F_NEXT \<noteq> 0 then free_chain (unat (vd_next d)) s else Done () s)) s"
  by pat_completeness auto
termination
  by (relation "measure (\<lambda>(i, s). card (vbusy s))") (auto dest: free_desc_fewer)

definition alloc3_desc :: "('x kvirt_scheme, (nat \<times> nat \<times> nat) option) kfun" where
  "alloc3_desc =
     bind alloc_desc (\<lambda>a.
     if a < 0 then ret None else
     bind alloc_desc (\<lambda>b.
     if b < 0 then bind (free_desc (nat a)) (\<lambda>_. ret None) else
     bind alloc_desc (\<lambda>c.
     if c < 0 then bind (free_desc (nat a)) (\<lambda>_. bind (free_desc (nat b)) (\<lambda>_. ret None))
     else ret (Some (nat a, nat b, nat c)))))"

text \<open>The three descriptors of a request, and what else the driver records of it.\<close>

definition upd_desc :: "nat \<Rightarrow> (virtq_desc \<Rightarrow> virtq_desc) \<Rightarrow> ('x kvirt_scheme, unit) kfun" where
  "upd_desc i f = modify (\<lambda>s. s\<lparr>vdesc := (vdesc s)[i := f (vdesc s ! i)]\<rparr>)"

definition upd_info :: "nat \<Rightarrow> (vinfo \<Rightarrow> vinfo) \<Rightarrow> ('x kvirt_scheme, unit) kfun" where
  "upd_info i f = modify (\<lambda>s. s\<lparr>vinfos := (vinfos s)[i := f (vinfos s ! i)]\<rparr>)"

definition virtio_format :: "nat \<Rightarrow> bool \<Rightarrow> u64 \<Rightarrow> nat \<times> nat \<times> nat \<Rightarrow> ('x kvirt_scheme, unit) kfun" where
  "virtio_format b write sector = (\<lambda>(i0, i1, i2).
     bind (modify (\<lambda>s. s\<lparr>vops := (vops s)[i0 :=
       \<lparr>vr_type = (if write then VIRTIO_BLK_T_OUT else VIRTIO_BLK_T_IN), vr_reserved = 0, vr_sector = sector\<rparr>]\<rparr>)) (\<lambda>_.
     bind (upd_desc i0 (\<lambda>_. \<lparr>vd_addr = AOp i0, vd_len = 16, vd_flags = VRING_DESC_F_NEXT, vd_next = of_nat i1\<rparr>)) (\<lambda>_.
     bind (upd_desc i1 (\<lambda>_. \<lparr>vd_addr = AData b, vd_len = of_nat BSIZE,
       vd_flags = (if write then 0 else VRING_DESC_F_WRITE) OR VRING_DESC_F_NEXT, vd_next = of_nat i2\<rparr>)) (\<lambda>_.
     bind (upd_info i0 (\<lambda>x. x\<lparr>vi_status := 0xff\<rparr>)) (\<lambda>_.
     upd_desc i2 (\<lambda>_. \<lparr>vd_addr = AStatus i0, vd_len = 1, vd_flags = VRING_DESC_F_WRITE, vd_next = 0\<rparr>))))))"

text \<open>
  \<open>virtio_disk_rw\<close>: the wait for the device and what follows it is \<open>virtio_disk_wait\<close>, which is entered again
  after each wake-up.
\<close>

definition virtio_disk_wait :: "nat \<Rightarrow> nat \<Rightarrow> ('x kvirt_scheme, unit) kfun" where
  "virtio_disk_wait b i0 =
     bind (the_buf b) (\<lambda>buf.
     if b_disk buf = 1 then sleep (ChanBuf b) VdiskLock else
     bind (upd_info i0 (\<lambda>x. x\<lparr>vi_b := None\<rparr>)) (\<lambda>_.
     bind (free_chain i0) (\<lambda>_.
     release VdiskLock)))"

definition virtio_disk_rw :: "nat \<Rightarrow> bool \<Rightarrow> ('x kvirt_scheme, unit) kfun" where
  "virtio_disk_rw b write =
     bind (the_buf b) (\<lambda>buf.
     let sector = ucast (b_blockno buf * (of_nat (BSIZE div 512))) in
     bind (acquire VdiskLock) (\<lambda>_.
     bind alloc3_desc (\<lambda>r. case r of
       None \<Rightarrow> sleep ChanDiskFree VdiskLock
     | Some idx \<Rightarrow>
         bind (virtio_format b write sector idx) (\<lambda>_.
         bind (upd_buf b (\<lambda>x. x\<lparr>b_disk := 1\<rparr>)) (\<lambda>_.
         bind (upd_info (fst idx) (\<lambda>x. x\<lparr>vi_b := Some b\<rparr>)) (\<lambda>_.
         bind (modify (\<lambda>s. s\<lparr>vavail := (vavail s)\<lparr>va_ring :=
           (va_ring (vavail s))[unat (va_idx (vavail s)) mod NUM := of_nat (fst idx)]\<rparr>\<rparr>)) (\<lambda>_.
         bind (modify (\<lambda>s. s\<lparr>vavail := (vavail s)\<lparr>va_idx := va_idx (vavail s) + 1\<rparr>\<rparr>)) (\<lambda>_.
         bind (vwrite VIRTIO_MMIO_QUEUE_NOTIFY 0) (\<lambda>_.
         virtio_disk_wait b (fst idx))))))))))"

text \<open>One completion, and the loop over the entries the device has added to the used ring.\<close>

definition virtio_complete :: "('x kvirt_scheme, unit) kfun" where
  "virtio_complete =
     bind (gets (\<lambda>s. unat (ve_id (vu_ring (vused s) ! (unat (vused_idx s) mod NUM))))) (\<lambda>id.
     bind (gets (\<lambda>s. vinfos s ! id)) (\<lambda>info.
     if vi_status info \<noteq> 0 then panic ''virtio_disk_intr status'' else
     case vi_b info of None \<Rightarrow> panic ''kerneltrap'' | Some b \<Rightarrow>
     bind (upd_buf b (\<lambda>x. x\<lparr>b_disk := 0\<rparr>)) (\<lambda>_.
     bind (wakeup (Some (ChanBuf b))) (\<lambda>_.
     modify (\<lambda>s. s\<lparr>vused_idx := vused_idx s + 1\<rparr>)))))"

fun virtio_completions :: "nat \<Rightarrow> ('x kvirt_scheme, unit) kfun" where
  "virtio_completions 0 = ret ()"
| "virtio_completions (Suc k) = bind virtio_complete (\<lambda>_. virtio_completions k)"

definition virtio_disk_intr :: "((nat \<times> u32) list \<Rightarrow> nat \<Rightarrow> u32) \<Rightarrow> ('x kvirt_scheme, unit) kfun" where
  "virtio_disk_intr dev =
     bind (acquire VdiskLock) (\<lambda>_.
     bind (vread dev VIRTIO_MMIO_INTERRUPT_STATUS) (\<lambda>st.
     bind (vwrite VIRTIO_MMIO_INTERRUPT_ACK (st AND 3)) (\<lambda>_.
     bind (gets (\<lambda>s. unat (vu_idx (vused s) - vused_idx s))) (\<lambda>k.
     bind (virtio_completions k) (\<lambda>_.
     release VdiskLock)))))"

definition virt_demo :: kvirt where
  "virt_demo = kfs.extend fs_demo \<lparr>vdesc_pa = 0x80001000, vavail_pa = 0x80002000, vused_pa = 0x80003000,
     vdesc = replicate NUM zero_desc, vavail = \<lparr>va_flags = 0, va_idx = 0, va_ring = replicate NUM 0\<rparr>,
     vused = \<lparr>vu_flags = 0, vu_idx = 0, vu_ring = replicate NUM \<lparr>ve_id = 0, ve_len = 0\<rparr>\<rparr>, vfree = (\<lambda>_. 1), vused_idx = 0,
     vinfos = replicate NUM \<lparr>vi_b = None, vi_status = 0\<rparr>, vops = replicate NUM \<lparr>vr_type = 0, vr_reserved = 0, vr_sector = 0\<rparr>,
     vwrites = []\<rparr>"

end
