(* ===== verification/Descs.thy ===== *)
theory Descs
  imports Virtio
begin

text \<open>
  The descriptors of the disk driver: freeing a chain ends whatever the descriptors hold, and a request gives back the descriptors
  it took.
\<close>

definition vfrees :: "'x kvirt_scheme \<Rightarrow> nat set" where
  "vfrees s = {i. i < NUM \<and> vfree s i \<noteq> 0}"

definition disk_woken :: "'x kvirt_scheme \<Rightarrow> proc list" where
  "disk_woken s = map (\<lambda>i. wake1 (Some ChanDiskFree) (curproc s) i (procs s ! i)) [0..<NPROC]"

lemma free_desc_eq:
  fixes s :: "'x kvirt_scheme"
  assumes "ptable_ok s"
  shows "free_desc i s = (if NUM \<le> i then Panic ''free_desc 1'' else if vfree s i \<noteq> 0 then Panic ''free_desc 2''
    else Done () (s\<lparr>vdesc := (vdesc s)[i := zero_desc], vfree := (vfree s)(i := 1), procs := disk_woken s\<rparr>))"
proof -
  let ?u = "s\<lparr>vdesc := (vdesc s)[i := zero_desc], vfree := (vfree s)(i := 1)\<rparr>"
  have "ptable_ok ?u" using assms by (simp add: ptable_ok_def)
  from wakeup_eq[OF this] have "wakeup (Some ChanDiskFree) ?u = Done () (?u\<lparr>procs := disk_woken s\<rparr>)" by (simp add: disk_woken_def del: NPROC_def)
  then show ?thesis by (simp add: free_desc_def bind_def del: NUM_def)
qed

lemma ptable_ok_woken: "ptable_ok s \<Longrightarrow> ptable_ok (s\<lparr>vdesc := d, vfree := f, procs := disk_woken s\<rparr>)"
  by (simp add: ptable_ok_def disk_woken_def)

lemma free_chain_cases:
  fixes s :: "'x kvirt_scheme"
  assumes "ptable_ok s"
  shows "free_chain i s = Panic ''free_desc 1'' \<or> free_chain i s = Panic ''free_desc 2'' \<or>
    (\<exists>t. free_chain i s = Done () t \<and> i \<in> vfrees t \<and> i \<notin> vfrees s \<and> vfrees s \<subset> vfrees t)"
  using assms
proof (induction i s rule: free_chain.induct)
  case (1 i s)
  show ?case
  proof (cases "NUM \<le> i \<or> vfree s i \<noteq> 0")
    case True
    then show ?thesis by (subst (1 2 3) free_chain.simps) (auto simp: bind_def free_desc_eq[OF 1(2)])
  next
    case False
    let ?t = "s\<lparr>vdesc := (vdesc s)[i := zero_desc], vfree := (vfree s)(i := 1), procs := disk_woken s\<rparr>"
    have fd: "free_desc i s = Done () ?t" using False by (simp add: free_desc_eq[OF 1(2)] del: NUM_def)
    have fr: "vfrees ?t = insert i (vfrees s)" "i \<notin> vfrees s" using False by (auto simp: vfrees_def)
    have run: "free_chain i s = (if vd_flags (vdesc s ! i) AND VRING_DESC_F_NEXT \<noteq> 0 then free_chain (unat (vd_next (vdesc s ! i))) ?t else Done () ?t)"
      by (subst free_chain.simps) (simp add: bind_def fd)
    show ?thesis
    proof (cases "vd_flags (vdesc s ! i) AND VRING_DESC_F_NEXT \<noteq> 0")
      case True
      let ?j = "unat (vd_next (vdesc s ! i))"
      have "free_chain ?j ?t = Panic ''free_desc 1'' \<or> free_chain ?j ?t = Panic ''free_desc 2'' \<or>
        (\<exists>u. free_chain ?j ?t = Done () u \<and> ?j \<in> vfrees u \<and> ?j \<notin> vfrees ?t \<and> vfrees ?t \<subset> vfrees u)"
        by (rule 1(1)[OF _ fd True]) (simp_all add: ptable_ok_woken[OF 1(2)])
      then show ?thesis using True fr unfolding run by (auto simp: psubset_eq)
    next
      case False
      then show ?thesis using fr unfolding run by auto
    qed
  qed
qed

lemma alloc_desc_scan_eq:
  "alloc_desc_scan is s = (case find (\<lambda>i. vfree s i \<noteq> 0) is of None \<Rightarrow> Done (- 1) s | Some i \<Rightarrow> Done (int i) (s\<lparr>vfree := (vfree s)(i := 0)\<rparr>))"
  by (induction "is") (auto simp: bind_def)

lemma alloc_desc_eq:
  "vfrees s = {} \<Longrightarrow> alloc_desc s = Done (- 1) s"
  "vfrees s \<noteq> {} \<Longrightarrow> \<exists>i\<in>vfrees s. alloc_desc s = Done (int i) (s\<lparr>vfree := (vfree s)(i := 0)\<rparr>)"
proof -
  have "find (\<lambda>i. vfree s i \<noteq> 0) [0..<NUM] = None \<longleftrightarrow> vfrees s = {}"
    unfolding find_None_iff vfrees_def by auto
  moreover have "i \<in> vfrees s" if "find (\<lambda>i. vfree s i \<noteq> 0) [0..<NUM] = Some i" for i
    using that unfolding find_Some_iff vfrees_def by (auto simp del: NUM_def)
  ultimately show "vfrees s = {} \<Longrightarrow> alloc_desc s = Done (- 1) s"
    and "vfrees s \<noteq> {} \<Longrightarrow> \<exists>i\<in>vfrees s. alloc_desc s = Done (int i) (s\<lparr>vfree := (vfree s)(i := 0)\<rparr>)"
    unfolding alloc_desc_def alloc_desc_scan_eq by (auto split: option.splits simp del: NUM_def)
qed

lemma vfrees_upd:
  "vfrees (s\<lparr>vfree := (vfree s)(i := 0)\<rparr>) = vfrees s - {i}"
  "i < NUM \<Longrightarrow> vfrees (s\<lparr>vdesc := d, vfree := (vfree s)(i := 1), procs := ps\<rparr>) = insert i (vfrees s)"
  by (auto simp: vfrees_def)

lemma vfrees_finite: "finite (vfrees s)"
  by (simp add: vfrees_def)

lemma alloc3_desc_takes:
  assumes "3 \<le> card (vfrees s)"
  shows "\<exists>a b c. alloc3_desc s = Done (Some (a, b, c)) (s\<lparr>vfree := (vfree s)(a := 0, b := 0, c := 0)\<rparr>) \<and> distinct [a, b, c] \<and> {a, b, c} \<subseteq> vfrees s"
proof -
  have "vfrees s \<noteq> {}" using assms by auto
  then obtain a where a: "a \<in> vfrees s" "alloc_desc s = Done (int a) (s\<lparr>vfree := (vfree s)(a := 0)\<rparr>)" using alloc_desc_eq(2) by blast
  let ?t = "s\<lparr>vfree := (vfree s)(a := 0)\<rparr>"
  have ca: "2 \<le> card (vfrees s - {a})" using assms a(1) vfrees_finite[of s] by simp
  then have "vfrees ?t \<noteq> {}" unfolding vfrees_upd by (metis card.empty not_numeral_le_zero)
  then obtain b where b: "b \<in> vfrees s - {a}" "alloc_desc ?t = Done (int b) (?t\<lparr>vfree := (vfree ?t)(b := 0)\<rparr>)"
    using alloc_desc_eq(2)[of ?t] unfolding vfrees_upd by blast
  let ?u = "?t\<lparr>vfree := (vfree ?t)(b := 0)\<rparr>"
  have "1 \<le> card (vfrees s - {a} - {b})" using ca b(1) vfrees_finite[of s] by simp
  then have "vfrees ?u \<noteq> {}" unfolding vfrees_upd by (metis card.empty not_one_le_zero)
  then obtain c where c: "c \<in> vfrees s - {a} - {b}" "alloc_desc ?u = Done (int c) (?u\<lparr>vfree := (vfree ?u)(c := 0)\<rparr>)"
    using alloc_desc_eq(2)[of ?u] unfolding vfrees_upd by blast
  have "alloc3_desc s = Done (Some (a, b, c)) (s\<lparr>vfree := (vfree s)(a := 0, b := 0, c := 0)\<rparr>)"
    using a(2) b(2) c(2) by (simp add: alloc3_desc_def bind_def)
  then show ?thesis using a b c by auto
qed

lemma alloc3_desc_fails:
  fixes s :: "'x kvirt_scheme"
  assumes "ptable_ok s" "card (vfrees s) < 3"
  shows "\<exists>t. alloc3_desc s = Done None t \<and> vfrees t = vfrees s"
proof (cases "vfrees s = {}")
  case True
  then show ?thesis using alloc_desc_eq(1)[OF True] by (simp add: alloc3_desc_def bind_def)
next
  case False
  then obtain a where a: "a \<in> vfrees s" "alloc_desc s = Done (int a) (s\<lparr>vfree := (vfree s)(a := 0)\<rparr>)" using alloc_desc_eq(2) by blast
  let ?t = "s\<lparr>vfree := (vfree s)(a := 0)\<rparr>"
  have al: "a < NUM" using a(1) by (simp add: vfrees_def)
  show ?thesis
  proof (cases "vfrees ?t = {}")
    case True
    have "ptable_ok ?t" using assms(1) by (simp add: ptable_ok_def)
    from free_desc_eq[OF this, of a] have "free_desc a ?t = Done () (?t\<lparr>vdesc := (vdesc ?t)[a := zero_desc], vfree := (vfree ?t)(a := 1), procs := disk_woken ?t\<rparr>)"
      using al by simp
    then show ?thesis using a al True alloc_desc_eq(1)[OF True] unfolding vfrees_upd
      by (auto simp: alloc3_desc_def bind_def vfrees_def)
  next
    case False
    then obtain b where b: "b \<in> vfrees s - {a}" "alloc_desc ?t = Done (int b) (?t\<lparr>vfree := (vfree ?t)(b := 0)\<rparr>)"
      using alloc_desc_eq(2)[of ?t] unfolding vfrees_upd by blast
    let ?u = "?t\<lparr>vfree := (vfree ?t)(b := 0)\<rparr>"
    have bl: "b < NUM" "b \<noteq> a" using b(1) by (simp_all add: vfrees_def)
    have "card (vfrees s - {a} - {b}) = 0" using assms(2) a(1) b(1) vfrees_finite[of s] by simp
    then have e: "vfrees ?u = {}" unfolding vfrees_upd using vfrees_finite[of s] by simp
    have ok: "ptable_ok ?u" using assms(1) by (simp add: ptable_ok_def)
    let ?v = "?u\<lparr>vdesc := (vdesc ?u)[a := zero_desc], vfree := (vfree ?u)(a := 1), procs := disk_woken ?u\<rparr>"
    have fa: "free_desc a ?u = Done () ?v" unfolding free_desc_eq[OF ok] using al bl(2) by simp
    have "ptable_ok ?v" by (rule ptable_ok_woken[OF ok])
    from free_desc_eq[OF this, of b] have fb: "free_desc b ?v = Done () (?v\<lparr>vdesc := (vdesc ?v)[b := zero_desc], vfree := (vfree ?v)(b := 1), procs := disk_woken ?v\<rparr>)"
      using bl by simp
    let ?w = "?v\<lparr>vdesc := (vdesc ?v)[b := zero_desc], vfree := (vfree ?v)(b := 1), procs := disk_woken ?v\<rparr>"
    have "alloc3_desc s = Done None ?w" using a(2) b(2) alloc_desc_eq(1)[OF e] fa fb by (simp add: alloc3_desc_def bind_def)
    moreover have "vfrees ?w = vfrees s"
      unfolding vfrees_upd(2)[OF bl(1)] vfrees_upd(2)[OF al] vfrees_upd(1) using a(1) b(1) by blast
    ultimately show ?thesis by blast
  qed
qed

lemma free_chain_step:
  fixes s :: "'x kvirt_scheme"
  assumes "ptable_ok s" "i < NUM" "vfree s i = 0"
  obtains t where "vfree t = (vfree s)(i := 1)" "vdesc t = (vdesc s)[i := zero_desc]" "ptable_ok t"
    "free_chain i s = (if vd_flags (vdesc s ! i) AND VRING_DESC_F_NEXT \<noteq> 0 then free_chain (unat (vd_next (vdesc s ! i))) t else Done () t)"
proof -
  let ?t = "s\<lparr>vdesc := (vdesc s)[i := zero_desc], vfree := (vfree s)(i := 1), procs := disk_woken s\<rparr>"
  have "free_desc i s = Done () ?t" using assms by (simp add: free_desc_eq)
  then have "free_chain i s = (if vd_flags (vdesc s ! i) AND VRING_DESC_F_NEXT \<noteq> 0 then free_chain (unat (vd_next (vdesc s ! i))) ?t else Done () ?t)"
    by (subst free_chain.simps) (simp add: bind_def)
  then show thesis by (intro that[of ?t]) (simp_all add: ptable_ok_woken[OF assms(1)])
qed

lemma request_chain_freed:
  fixes s :: "'x kvirt_scheme"
  assumes "ptable_ok s" "length (vdesc s) = NUM" "distinct [a, b, c]" "{a, b, c} \<subseteq> {..<NUM}" "vfree s a = 0" "vfree s b = 0" "vfree s c = 0"
  shows "\<exists>t. bind (virtio_format k write sector (a, b, c)) (\<lambda>_. free_chain a) s = Done () t \<and> vfree t = (vfree s)(a := 1, b := 1, c := 1)"
proof -
  obtain t where f: "virtio_format k write sector (a, b, c) s = Done () t" and vf: "vfree t = vfree s" and pt: "ptable_ok t"
    and vd: "vd_flags (vdesc t ! a) AND VRING_DESC_F_NEXT \<noteq> 0" "unat (vd_next (vdesc t ! a)) = b"
      "vd_flags (vdesc t ! b) AND VRING_DESC_F_NEXT \<noteq> 0" "unat (vd_next (vdesc t ! b)) = c" "vd_flags (vdesc t ! c) AND VRING_DESC_F_NEXT = 0"
    using assms by (auto simp: virtio_format_def bind_def upd_desc_def upd_info_def ptable_ok_def VRING_DESC_F_NEXT_def VRING_DESC_F_WRITE_def
        unat_of_nat take_bit_eq_mod)
  have n: "a < NUM" "b < NUM" "c < NUM" "a \<noteq> b" "a \<noteq> c" "b \<noteq> c" using assms(3,4) by auto
  obtain u where u: "vfree u = (vfree t)(a := 1)" "vdesc u = (vdesc t)[a := zero_desc]" "ptable_ok u" "free_chain a t = free_chain b u"
    using free_chain_step[OF pt n(1)] vf assms(5) vd(1,2) by metis
  have ub: "vfree u b = 0" "vfree u c = 0" "vdesc u ! b = vdesc t ! b" "vdesc u ! c = vdesc t ! c" using u(1,2) n vf assms(6,7) by simp_all
  obtain v where v: "vfree v = (vfree u)(b := 1)" "vdesc v = (vdesc u)[b := zero_desc]" "ptable_ok v" "free_chain b u = free_chain c v"
    using free_chain_step[OF u(3) n(2) ub(1)] vd(3,4) ub(3) by metis
  have vc: "vfree v c = 0" "vdesc v ! c = vdesc t ! c" using v(1,2) n ub by simp_all
  obtain w where w: "vfree w = (vfree v)(c := 1)" "free_chain c v = Done () w"
    using free_chain_step[OF v(3) n(3) vc(1)] vd(5) vc(2) by metis
  show ?thesis using f u(1,4) v(1,4) w vf by (simp add: bind_def)
qed

text \<open>C40: the disk driver gives its descriptors back. Freeing a chain ends, whatever the descriptors hold, a cycle among them included:
  \<open>free_chain\<close> returns with more descriptors free than before or panics in \<open>free_desc\<close>. When three descriptors are free \<open>alloc3_desc\<close>
  takes three different ones of them, and freeing the chain that the driver makes of them frees these three and no other; when fewer
  are free \<open>alloc3_desc\<close> keeps none.\<close>

theorem disk_descriptors_return:
  fixes s :: "'x kvirt_scheme"
  assumes "ptable_ok s" "length (vdesc s) = NUM"
  shows "(free_chain i s = Panic ''free_desc 1'' \<or> free_chain i s = Panic ''free_desc 2'' \<or> (\<exists>t. free_chain i s = Done () t \<and> vfrees s \<subset> vfrees t)) \<and>
    (if 3 \<le> card (vfrees s) then
       \<exists>a b c t u. alloc3_desc s = Done (Some (a, b, c)) t \<and> distinct [a, b, c] \<and> {a, b, c} \<subseteq> vfrees s \<and> vfrees t = vfrees s - {a, b, c} \<and>
         bind (virtio_format k write sector (a, b, c)) (\<lambda>_. free_chain a) t = Done () u \<and> vfrees u = vfrees s
     else \<exists>t. alloc3_desc s = Done None t \<and> vfrees t = vfrees s)" (is "?A \<and> ?B")
proof
  show ?A using free_chain_cases[OF assms(1), of i] by blast
  show ?B
  proof (cases "3 \<le> card (vfrees s)")
    case True
    obtain a b c where abc: "alloc3_desc s = Done (Some (a, b, c)) (s\<lparr>vfree := (vfree s)(a := 0, b := 0, c := 0)\<rparr>)" "distinct [a, b, c]" "{a, b, c} \<subseteq> vfrees s"
      using alloc3_desc_takes[OF True] by blast
    let ?t = "s\<lparr>vfree := (vfree s)(a := 0, b := 0, c := 0)\<rparr>"
    have sub: "{a, b, c} \<subseteq> {..<NUM}" using abc(3) by (auto simp: vfrees_def)
    have "\<exists>u. bind (virtio_format k write sector (a, b, c)) (\<lambda>_. free_chain a) ?t = Done () u \<and> vfree u = (vfree ?t)(a := 1, b := 1, c := 1)"
      by (rule request_chain_freed[OF _ _ abc(2) sub]) (use assms in \<open>simp_all add: ptable_ok_def\<close>)
    then obtain u where u: "bind (virtio_format k write sector (a, b, c)) (\<lambda>_. free_chain a) ?t = Done () u" "vfree u = (vfree ?t)(a := 1, b := 1, c := 1)"
      by blast
    have "vfrees ?t = vfrees s - {a, b, c}" "vfrees u = vfrees s" using u(2) abc(3) sub by (auto simp: vfrees_def)
    then show ?thesis using abc u(1) True by auto
  next
    case False
    then show ?thesis using alloc3_desc_fails[OF assms(1)] by simp
  qed
qed

theorem disk_descriptors_return_witness:
  "\<exists>a b c t u. alloc3_desc virt_demo = Done (Some (a, b, c)) t \<and> vfrees t = {..<8} - {a, b, c} \<and>
    bind (virtio_format 5 True 14 (a, b, c)) (\<lambda>_. free_chain a) t = Done () u \<and> vfrees u = {..<8}"
proof -
  have v: "vfrees virt_demo = {..<8}" by (auto simp: vfrees_def virt_demo_def kfs.defs)
  have "ptable_ok virt_demo" using proc_demo_ok
    by (simp add: ptable_ok_def virt_demo_def fs_demo_def log_demo_def bio_demo_def proc_demo_def kfs.defs klog.defs kbio.defs kproc.defs)
  moreover have "length (vdesc virt_demo) = NUM" by (simp add: virt_demo_def kfs.defs)
  ultimately show ?thesis using disk_descriptors_return[of virt_demo 0 5 True 14] unfolding v by auto
qed

end
