(* ===== verification/Exec.thy ===== *)
theory Exec
  imports Fs
begin

text \<open>
  \<open>exec\<close>, \<^verbatim>\<open>kernel/exec.c\<close>, with the ELF structures of \<^verbatim>\<open>kernel/elf.h\<close>. A \<open>goto bad\<close> is the call of
  \<open>kexec_bad\<close> with the page table, its size and the inode as they are at that point; 0 and \<open>None\<close> stand for
  the null pointers. \<open>argv\<close> is the list of the strings before its null pointer.
\<close>

section \<open>elf.h\<close>

definition ELF_MAGIC :: u32 where "ELF_MAGIC = 0x464C457F"
definition ELF_PROG_LOAD :: u32 where "ELF_PROG_LOAD = 1"

definition get64 :: "bytes \<Rightarrow> nat \<Rightarrow> u64" where
  "get64 bs off = of_nat (le_val (take 8 (drop off bs)))"

record elfhdr =
  eh_magic :: u32
  eh_elf :: bytes
  eh_type :: u16
  eh_machine :: u16
  eh_version :: u32
  eh_entry :: u64
  eh_phoff :: u64
  eh_shoff :: u64
  eh_flags :: u32
  eh_ehsize :: u16
  eh_phentsize :: u16
  eh_phnum :: u16
  eh_shentsize :: u16
  eh_shnum :: u16
  eh_shstrndx :: u16

definition sizeof_elfhdr :: nat where [simp]: "sizeof_elfhdr = 64"

definition dec_elfhdr :: "bytes \<Rightarrow> elfhdr" where
  "dec_elfhdr bs = \<lparr>eh_magic = get32 bs 0, eh_elf = take 12 (drop 4 bs), eh_type = get16 bs 16, eh_machine = get16 bs 18,
     eh_version = get32 bs 20, eh_entry = get64 bs 24, eh_phoff = get64 bs 32, eh_shoff = get64 bs 40,
     eh_flags = get32 bs 48, eh_ehsize = get16 bs 52, eh_phentsize = get16 bs 54, eh_phnum = get16 bs 56,
     eh_shentsize = get16 bs 58, eh_shnum = get16 bs 60, eh_shstrndx = get16 bs 62\<rparr>"

record proghdr =
  ph_type :: u32
  ph_flags :: u32
  ph_off :: u64
  ph_vaddr :: u64
  ph_paddr :: u64
  ph_filesz :: u64
  ph_memsz :: u64
  ph_align :: u64

definition sizeof_proghdr :: nat where [simp]: "sizeof_proghdr = 56"

definition dec_proghdr :: "bytes \<Rightarrow> proghdr" where
  "dec_proghdr bs = \<lparr>ph_type = get32 bs 0, ph_flags = get32 bs 4, ph_off = get64 bs 8, ph_vaddr = get64 bs 16,
     ph_paddr = get64 bs 24, ph_filesz = get64 bs 32, ph_memsz = get64 bs 40, ph_align = get64 bs 48\<rparr>"

section \<open>exec.c\<close>

definition flags2perm :: "u32 \<Rightarrow> u64" where
  "flags2perm flags =
     (let perm = (if flags AND 1 \<noteq> 0 then PTE_X else 0)
      in if flags AND 2 \<noteq> 0 then perm OR PTE_W else perm)"

function loadseg_loop :: "u64 \<Rightarrow> u64 \<Rightarrow> nat \<Rightarrow> u32 \<Rightarrow> nat \<Rightarrow> nat \<Rightarrow> ('x kfs_scheme, int) kfun" where
  "loadseg_loop pagetable va ip offset sz i s =
     (if sz \<le> i then Done 0 s else
      bind (walkaddr pagetable (va + of_nat i)) (\<lambda>pa.
      if pa = 0 then panic ''loadseg: address should exist'' else
      let n = (if sz - i < 4096 then sz - i else 4096) in
      bind (readi ip (PhysDst pa) (offset + of_nat i) (of_nat n)) (\<lambda>(r, _).
      if r \<noteq> int n then ret (- 1) else loadseg_loop pagetable va ip offset sz (i + 4096))) s)"
  by pat_completeness auto
termination
  by (relation "measure (\<lambda>(pagetable, va, ip, offset, sz, i, s). sz - i)") auto

definition loadseg :: "u64 \<Rightarrow> u64 \<Rightarrow> nat \<Rightarrow> u32 \<Rightarrow> u32 \<Rightarrow> ('x kfs_scheme, int) kfun" where
  "loadseg pagetable va ip offset sz = loadseg_loop pagetable va ip offset (unat sz) 0"

definition kexec_bad :: "u64 \<Rightarrow> u64 \<Rightarrow> nat option \<Rightarrow> ('x kfs_scheme, int) kfun" where
  "kexec_bad pagetable sz ip =
     bind (if pagetable \<noteq> 0 then proc_freepagetable pagetable sz else ret ()) (\<lambda>_.
     bind (case ip of None \<Rightarrow> ret () | Some i \<Rightarrow> bind (iunlockput i) (\<lambda>_. end_op)) (\<lambda>_.
     ret (- 1)))"

text \<open>One turn of the loop over the program headers: the size so far, and whether the loop goes on; otherwise
  it is \<open>goto bad\<close>.\<close>

definition load_ph :: "u64 \<Rightarrow> nat \<Rightarrow> u32 \<Rightarrow> u64 \<Rightarrow> ('x kfs_scheme, u64 \<times> bool) kfun" where
  "load_ph pagetable ip off sz =
     bind (readi ip KernDst off (of_nat sizeof_proghdr)) (\<lambda>(r, bs).
     if r \<noteq> int sizeof_proghdr then ret (sz, False) else
     let ph = dec_proghdr bs in
     if ph_type ph \<noteq> ELF_PROG_LOAD then ret (sz, True)
     else if ph_memsz ph < ph_filesz ph then ret (sz, False)
     else if ph_vaddr ph + ph_memsz ph < ph_vaddr ph then ret (sz, False)
     else if ph_vaddr ph mod PGSIZE \<noteq> 0 then ret (sz, False)
     else
       bind (uvmalloc pagetable sz (ph_vaddr ph + ph_memsz ph) (flags2perm (ph_flags ph))) (\<lambda>sz1.
       if sz1 = 0 then ret (sz, False) else
       bind (loadseg pagetable (ph_vaddr ph) ip (ucast (ph_off ph)) (ucast (ph_filesz ph))) (\<lambda>r.
       ret (sz1, 0 \<le> r))))"

fun load_phs :: "nat \<Rightarrow> u64 \<Rightarrow> nat \<Rightarrow> u32 \<Rightarrow> u64 \<Rightarrow> ('x kfs_scheme, u64 \<times> bool) kfun" where
  "load_phs 0 pagetable ip off sz = ret (sz, True)"
| "load_phs (Suc k) pagetable ip off sz =
     bind (load_ph pagetable ip off sz) (\<lambda>(sz, ok).
     if \<not> ok then ret (sz, False) else load_phs k pagetable ip (off + of_nat sizeof_proghdr) sz)"

text \<open>The loop over the arguments. Writing past \<open>ustack\<close> is undefined in C, and an error here.\<close>

fun push_args :: "bytes list \<Rightarrow> u64 \<Rightarrow> u64 \<Rightarrow> u64 \<Rightarrow> u64 \<Rightarrow> u64 list \<Rightarrow> ('x kfs_scheme, (u64 \<times> u64 list) option) kfun" where
  "push_args [] pagetable sz stackbase sp ustack = ret (Some (sp, ustack))"
| "push_args (a # as) pagetable sz stackbase sp ustack =
     (let sp = sp - of_nat (strlen a + 1); sp = sp - sp mod 16 in
      if sp < stackbase then ret None else
      bind (copyout pagetable sz sp (take (strlen a) a @ [0])) (\<lambda>r.
      if r < 0 then ret None
      else if MAXARG \<le> length ustack then panic ''ustack: index out of range''
      else push_args as pagetable sz stackbase sp (ustack @ [sp])))"

text \<open>The part of the path after its last slash.\<close>

fun last_elem :: "bytes \<Rightarrow> bytes \<Rightarrow> bytes" where
  "last_elem l [] = l"
| "last_elem l (c # s) = (if c = 0 then l else last_elem (if c = slash then s else l) s)"

definition kexec_commit :: "nat \<Rightarrow> bytes \<Rightarrow> u64 \<Rightarrow> u64 \<Rightarrow> u64 \<Rightarrow> u64 \<Rightarrow> u64 \<Rightarrow> nat \<Rightarrow> ('x kfs_scheme, int) kfun" where
  "kexec_commit p path pagetable sz oldsz entry sp argc =
     bind (the_proc p) (\<lambda>pr.
     bind (tf_set (p_trapframe pr) TF_a1 sp) (\<lambda>_.
     bind (upd_proc p (\<lambda>pr. pr\<lparr>p_name := safestrcpy (p_name pr) (last_elem path path) 16\<rparr>)) (\<lambda>_.
     bind (upd_proc p (\<lambda>pr. pr\<lparr>p_pagetable := pagetable, p_sz := sz\<rparr>)) (\<lambda>_.
     bind (tf_set (p_trapframe pr) TF_epc entry) (\<lambda>_.
     bind (tf_set (p_trapframe pr) TF_sp sp) (\<lambda>_.
     bind (proc_freepagetable (p_pagetable pr) oldsz) (\<lambda>_.
     ret (int argc))))))))"

definition kexec_stack :: "nat \<Rightarrow> bytes \<Rightarrow> bytes list \<Rightarrow> u64 \<Rightarrow> u64 \<Rightarrow> u64 \<Rightarrow> ('x kfs_scheme, int) kfun" where
  "kexec_stack p path argv pagetable sz entry =
     bind (the_proc p) (\<lambda>pr.
     let oldsz = p_sz pr; sz = PGROUNDUP sz in
     bind (uvmalloc pagetable sz (sz + (USERSTACK + 1) * PGSIZE) PTE_W) (\<lambda>sz1.
     if sz1 = 0 then kexec_bad pagetable sz None else
     let sz = sz1 in
     bind (uvmclear pagetable (sz - (USERSTACK + 1) * PGSIZE)) (\<lambda>_.
     let stackbase = sz - USERSTACK * PGSIZE in
     bind (push_args argv pagetable sz stackbase sz []) (\<lambda>r. case r of
       None \<Rightarrow> kexec_bad pagetable sz None
     | Some (sp, ustack) \<Rightarrow>
         if MAXARG \<le> length ustack then panic ''ustack: index out of range'' else
         let argc = length ustack; sp = sp - of_nat ((argc + 1) * 8); sp = sp - sp mod 16 in
         if sp < stackbase then kexec_bad pagetable sz None else
         bind (copyout pagetable sz sp (concat (map (\<lambda>a. le_bytes 8 (unat a)) (ustack @ [0])))) (\<lambda>r.
         if r < 0 then kexec_bad pagetable sz None
         else kexec_commit p path pagetable sz oldsz entry sp argc)))))"

definition kexec :: "u64 \<Rightarrow> bytes \<Rightarrow> bytes list \<Rightarrow> ('x kfs_scheme, int) kfun" where
  "kexec trampoline path argv =
     bind myproc (\<lambda>p.
     bind begin_op (\<lambda>_.
     bind (namei path) (\<lambda>ipo. case ipo of
       None \<Rightarrow> bind end_op (\<lambda>_. ret (- 1))
     | Some ip \<Rightarrow>
         bind (ilock (Some ip)) (\<lambda>_.
         bind (readi ip KernDst 0 (of_nat sizeof_elfhdr)) (\<lambda>(r, bs).
         if r \<noteq> int sizeof_elfhdr then kexec_bad 0 0 (Some ip) else
         let elf = dec_elfhdr bs in
         if eh_magic elf \<noteq> ELF_MAGIC then kexec_bad 0 0 (Some ip) else
         bind (the_proc p) (\<lambda>pr.
         bind (proc_pagetable trampoline (p_trapframe pr)) (\<lambda>pagetable.
         if pagetable = 0 then kexec_bad 0 0 (Some ip) else
         bind (load_phs (unat (eh_phnum elf)) pagetable ip (ucast (eh_phoff elf)) 0) (\<lambda>(sz, ok).
         if \<not> ok then kexec_bad pagetable sz (Some ip) else
         bind (iunlockput ip) (\<lambda>_.
         bind end_op (\<lambda>_.
         kexec_stack p path argv pagetable sz (eh_entry elf)))))))))))"

end
