(* ===== verification/Console.thy ===== *)
theory Console
  imports Virtio
begin

text \<open>
  The console, \<^verbatim>\<open>kernel/console.c\<close>, on the serial port of \<^verbatim>\<open>kernel/uart.c\<close>. The device is seen through its
  registers: \<open>lsr_in\<close> is what successive reads of the line status register give, \<open>rhr_in\<close> the characters the
  receive register gives, and \<open>uart_writes\<close> the sequence of register writes. A call that needs more readings
  than there are is one the device never answers, \<open>Hang\<close>.
\<close>

section \<open>uart.c\<close>

definition THR :: nat where [simp]: "THR = 0"
definition IER :: nat where [simp]: "IER = 1"
definition FCR :: nat where [simp]: "FCR = 2"
definition LCR :: nat where [simp]: "LCR = 3"
definition IER_RX_ENABLE :: u8 where "IER_RX_ENABLE = 1"
definition IER_TX_ENABLE :: u8 where "IER_TX_ENABLE = 2"
definition FCR_FIFO_ENABLE :: u8 where "FCR_FIFO_ENABLE = 1"
definition FCR_FIFO_CLEAR :: u8 where "FCR_FIFO_CLEAR = 6"
definition LCR_EIGHT_BITS :: u8 where "LCR_EIGHT_BITS = 3"
definition LCR_BAUD_LATCH :: u8 where "LCR_BAUD_LATCH = 128"
definition LSR_RX_READY :: u8 where "LSR_RX_READY = 1"
definition LSR_TX_IDLE :: u8 where "LSR_TX_IDLE = 32"
definition UART_TX_BUF_SIZE :: nat where [simp]: "UART_TX_BUF_SIZE = 32"
definition INPUT_BUF_SIZE :: nat where [simp]: "INPUT_BUF_SIZE = 128"

text \<open>The entries of \<open>devsw\<close>: the only driver there is stands for its pair of functions.\<close>

datatype devfun = ConsoleDev

record kcons = kvirt +
  tx_buf :: bytes
  tx_r :: u32
  tx_w :: u32
  lsr_in :: bytes
  rhr_in :: bytes
  uart_writes :: "(nat \<times> u8) list"
  cons_buf :: bytes
  cons_r :: u32
  cons_w :: u32
  cons_e :: u32
  devsw :: "nat \<Rightarrow> devfun option"

definition WriteReg :: "nat \<Rightarrow> u8 \<Rightarrow> 'x kcons_scheme \<Rightarrow> 'x kcons_scheme" where
  "WriteReg r v s = s\<lparr>uart_writes := uart_writes s @ [(r, v)]\<rparr>"

function uartstart :: "('x kcons_scheme, unit) kfun" where
  "uartstart s =
     (if tx_w s = tx_r s then Done () s else
      case lsr_in s of [] \<Rightarrow> Hang
      | v # vs \<Rightarrow>
          if v AND LSR_TX_IDLE = 0 then Done () (s\<lparr>lsr_in := vs\<rparr>)
          else uartstart (WriteReg THR (tx_buf s ! (unat (tx_r s) mod UART_TX_BUF_SIZE)) (s\<lparr>lsr_in := vs, tx_r := tx_r s + 1\<rparr>)))"
  by pat_completeness auto
termination
  by (relation "measure (\<lambda>s. length (lsr_in s))") (auto simp: WriteReg_def)

declare uartstart.simps [simp del]

text \<open>\<open>initlock\<close> leaves a lock free: in the view of the locks held it has no effect.\<close>

definition uartinit :: "('x kcons_scheme, unit) kfun" where
  "uartinit =
     bind (modify (WriteReg IER 0)) (\<lambda>_.
     bind (modify (WriteReg LCR LCR_BAUD_LATCH)) (\<lambda>_.
     bind (modify (WriteReg 0 3)) (\<lambda>_.
     bind (modify (WriteReg 1 0)) (\<lambda>_.
     bind (modify (WriteReg LCR LCR_EIGHT_BITS)) (\<lambda>_.
     bind (modify (WriteReg FCR (FCR_FIFO_ENABLE OR FCR_FIFO_CLEAR))) (\<lambda>_.
     modify (WriteReg IER (IER_RX_ENABLE OR IER_TX_ENABLE))))))))"

text \<open>One turn of the loop of \<open>uartwrite\<close>; it is entered again after a sleep.\<close>

definition uartwrite_one :: "u8 \<Rightarrow> ('x kcons_scheme, unit) kfun" where
  "uartwrite_one c =
     bind (acquire TxLock) (\<lambda>_.
     bind (gets (\<lambda>s. tx_w s = tx_r s + of_nat UART_TX_BUF_SIZE)) (\<lambda>full.
     if full then sleep ChanTxR TxLock else
     bind (modify (\<lambda>s. s\<lparr>tx_buf := (tx_buf s)[unat (tx_w s) mod UART_TX_BUF_SIZE := c]\<rparr>)) (\<lambda>_.
     bind (modify (\<lambda>s. s\<lparr>tx_w := tx_w s + 1\<rparr>)) (\<lambda>_.
     bind uartstart (\<lambda>_.
     release TxLock)))))"

definition uartwrite :: "bytes \<Rightarrow> ('x kcons_scheme, unit) kfun" where
  "uartwrite buf = foreach buf uartwrite_one"

function uart_spin :: "('x kcons_scheme, unit) kfun" where
  "uart_spin s = (case lsr_in s of [] \<Rightarrow> Hang
     | v # vs \<Rightarrow> if v AND LSR_TX_IDLE = 0 then uart_spin (s\<lparr>lsr_in := vs\<rparr>) else Done () (s\<lparr>lsr_in := vs\<rparr>))"
  by pat_completeness auto
termination
  by (relation "measure (\<lambda>s. length (lsr_in s))") auto

declare uart_spin.simps [simp del]

definition uartputc_sync :: "u8 \<Rightarrow> ('x kcons_scheme, unit) kfun" where
  "uartputc_sync c =
     bind (acquire TxLock) (\<lambda>_.
     bind uart_spin (\<lambda>_.
     bind (modify (WriteReg THR c)) (\<lambda>_.
     release TxLock)))"

definition uartgetc :: "('x kcons_scheme, int) kfun" where
  "uartgetc = (\<lambda>s. case lsr_in s of [] \<Rightarrow> Hang
     | v # vs \<Rightarrow>
         if v AND LSR_RX_READY \<noteq> 0
         then Done (uint (chd (rhr_in s))) (s\<lparr>lsr_in := vs, rhr_in := tl (rhr_in s)\<rparr>)
         else Done (- 1) (s\<lparr>lsr_in := vs\<rparr>))"

section \<open>console.c\<close>

definition CONSOLE :: nat where [simp]: "CONSOLE = 1"
definition BACKSPACE :: int where "BACKSPACE = 0x100"
definition ctrl :: "u8 \<Rightarrow> u8" where "ctrl x = x - 64"
definition nl :: u8 where "nl = 10"

definition consputc :: "int \<Rightarrow> ('x kcons_scheme, unit) kfun" where
  "consputc c =
     (if c = BACKSPACE then
        bind (uartputc_sync 8) (\<lambda>_.
        bind (uartputc_sync 32) (\<lambda>_.
        uartputc_sync 8))
      else uartputc_sync (of_int c))"

function consolewrite_loop :: "copy_src \<Rightarrow> nat \<Rightarrow> nat \<Rightarrow> ('x kcons_scheme, int) kfun" where
  "consolewrite_loop src n i s =
     (if n \<le> i then Done (int i) s else
      let nn = (if n - i < 32 then n - i else 32) in
      bind (either_copyin (src_add src i) nn) (\<lambda>(r, buf).
      if r = - 1 then ret (int i) else
      bind (uartwrite buf) (\<lambda>_.
      consolewrite_loop src n (i + nn))) s)"
  by pat_completeness auto
termination
  by (relation "measure (\<lambda>(src, n, i, s). n - i)") auto

definition consolewrite :: "copy_src \<Rightarrow> int \<Rightarrow> ('x kcons_scheme, int) kfun" where
  "consolewrite src n = consolewrite_loop src (nat n) 0"

text \<open>The loop of \<open>consoleread\<close>, with the console's lock held; it is entered again after a sleep.\<close>

definition consoleread_end :: "nat \<Rightarrow> nat \<Rightarrow> ('x kcons_scheme, int) kfun" where
  "consoleread_end target n = bind (release ConsLock) (\<lambda>_. ret (int target - int n))"

fun consoleread_loop :: "nat \<Rightarrow> copy_dst \<Rightarrow> nat \<Rightarrow> ('x kcons_scheme, int) kfun" where
  "consoleread_loop target dst 0 = consoleread_end target 0"
| "consoleread_loop target dst (Suc n) =
     bind (gets (\<lambda>s. cons_r s = cons_w s)) (\<lambda>none.
     if none then
       bind myproc (\<lambda>p.
       bind (killed p) (\<lambda>k.
       if k \<noteq> 0 then bind (release ConsLock) (\<lambda>_. ret (- 1)) else
       sleep ChanConsR ConsLock))
     else
       bind (gets (\<lambda>s. cons_buf s ! (unat (cons_r s) mod INPUT_BUF_SIZE))) (\<lambda>c.
       bind (modify (\<lambda>s. s\<lparr>cons_r := cons_r s + 1\<rparr>)) (\<lambda>_.
       if c = ctrl 68 then
         bind (if Suc n < target then modify (\<lambda>s. s\<lparr>cons_r := cons_r s - 1\<rparr>) else ret ()) (\<lambda>_.
         consoleread_end target (Suc n))
       else
         bind (either_copyout dst [c]) (\<lambda>r.
         if r = - 1 then consoleread_end target (Suc n)
         else if c = nl then consoleread_end target n
         else consoleread_loop target (dst_add dst 1) n))))"

definition consoleread :: "copy_dst \<Rightarrow> int \<Rightarrow> ('x kcons_scheme, int) kfun" where
  "consoleread dst n = bind (acquire ConsLock) (\<lambda>_. consoleread_loop (nat n) dst (nat n))"

text \<open>Output leaves the input buffer alone; so the loop that kills a line ends.\<close>

definition cons_in :: "'x kcons_scheme \<Rightarrow> bytes \<times> u32 \<times> u32 \<times> u32" where
  "cons_in s = (cons_buf s, cons_r s, cons_w s, cons_e s)"

lemma uart_spin_Done: "uart_spin s = Done u t \<Longrightarrow> \<exists>vs. t = s\<lparr>lsr_in := vs\<rparr>"
proof (induction s rule: uart_spin.induct)
  case (1 s)
  then show ?case by (subst (asm) (2) uart_spin.simps) (force split: list.splits if_splits)
qed

lemma keeps_uartputc_sync: "keeps cons_in (uartputc_sync c)"
proof -
  have "keeps cons_in (uart_spin :: ('x kcons_scheme, unit) kfun)"
    by (rule keepsI) (auto dest!: uart_spin_Done simp: cons_in_def)
  then show "keeps (cons_in :: 'x kcons_scheme \<Rightarrow> _) (uartputc_sync c)"
    unfolding uartputc_sync_def by (intro keeps_intros) (simp_all add: keeps_def acquire_def release_def cons_in_def WriteReg_def)
qed

lemma keeps_consputc: "keeps cons_in (consputc c)"
  unfolding consputc_def by (intro keeps_intros keeps_uartputc_sync)

function cons_kill :: "('x kcons_scheme, unit) kfun" where
  "cons_kill s =
     (if cons_e s \<noteq> cons_w s \<and> cons_buf s ! (unat (cons_e s - 1) mod INPUT_BUF_SIZE) \<noteq> nl then
        bind (modify (\<lambda>s. s\<lparr>cons_e := cons_e s - 1\<rparr>)) (\<lambda>_.
        bind (consputc BACKSPACE) (\<lambda>_ s.
        cons_kill s)) s
      else Done () s)"
  by pat_completeness auto
termination
proof (relation "measure (\<lambda>s. unat (cons_e s - cons_w s))")
  show "wf (measure (\<lambda>s :: 'x kcons_scheme. unat (cons_e s - cons_w s)))" by simp
next
  fix s x xa t :: "'x kcons_scheme" and u v
  assume a: "cons_e s \<noteq> cons_w s \<and> cons_buf s ! (unat (cons_e s - 1) mod INPUT_BUF_SIZE) \<noteq> nl"
    and m: "modify (\<lambda>s. s\<lparr>cons_e := cons_e s - 1\<rparr>) s = Done u x" and c: "consputc BACKSPACE x = Done v t"
  have "cons_in t = cons_in x" by (rule keepsD[OF keeps_consputc c])
  then have "cons_e t - cons_w t = cons_e s - cons_w s - 1" using m by (auto simp: cons_in_def)
  moreover have "cons_e s - cons_w s \<noteq> 0" using a by simp
  ultimately show "(t, s) \<in> measure (\<lambda>s. unat (cons_e s - cons_w s))"
    by (simp add: measure_unat)
qed

declare cons_kill.simps [simp del]

text \<open>The default case of \<open>consoleintr\<close>: a character that is typed.\<close>

definition cons_type :: "int \<Rightarrow> ('x kcons_scheme, unit) kfun" where
  "cons_type c =
     bind (gets (\<lambda>s. cons_e s - cons_r s < of_nat INPUT_BUF_SIZE)) (\<lambda>room.
     if c \<noteq> 0 \<and> room then
       let c = (if c = 13 then 10 else c) in
       bind (consputc c) (\<lambda>_.
       bind (modify (\<lambda>s. s\<lparr>cons_buf := (cons_buf s)[unat (cons_e s) mod INPUT_BUF_SIZE := of_int c], cons_e := cons_e s + 1\<rparr>)) (\<lambda>_.
       bind (gets (\<lambda>s. cons_e s - cons_r s = of_nat INPUT_BUF_SIZE)) (\<lambda>full.
       if c = 10 \<or> c = uint (ctrl 68) \<or> full then
         bind (modify (\<lambda>s. s\<lparr>cons_w := cons_e s\<rparr>)) (\<lambda>_.
         wakeup (Some ChanConsR))
       else ret ())))
     else ret ())"

text \<open>The cases of \<open>consoleintr\<close>.\<close>

definition cons_switch :: "int \<Rightarrow> ('x kcons_scheme, unit) kfun" where
  "cons_switch c =
     (if c = uint (ctrl 80) then ret ()
      else if c = uint (ctrl 85) then cons_kill
      else if c = uint (ctrl 72) \<or> c = 0x7f then
        bind (gets (\<lambda>s. cons_e s \<noteq> cons_w s)) (\<lambda>ne.
        if ne then bind (modify (\<lambda>s. s\<lparr>cons_e := cons_e s - 1\<rparr>)) (\<lambda>_. consputc BACKSPACE) else ret ())
      else cons_type c)"

definition consoleintr :: "int \<Rightarrow> ('x kcons_scheme, unit) kfun" where
  "consoleintr c =
     bind (acquire ConsLock) (\<lambda>_.
     bind (cons_switch c) (\<lambda>_.
     release ConsLock))"

text \<open>
  \<open>uartintr\<close>: the loop over the characters received reads the line status at least once per turn, so there are
  no more turns than readings. Reading \<open>ISR\<close> acknowledges the interrupt and gives no value that is used.
\<close>

fun uart_rx :: "nat \<Rightarrow> ('x kcons_scheme, unit) kfun" where
  "uart_rx 0 = hang"
| "uart_rx (Suc k) =
     bind uartgetc (\<lambda>c.
     if c = - 1 then ret () else
     bind (consoleintr c) (\<lambda>_. uart_rx k))"

definition uartintr :: "('x kcons_scheme, unit) kfun" where
  "uartintr =
     bind (acquire TxLock) (\<lambda>_.
     bind uartstart (\<lambda>_.
     bind (release TxLock) (\<lambda>_.
     bind (wakeup (Some ChanTxR)) (\<lambda>_.
     bind (gets (\<lambda>s. length (lsr_in s))) (\<lambda>k.
     uart_rx (Suc k))))))"

definition consoleinit :: "('x kcons_scheme, unit) kfun" where
  "consoleinit = bind uartinit (\<lambda>_. modify (\<lambda>s. s\<lparr>devsw := (devsw s)(CONSOLE := Some ConsoleDev)\<rparr>))"

definition cons_demo :: kcons where
  "cons_demo = kvirt.extend virt_demo \<lparr>tx_buf = replicate 32 0, tx_r = 0, tx_w = 0, lsr_in = replicate 400 32, rhr_in = [], uart_writes = [],
     cons_buf = replicate 128 0, cons_r = 0, cons_w = 0, cons_e = 0, devsw = (\<lambda>_. None)\<rparr>"

lemma cons_demo_fields:
  "held cons_demo = {}" "procs cons_demo = procs proc_demo" "curproc cons_demo = Some 0" "lsr_in cons_demo = replicate 400 32"
  "cons_buf cons_demo = replicate 128 0" "cons_r cons_demo = 0" "cons_w cons_demo = 0" "cons_e cons_demo = 0" "uart_writes cons_demo = []"
  "tx_buf cons_demo = replicate 32 0" "tx_r cons_demo = 0" "tx_w cons_demo = 0"
  by (simp_all add: cons_demo_def virt_demo_def fs_demo_def log_demo_def bio_demo_def proc_demo_def
      kvirt.defs kfs.defs klog.defs kbio.defs kproc.defs)

end
