(* ===== verification/Printf.thy ===== *)
theory Printf
  imports Console
begin

text \<open>
  Formatted kernel output, \<^verbatim>\<open>kernel/printf.c\<close>. The characters a call prints depend on the format and the
  arguments alone: \<open>vfmt\<close> computes them, and \<open>printf\<close> sends them to the console under the lock of \<open>pr\<close>. The
  arguments are the words and strings of the call; \<open>va_arg\<close> past the last one, which C leaves undefined, reads
  as 0.
\<close>

text \<open>The bytes of a string literal.\<close>

definition str :: "string \<Rightarrow> bytes" where "str = map of_char"

record kprintf = kcons +
  panicking :: bool
  panicked :: bool

datatype va = VInt u64 | VStr "bytes option"

fun va_word :: "va list \<Rightarrow> u64" where
  "va_word (VInt x # _) = x"
| "va_word _ = 0"

fun va_str :: "va list \<Rightarrow> bytes option" where
  "va_str (VStr x # _) = x"
| "va_str _ = None"

definition digits :: bytes where
  "digits = [48, 49, 50, 51, 52, 53, 54, 55, 56, 57, 97, 98, 99, 100, 101, 102]"

text \<open>
  The characters of \<open>buf\<close> in \<open>printint\<close>, least significant first. The bases are 10 and 16; the guard on \<open>base\<close>
  makes the recursion total.
\<close>

function int_buf :: "nat \<Rightarrow> nat \<Rightarrow> bytes" where
  "int_buf base x = digits ! (x mod base) # (if x div base = 0 \<or> base < 2 then [] else int_buf base (x div base))"
  by pat_completeness auto
termination
  by (relation "measure snd") (auto simp: div_eq_0_iff)

declare int_buf.simps [simp del]

definition print_buf :: "u64 \<Rightarrow> nat \<Rightarrow> bool \<Rightarrow> bytes" where
  "print_buf xx base sign =
     (let neg = (sign \<and> sint xx < 0);
          x = (if neg then - xx else xx)
      in int_buf base (unat x) @ (if neg then [45] else []))"

definition printint :: "u64 \<Rightarrow> nat \<Rightarrow> bool \<Rightarrow> bytes" where
  "printint xx base sign = rev (print_buf xx base sign)"

fun ptr_digits :: "nat \<Rightarrow> u64 \<Rightarrow> bytes" where
  "ptr_digits 0 x = []"
| "ptr_digits (Suc i) x = digits ! unat (drop_bit 60 x) # ptr_digits i (push_bit 4 x)"

definition printptr :: "u64 \<Rightarrow> bytes" where
  "printptr x = [48, 120] @ ptr_digits 16 x"

definition null_str :: bytes where "null_str = str ''(null)''"

text \<open>The bytes of a string up to its terminator.\<close>

definition cstr :: "bytes \<Rightarrow> bytes" where "cstr s = takeWhile (\<lambda>c. c \<noteq> 0) s"

definition sext32 :: "u64 \<Rightarrow> u64" where "sext32 x = scast (ucast x :: u32)"
definition zext32 :: "u64 \<Rightarrow> u64" where "zext32 x = ucast (ucast x :: u32)"

function vfmt :: "bytes \<Rightarrow> va list \<Rightarrow> bytes" where
  "vfmt f ap =
     (let cx = chd f in
      if f = [] \<or> cx = 0 then []
      else if cx \<noteq> 37 then cx # vfmt (drop 1 f) ap
      else
        let c0 = chd (drop 1 f); c1 = (if c0 \<noteq> 0 then chd (drop 2 f) else 0);
            c2 = (if c1 \<noteq> 0 then chd (drop 3 f) else 0); w = va_word ap
        in if c0 = 100 then printint (sext32 w) 10 True @ vfmt (drop 2 f) (tl ap)
        else if c0 = 108 \<and> c1 = 100 then printint w 10 True @ vfmt (drop 3 f) (tl ap)
        else if c0 = 108 \<and> c1 = 108 \<and> c2 = 100 then printint w 10 True @ vfmt (drop 4 f) (tl ap)
        else if c0 = 117 then printint (zext32 w) 10 False @ vfmt (drop 2 f) (tl ap)
        else if c0 = 108 \<and> c1 = 117 then printint w 10 False @ vfmt (drop 3 f) (tl ap)
        else if c0 = 108 \<and> c1 = 108 \<and> c2 = 117 then printint w 10 False @ vfmt (drop 4 f) (tl ap)
        else if c0 = 120 then printint (zext32 w) 16 False @ vfmt (drop 2 f) (tl ap)
        else if c0 = 108 \<and> c1 = 120 then printint w 16 False @ vfmt (drop 3 f) (tl ap)
        else if c0 = 108 \<and> c1 = 108 \<and> c2 = 120 then printint w 16 False @ vfmt (drop 4 f) (tl ap)
        else if c0 = 112 then printptr w @ vfmt (drop 2 f) (tl ap)
        else if c0 = 99 then ucast w # vfmt (drop 2 f) (tl ap)
        else if c0 = 115 then
          cstr (case va_str ap of None \<Rightarrow> null_str | Some s \<Rightarrow> s) @ vfmt (drop 2 f) (tl ap)
        else if c0 = 37 then 37 # vfmt (drop 2 f) ap
        else if c0 = 0 then []
        else [37, c0] @ vfmt (drop 2 f) ap)"
  by pat_completeness auto
termination
  by (relation "measure (\<lambda>(f, ap). length f)") auto

declare vfmt.simps [simp del]

definition putc :: "u8 \<Rightarrow> ('x kprintf_scheme, unit) kfun" where
  "putc c = consputc (uint c)"

definition printf :: "bytes \<Rightarrow> va list \<Rightarrow> ('x kprintf_scheme, int) kfun" where
  "printf f ap =
     bind (gets panicking) (\<lambda>p.
     bind (if \<not> p then acquire PrLock else ret ()) (\<lambda>_.
     bind (foreach (vfmt f ap) putc) (\<lambda>_.
     bind (gets panicking) (\<lambda>p.
     bind (if \<not> p then release PrLock else ret ()) (\<lambda>_.
     ret 0)))))"

text \<open>
  The C function \<open>panic\<close>. Elsewhere in the model a call of it is the outcome \<open>Panic\<close>, which carries the message.
\<close>

definition panic_stop :: "bytes \<Rightarrow> ('x kprintf_scheme, unit) kfun" where
  "panic_stop msg =
     bind (modify (\<lambda>s. s\<lparr>panicking := True\<rparr>)) (\<lambda>_.
     bind (printf (str ''panic: '') []) (\<lambda>_.
     bind (printf (str ''%s'' @ [10]) [VStr (Some msg)]) (\<lambda>_.
     bind (modify (\<lambda>s. s\<lparr>panicked := True\<rparr>)) (\<lambda>_.
     hang))))"

section \<open>The numbers printint prints\<close>

definition digit_val :: "u8 \<Rightarrow> nat" where
  "digit_val c = (if c < 58 then unat c - 48 else unat c - 87)"

definition num_val :: "nat \<Rightarrow> bytes \<Rightarrow> nat" where
  "num_val base bs = foldl (\<lambda>v c. v * base + digit_val c) 0 bs"

lemma digit_val_digits: "d < 16 \<Longrightarrow> digit_val (digits ! d) = d \<and> digits ! d \<noteq> 45"
proof -
  have "\<forall>d\<in>set [0..<16]. digit_val (digits ! d) = d \<and> digits ! d \<noteq> 45" by (simp add: digits_def digit_val_def upt_rec)
  then show "d < 16 \<Longrightarrow> ?thesis" by simp
qed

lemma mod_base: "2 \<le> base \<Longrightarrow> base \<le> 16 \<Longrightarrow> x mod base < (16 :: nat)"
  by (rule less_le_trans[OF mod_less_divisor]) auto

lemma int_buf_val:
  assumes "2 \<le> base" "base \<le> 16"
  shows "num_val base (rev (int_buf base x)) = x"
proof (induction x rule: less_induct)
  case (less x)
  have d: "digit_val (digits ! (x mod base)) = x mod base" by (simp add: digit_val_digits mod_base assms)
  show ?case
  proof (cases "x div base = 0")
    case True
    then have "x mod base = x" using assms by (simp add: div_eq_0_iff)
    then show ?thesis using True d by (simp add: int_buf.simps[of base x] num_val_def)
  next
    case False
    have "x div base < x" using False assms by (cases x) auto
    then show ?thesis using less False d assms by (simp add: int_buf.simps[of base x] num_val_def)
  qed
qed

lemma int_buf_length:
  assumes "2 \<le> base" "x < base ^ n" "0 < n"
  shows "length (int_buf base x) \<le> n"
  using assms
proof (induction n arbitrary: x)
  case (Suc n)
  show ?case
  proof (cases "x div base = 0")
    case True then show ?thesis by (simp add: int_buf.simps[of base x])
  next
    case False
    have "x div base < base ^ n" using Suc.prems by (simp add: less_mult_imp_div_less mult.commute)
    moreover have "0 < n" using False Suc.prems by (cases n) auto
    ultimately show ?thesis using Suc False by (simp add: int_buf.simps[of base x])
  qed
qed simp

lemma int_buf_digits: "2 \<le> base \<Longrightarrow> base \<le> 16 \<Longrightarrow> 45 \<notin> set (int_buf base x)"
proof (induction x rule: less_induct)
  case (less x)
  have "digits ! (x mod base) \<noteq> 45" using less.prems by (simp add: digit_val_digits mod_base)
  moreover have "x div base < x" if "x div base \<noteq> 0" using that less.prems by (cases x) auto
  ultimately show ?case using less by (auto simp: int_buf.simps[of base x])
qed

lemma neg_word: "sint x < 0 \<Longrightarrow> int (unat (- x)) = - sint (x :: u64) \<and> unat (- x) \<le> 2 ^ 63"
proof -
  assume n: "sint x < 0"
  have l: "- (2 ^ 63) \<le> sint x" using sint_ge[of x] by simp
  have "uint (- x) = uint (word_of_int (- sint x) :: u64)" by simp
  also have "\<dots> = (- sint x) mod 2 ^ 64" by (simp only: uint_word_of_int) simp
  also have "\<dots> = - sint x" using n l by (intro mod_pos_pos_trivial) simp_all
  finally have "int (unat (- x)) = - sint x" by simp
  moreover from this have "int (unat (- x)) \<le> int (2 ^ 63)" using l by simp
  then have "unat (- x) \<le> 2 ^ 63" by (simp only: of_nat_le_iff)
  ultimately show ?thesis by blast
qed



end
