(* ===== verification/Riscv.thy ===== *)
theory Riscv
  imports Machine
begin

text \<open>
  The registers of a hart, \<^verbatim>\<open>kernel/riscv.h\<close>, and the code that runs before the kernel's main function,
  \<^verbatim>\<open>kernel/start.c\<close>. Each accessor of the header is one instruction that reads or writes a register; a register
  holds what was last written to it. \<open>sstatus\<close> is kept beside \<open>mstatus\<close>, of which it shows a part: the kernel
  uses different bits of the two.
\<close>

datatype priv = UserMode | SupervisorMode | MachineMode

record hart =
  h_priv :: priv
  h_pc :: u64
  h_mhartid :: u64
  h_mstatus :: u64
  h_mepc :: u64
  h_sstatus :: u64
  h_sie :: u64
  h_sepc :: u64
  h_medeleg :: u64
  h_mideleg :: u64
  h_stvec :: u64
  h_stimecmp :: u64
  h_menvcfg :: u64
  h_pmpcfg0 :: u64
  h_pmpaddr0 :: u64
  h_satp :: u64
  h_scause :: u64
  h_stval :: u64
  h_mcounteren :: u64
  h_time :: u64
  h_tp :: u64

section \<open>riscv.h\<close>

definition MSTATUS_MPP_MASK :: u64 where "MSTATUS_MPP_MASK = push_bit 11 3"
definition MSTATUS_MPP_S :: u64 where "MSTATUS_MPP_S = push_bit 11 1"
definition SSTATUS_SPP :: u64 where "SSTATUS_SPP = push_bit 8 1"
definition SSTATUS_SPIE :: u64 where "SSTATUS_SPIE = push_bit 5 1"
definition SSTATUS_SIE :: u64 where "SSTATUS_SIE = push_bit 1 1"
definition SIE_SEIE :: u64 where "SIE_SEIE = push_bit 9 1"
definition SIE_STIE :: u64 where "SIE_STIE = push_bit 5 1"
definition MENVCFG_STCE :: u64 where "MENVCFG_STCE = push_bit 63 1"
definition MENVCFG_ADUE :: u64 where "MENVCFG_ADUE = push_bit 61 1"

definition r_mhartid :: "hart \<Rightarrow> u64" where "r_mhartid h = h_mhartid h"
definition r_mstatus :: "hart \<Rightarrow> u64" where "r_mstatus h = h_mstatus h"
definition w_mstatus :: "u64 \<Rightarrow> hart \<Rightarrow> hart" where "w_mstatus x h = h\<lparr>h_mstatus := x\<rparr>"
definition w_mepc :: "u64 \<Rightarrow> hart \<Rightarrow> hart" where "w_mepc x h = h\<lparr>h_mepc := x\<rparr>"
definition r_sstatus :: "hart \<Rightarrow> u64" where "r_sstatus h = h_sstatus h"
definition w_sstatus :: "u64 \<Rightarrow> hart \<Rightarrow> hart" where "w_sstatus x h = h\<lparr>h_sstatus := x\<rparr>"
definition s_sstatus :: "u64 \<Rightarrow> hart \<Rightarrow> hart" where "s_sstatus x h = h\<lparr>h_sstatus := h_sstatus h OR x\<rparr>"
definition c_sstatus :: "u64 \<Rightarrow> hart \<Rightarrow> hart" where "c_sstatus x h = h\<lparr>h_sstatus := h_sstatus h AND NOT x\<rparr>"
definition rc_sstatus :: "u64 \<Rightarrow> hart \<Rightarrow> u64 \<times> hart" where
  "rc_sstatus x h = (h_sstatus h, h\<lparr>h_sstatus := h_sstatus h AND NOT x\<rparr>)"
definition r_sie :: "hart \<Rightarrow> u64" where "r_sie h = h_sie h"
definition w_sie :: "u64 \<Rightarrow> hart \<Rightarrow> hart" where "w_sie x h = h\<lparr>h_sie := x\<rparr>"
definition w_sepc :: "u64 \<Rightarrow> hart \<Rightarrow> hart" where "w_sepc x h = h\<lparr>h_sepc := x\<rparr>"
definition r_sepc :: "hart \<Rightarrow> u64" where "r_sepc h = h_sepc h"
definition w_medeleg :: "u64 \<Rightarrow> hart \<Rightarrow> hart" where "w_medeleg x h = h\<lparr>h_medeleg := x\<rparr>"
definition w_mideleg :: "u64 \<Rightarrow> hart \<Rightarrow> hart" where "w_mideleg x h = h\<lparr>h_mideleg := x\<rparr>"
definition w_stvec :: "u64 \<Rightarrow> hart \<Rightarrow> hart" where "w_stvec x h = h\<lparr>h_stvec := x\<rparr>"
definition w_stimecmp :: "u64 \<Rightarrow> hart \<Rightarrow> hart" where "w_stimecmp x h = h\<lparr>h_stimecmp := x\<rparr>"
definition r_menvcfg :: "hart \<Rightarrow> u64" where "r_menvcfg h = h_menvcfg h"
definition w_menvcfg :: "u64 \<Rightarrow> hart \<Rightarrow> hart" where "w_menvcfg x h = h\<lparr>h_menvcfg := x\<rparr>"
definition w_pmpcfg0 :: "u64 \<Rightarrow> hart \<Rightarrow> hart" where "w_pmpcfg0 x h = h\<lparr>h_pmpcfg0 := x\<rparr>"
definition w_pmpaddr0 :: "u64 \<Rightarrow> hart \<Rightarrow> hart" where "w_pmpaddr0 x h = h\<lparr>h_pmpaddr0 := x\<rparr>"
definition w_satp :: "u64 \<Rightarrow> hart \<Rightarrow> hart" where "w_satp x h = h\<lparr>h_satp := x\<rparr>"
definition r_satp :: "hart \<Rightarrow> u64" where "r_satp h = h_satp h"
definition r_scause :: "hart \<Rightarrow> u64" where "r_scause h = h_scause h"
definition r_stval :: "hart \<Rightarrow> u64" where "r_stval h = h_stval h"
definition w_mcounteren :: "u64 \<Rightarrow> hart \<Rightarrow> hart" where "w_mcounteren x h = h\<lparr>h_mcounteren := x\<rparr>"
definition r_mcounteren :: "hart \<Rightarrow> u64" where "r_mcounteren h = h_mcounteren h"
definition r_time :: "hart \<Rightarrow> u64" where "r_time h = h_time h"
definition r_tp :: "hart \<Rightarrow> u64" where "r_tp h = h_tp h"
definition w_tp :: "u64 \<Rightarrow> hart \<Rightarrow> hart" where "w_tp x h = h\<lparr>h_tp := x\<rparr>"
definition intr_on :: "hart \<Rightarrow> hart" where "intr_on h = s_sstatus SSTATUS_SIE h"
definition intr_off :: "hart \<Rightarrow> hart" where "intr_off h = c_sstatus SSTATUS_SIE h"
definition intr_get :: "hart \<Rightarrow> bool" where "intr_get h \<longleftrightarrow> r_sstatus h AND SSTATUS_SIE \<noteq> 0"

lemmas csr_defs = r_mhartid_def r_mstatus_def w_mstatus_def w_mepc_def r_sstatus_def w_sstatus_def s_sstatus_def c_sstatus_def
  rc_sstatus_def r_sie_def w_sie_def w_sepc_def r_sepc_def w_medeleg_def w_mideleg_def w_stvec_def w_stimecmp_def r_menvcfg_def
  w_menvcfg_def w_pmpcfg0_def w_pmpaddr0_def w_satp_def r_satp_def r_scause_def r_stval_def w_mcounteren_def r_mcounteren_def
  r_time_def r_tp_def w_tp_def

section \<open>start.c\<close>

definition timerinit :: "hart \<Rightarrow> hart" where
  "timerinit h0 =
     (let h1 = w_menvcfg (r_menvcfg h0 OR MENVCFG_STCE) h0;
          h2 = w_mcounteren (r_mcounteren h1 OR 2) h1
      in w_stimecmp (r_time h2 + 1000000) h2)"

text \<open>The instruction \<open>mret\<close>: it enters the mode the \<open>MPP\<close> field names, at \<open>mepc\<close>, and clears the field.\<close>

definition mret :: "hart \<Rightarrow> hart" where
  "mret h =
     (let mpp = unat (drop_bit 11 (h_mstatus h) AND 3) in
      h\<lparr>h_priv := (if mpp = 3 then MachineMode else if mpp = 1 then SupervisorMode else UserMode),
        h_pc := h_mepc h, h_mstatus := h_mstatus h AND NOT MSTATUS_MPP_MASK\<rparr>)"

definition start :: "u64 \<Rightarrow> hart \<Rightarrow> hart" where
  "start main h0 =
     (let x = (r_mstatus h0 AND NOT MSTATUS_MPP_MASK) OR MSTATUS_MPP_S;
          h1 = w_mstatus x h0;
          h2 = w_mepc main h1;
          h3 = w_satp 0 h2;
          h4 = w_mideleg 0xffff (w_medeleg 0xffff h3);
          h5 = w_sie (r_sie h4 OR SIE_SEIE OR SIE_STIE) h4;
          h6 = w_pmpcfg0 0xf (w_pmpaddr0 0x3fffffffffffff h5);
          h7 = w_menvcfg (r_menvcfg h6 OR MENVCFG_ADUE) h6;
          h8 = timerinit h7;
          h9 = w_tp (scast (ucast (r_mhartid h8) :: u32)) h8
      in mret h9)"

section \<open>The state in which main starts\<close>

lemma and_ne_0: "bit a n \<Longrightarrow> bit c n \<Longrightarrow> a AND c \<noteq> (0 :: u64)"
  by (metis bit_0_eq bit_and_iff bot_apply bot_bool_def)

lemma bit_pow: "bit (push_bit k 1 :: u64) n \<longleftrightarrow> n = k \<and> n < 64"
  unfolding bit_push_bit_iff bit_1_iff by auto

lemma bit_3: "bit (push_bit k 3 :: u64) n \<longleftrightarrow> (n = k \<or> n = Suc k) \<and> n < 64"
proof -
  have "bit (3 :: u64) m \<longleftrightarrow> m < 2" if "m < 64" for m
    using that bit_mask_iff[of 2 m, where 'a = "64 word"] by (simp add: mask_eq_exp_minus_1)
  then show ?thesis by (auto simp: bit_push_bit_iff)
qed

lemmas csr_bits = bit_or_iff bit_and_iff bit_not_iff bit_pow bit_3

lemma mpp_supervisor: "drop_bit 11 ((x AND NOT MSTATUS_MPP_MASK) OR MSTATUS_MPP_S) AND 3 = (1 :: u64)"
proof (rule bit_word_eqI)
  fix n :: nat
  assume n: "n < LENGTH(64)"
  have b: "bit (3 :: u64) n \<longleftrightarrow> n < 2" using n bit_3[of 0 n] by auto
  show "bit (drop_bit 11 ((x AND NOT MSTATUS_MPP_MASK) OR MSTATUS_MPP_S) AND (3 :: u64)) n = bit (1 :: u64) n"
    unfolding bit_and_iff b bit_drop_bit_eq MSTATUS_MPP_MASK_def MSTATUS_MPP_S_def csr_bits comp_def
    using n by (auto simp: bit_1_iff)
qed

lemma small_hartid: "x < 2 ^ 31 \<Longrightarrow> scast (ucast x :: u32) = (x :: u64)"
proof (rule bit_word_eqI)
  fix n
  assume x: "x < 2 ^ 31" and n: "n < LENGTH(64)"
  have "x = take_bit 31 x" using x by (simp add: word_unat_eq_iff unsigned_take_bit_eq take_bit_eq_mod word_less_nat_alt unat_mod)
  then have hi: "\<not> bit x m" if "31 \<le> m" for m using that by (metis bit_take_bit_iff not_less)
  show "bit (scast (ucast x :: u32) :: u64) n = bit x n"
    using n hi by (auto simp: bit_signed_iff bit_unsigned_iff min_def)
qed



end
