(* ===== verification/Syscall.thy ===== *)
theory Syscall
  imports Exec Printf Riscv
begin

text \<open>
  System calls: the argument fetching of \<^verbatim>\<open>kernel/syscall.c\<close>, the calls of \<^verbatim>\<open>kernel/sysproc.c\<close>, and the dispatch on
  the number in \<open>a7\<close>. A call returns the word for \<open>a0\<close>, or nothing where the process does not run on. The addresses
  of code the kernel stores or jumps to are the record \<open>ksyms\<close>.
\<close>

record ksyms =
  sy_etext :: u64
  sy_trampoline :: u64
  sy_forkret :: u64
  sy_kernelvec :: u64
  sy_uservec :: u64
  sy_userret :: u64
  sy_usertrap :: u64

record ktrap = kprintf +
  hart :: hart
  ticks :: u32
  nextfd :: int
  started :: bool
  forkret_first :: bool
  plic_in :: "u32 list"
  plic_writes :: "(u64 \<times> u32) list"

section \<open>Arguments\<close>

definition fetchaddr :: "u64 \<Rightarrow> ('x kproc_scheme, int \<times> u64) kfun" where
  "fetchaddr addr =
     bind myproc (\<lambda>i.
     bind (the_proc i) (\<lambda>p.
     if p_sz p \<le> addr \<or> p_sz p < addr + 8 then ret (- 1, 0) else
     bind (copyin (p_pagetable p) (p_sz p) addr 8) (\<lambda>(r, bs).
     if r \<noteq> 0 then ret (- 1, 0) else ret (0, get64 bs 0))))"

definition fetchstr :: "u64 \<Rightarrow> nat \<Rightarrow> ('x kproc_scheme, int \<times> bytes) kfun" where
  "fetchstr addr n =
     bind myproc (\<lambda>i.
     bind (the_proc i) (\<lambda>p.
     bind (copyinstr (p_pagetable p) (p_sz p) addr n) (\<lambda>(r, buf).
     if r < 0 then ret (- 1, buf) else ret (int (strlen buf), buf))))"

definition argraw :: "nat \<Rightarrow> ('x kproc_scheme, u64) kfun" where
  "argraw n =
     bind myproc (\<lambda>i.
     bind (the_proc i) (\<lambda>p.
     if n = 0 then tf_get (p_trapframe p) TF_a0
     else if n = 1 then tf_get (p_trapframe p) TF_a1
     else if n = 2 then tf_get (p_trapframe p) TF_a2
     else if n = 3 then tf_get (p_trapframe p) TF_a3
     else if n = 4 then tf_get (p_trapframe p) TF_a4
     else if n = 5 then tf_get (p_trapframe p) TF_a5
     else panic ''argraw''))"

definition argint :: "nat \<Rightarrow> ('x kproc_scheme, int) kfun" where
  "argint n = bind (argraw n) (\<lambda>x. ret (sint (ucast x :: u32)))"

definition argaddr :: "nat \<Rightarrow> ('x kproc_scheme, u64) kfun" where
  "argaddr n = argraw n"

definition argstr :: "nat \<Rightarrow> nat \<Rightarrow> ('x kproc_scheme, int \<times> bytes) kfun" where
  "argstr n m = bind (argaddr n) (\<lambda>addr. fetchstr addr m)"

section \<open>sysproc.c\<close>

text \<open>What \<open>kexit\<close> does with the working directory.\<close>

definition put_cwd :: "nat option \<Rightarrow> ('x kfs_scheme, unit) kfun" where
  "put_cwd ip =
     bind begin_op (\<lambda>_.
     bind (case ip of None \<Rightarrow> panic ''kerneltrap'' | Some i \<Rightarrow> iput i) (\<lambda>_.
     end_op))"

fun para_scan :: "bytes \<Rightarrow> nat list \<Rightarrow> nat option" where
  "para_scan c [] = None"
| "para_scan c (i # is) = (if c ! i = 10 \<and> c ! (i + 1) = 10 then Some i else para_scan c is)"

definition cut_para :: "bytes \<Rightarrow> bytes" where
  "cut_para c = (case para_scan c [0..<BSIZE - 1] of None \<Rightarrow> c | Some i \<Rightarrow> take i c @ replicate (BSIZE - i) 0)"

definition blocktest :: "('x ktrap_scheme, int) kfun" where
  "blocktest =
     bind (bread ROOTDEV 1) (\<lambda>b.
     bind (the_buf b) (\<lambda>bf. let v = (\<lambda>off. VInt (ucast (get32 (b_data bf) off))) in
     bind (printf (str ''Super Block info:'' @ [10]) []) (\<lambda>_.
     bind (printf ([9] @ str ''magic: %x'' @ [10, 9] @ str ''size: %d'' @ [10, 9] @ str ''nblocks: %d'' @ [10, 9] @ str ''ninodes: %d'' @ [10])
             [v 0, v 4, v 8, v 12]) (\<lambda>_.
     bind (printf ([9] @ str ''nlog: %d'' @ [10, 9] @ str ''logstart: %d'' @ [10, 9] @ str ''inodestart: %d'' @ [10, 9] @ str ''bmapstart: %d'' @ [10, 10])
             [v 16, v 20, v 24, v 28]) (\<lambda>_.
     bind (brelse b) (\<lambda>_.
     bind (bread ROOTDEV 47) (\<lambda>b.
     bind (upd_buf b (\<lambda>bf. bf\<lparr>b_data := (b_data bf)[BSIZE - 1 := 0]\<rparr>)) (\<lambda>_.
     bind (the_buf b) (\<lambda>bf.
     bind (printf (str ''README (1KB):'' @ [10] @ str ''%s'' @ [10, 10]) [VStr (Some (b_data bf))]) (\<lambda>_.
     bind (upd_buf b (\<lambda>bf. bf\<lparr>b_data := cut_para (b_data bf)\<rparr>)) (\<lambda>_.
     bind (bwrite b) (\<lambda>_.
     bind (brelse b) (\<lambda>_.
     bind (bread ROOTDEV 47) (\<lambda>b.
     bind (upd_buf b (\<lambda>bf. bf\<lparr>b_data := (b_data bf)[BSIZE - 1 := 0]\<rparr>)) (\<lambda>_.
     bind (the_buf b) (\<lambda>bf.
     bind (printf (str ''README (modified):'' @ [10] @ str ''%s'' @ [10, 10]) [VStr (Some (b_data bf))]) (\<lambda>_.
     bind (brelse b) (\<lambda>_.
     ret 0))))))))))))))))))"

definition sys_exit :: "('x ktrap_scheme, u64 option) kfun" where
  "sys_exit = bind (argint 0) (\<lambda>status. bind (kexit put_cwd status) (\<lambda>_. ret None))"

definition sys_getpid :: "('x ktrap_scheme, u64 option) kfun" where
  "sys_getpid = bind myproc (\<lambda>i. bind (the_proc i) (\<lambda>p. ret (Some (of_int (p_pid p)))))"

definition sys_fork :: "ksyms \<Rightarrow> ('x ktrap_scheme, u64 option) kfun" where
  "sys_fork sy = bind (kfork idup (sy_forkret sy) (sy_trampoline sy)) (\<lambda>r. ret (Some (of_int r)))"

definition sys_wait :: "('x ktrap_scheme, u64 option) kfun" where
  "sys_wait = bind (argaddr 0) (\<lambda>addr. bind (kwait addr) (\<lambda>r. ret (Some (of_int r))))"

definition sys_sbrk :: "('x ktrap_scheme, u64 option) kfun" where
  "sys_sbrk =
     bind (argint 0) (\<lambda>n.
     bind myproc (\<lambda>i.
     bind (the_proc i) (\<lambda>p.
     let addr = p_sz p in
     bind (growproc n) (\<lambda>r.
     if r < 0 then ret (Some (- 1)) else ret (Some addr)))))"

text \<open>The loop of \<open>sys_sleep\<close>, with \<open>tickslock\<close> held; it is entered again after a sleep.\<close>

definition sys_sleep_loop :: "int \<Rightarrow> u32 \<Rightarrow> ('x ktrap_scheme, u64 option) kfun" where
  "sys_sleep_loop n ticks0 =
     bind (gets ticks) (\<lambda>t.
     if t - ticks0 < of_int n then
       bind myproc (\<lambda>i.
       bind (killed i) (\<lambda>k.
       if k \<noteq> 0 then bind (release TicksLock) (\<lambda>_. ret (Some (- 1)))
       else sleep ChanTicks TicksLock))
     else bind (release TicksLock) (\<lambda>_. ret (Some 0)))"

definition sys_sleep :: "('x ktrap_scheme, u64 option) kfun" where
  "sys_sleep =
     bind (argint 0) (\<lambda>n0.
     let n = (if n0 < 0 then 0 else n0) in
     bind (acquire TicksLock) (\<lambda>_.
     bind (gets ticks) (\<lambda>ticks0.
     sys_sleep_loop n ticks0)))"

definition sys_kill :: "('x ktrap_scheme, u64 option) kfun" where
  "sys_kill = bind (argint 0) (\<lambda>pid. bind (kkill pid) (\<lambda>r. ret (Some (of_int r))))"

definition sys_exec :: "ksyms \<Rightarrow> ('x ktrap_scheme, u64 option) kfun" where
  "sys_exec sy =
     bind (argstr 0 MAXPATH) (\<lambda>(r, path).
     if r < 0 then ret (Some (- 1)) else
     bind (argaddr 1) (\<lambda>_.
     bind (kexec (sy_trampoline sy) path [path]) (\<lambda>r.
     ret (Some (of_int r)))))"

definition sys_uptime :: "('x ktrap_scheme, u64 option) kfun" where
  "sys_uptime =
     bind (acquire TicksLock) (\<lambda>_.
     bind (gets ticks) (\<lambda>xticks.
     bind (release TicksLock) (\<lambda>_.
     ret (Some (ucast xticks)))))"

definition sys_write :: "('x ktrap_scheme, u64 option) kfun" where
  "sys_write =
     bind (argint 0) (\<lambda>fd.
     if fd = 3 then bind blocktest (\<lambda>r. ret (Some (of_int r)))
     else if 3 \<le> fd then ret (Some 0) else
     bind (argaddr 1) (\<lambda>addr.
     bind (argint 2) (\<lambda>n.
     if n < 0 then ret (Some (- 1)) else
     bind (consolewrite (UserSrc addr) n) (\<lambda>r. ret (Some (of_int r))))))"

definition sys_read :: "('x ktrap_scheme, u64 option) kfun" where
  "sys_read =
     bind (argaddr 1) (\<lambda>addr.
     bind (argint 2) (\<lambda>n.
     if n < 0 then ret (Some (- 1)) else
     bind (consoleread (UserDst addr) n) (\<lambda>r. ret (Some (of_int r)))))"

definition sys_chdir :: "('x ktrap_scheme, u64 option) kfun" where
  "sys_chdir =
     bind myproc (\<lambda>p.
     bind (argstr 0 MAXPATH) (\<lambda>(r, path).
     if r < 0 then ret (Some (- 1)) else
     bind (namei path) (\<lambda>ipo. case ipo of None \<Rightarrow> ret (Some (- 1)) | Some ip \<Rightarrow>
     bind begin_op (\<lambda>_.
     bind (the_proc p) (\<lambda>pr.
     bind (case p_cwd pr of None \<Rightarrow> panic ''kerneltrap'' | Some i \<Rightarrow> iput i) (\<lambda>_.
     bind (upd_proc p (\<lambda>pr. pr\<lparr>p_cwd := Some ip\<rparr>)) (\<lambda>_.
     bind end_op (\<lambda>_.
     ret (Some 0)))))))))"

definition sys_open :: "('x ktrap_scheme, u64 option) kfun" where
  "sys_open = ret (Some 0)"

definition sys_mknod :: "('x ktrap_scheme, u64 option) kfun" where
  "sys_mknod = ret (Some 0)"

definition sys_dup :: "('x ktrap_scheme, u64 option) kfun" where
  "sys_dup = bind (gets nextfd) (\<lambda>n. bind (modify (\<lambda>s. s\<lparr>nextfd := signed_take_bit 31 (n + 1)\<rparr>)) (\<lambda>_. ret (Some (of_int n))))"

section \<open>Dispatch\<close>

definition SYS_fork :: int where [simp]: "SYS_fork = 1"
definition SYS_exit :: int where [simp]: "SYS_exit = 2"
definition SYS_wait :: int where [simp]: "SYS_wait = 3"
definition SYS_read :: int where [simp]: "SYS_read = 5"
definition SYS_kill :: int where [simp]: "SYS_kill = 6"
definition SYS_exec :: int where [simp]: "SYS_exec = 7"
definition SYS_chdir :: int where [simp]: "SYS_chdir = 9"
definition SYS_dup :: int where [simp]: "SYS_dup = 10"
definition SYS_getpid :: int where [simp]: "SYS_getpid = 11"
definition SYS_sbrk :: int where [simp]: "SYS_sbrk = 12"
definition SYS_sleep :: int where [simp]: "SYS_sleep = 13"
definition SYS_uptime :: int where [simp]: "SYS_uptime = 14"
definition SYS_open :: int where [simp]: "SYS_open = 15"
definition SYS_write :: int where [simp]: "SYS_write = 16"
definition SYS_mknod :: int where [simp]: "SYS_mknod = 17"

text \<open>The table: its last entry is the one of \<open>SYS_mknod\<close>, so it has 18.\<close>

definition syscalls :: "ksyms \<Rightarrow> int \<Rightarrow> ('x ktrap_scheme, u64 option) kfun option" where
  "syscalls sy n =
     (if n = SYS_fork then Some (sys_fork sy)
      else if n = SYS_exit then Some sys_exit
      else if n = SYS_wait then Some sys_wait
      else if n = SYS_read then Some sys_read
      else if n = SYS_kill then Some sys_kill
      else if n = SYS_exec then Some (sys_exec sy)
      else if n = SYS_chdir then Some sys_chdir
      else if n = SYS_dup then Some sys_dup
      else if n = SYS_getpid then Some sys_getpid
      else if n = SYS_sbrk then Some sys_sbrk
      else if n = SYS_sleep then Some sys_sleep
      else if n = SYS_uptime then Some sys_uptime
      else if n = SYS_write then Some sys_write
      else if n = SYS_open then Some sys_open
      else if n = SYS_mknod then Some sys_mknod
      else None)"

text \<open>The result tells whether the process runs on.\<close>

definition syscall :: "ksyms \<Rightarrow> ('x ktrap_scheme, bool) kfun" where
  "syscall sy =
     bind myproc (\<lambda>i.
     bind (the_proc i) (\<lambda>p.
     bind (tf_get (p_trapframe p) TF_a7) (\<lambda>a7.
     let num = sint (ucast a7 :: u32) in
     case (if 0 < num \<and> num < 18 then syscalls sy num else None) of
       Some f \<Rightarrow>
         bind f (\<lambda>r. case r of None \<Rightarrow> ret False | Some v \<Rightarrow>
         bind (tf_set (p_trapframe p) TF_a0 v) (\<lambda>_. ret True))
     | None \<Rightarrow>
         bind (printf (str ''%d: unknown sys call %d'' @ [10]) [VInt (of_int (p_pid p)), VInt (of_int num)]) (\<lambda>_.
         bind (tf_set (p_trapframe p) TF_a0 (- 1)) (\<lambda>_. ret True)))))"

section \<open>A state for examples\<close>

definition hart_demo :: hart where
  "hart_demo = \<lparr>h_priv = SupervisorMode, h_pc = 0x80000000, h_mhartid = 0, h_mstatus = 0, h_mepc = 0, h_sstatus = 0, h_sie = 0, h_sepc = 0,
     h_medeleg = 0, h_mideleg = 0, h_stvec = 0, h_stimecmp = 0, h_menvcfg = 0, h_pmpcfg0 = 0, h_pmpaddr0 = 0, h_satp = 0,
     h_scause = 0, h_stval = 0, h_mcounteren = 0, h_time = 0, h_tp = 0\<rparr>"

definition trap_demo :: ktrap where
  "trap_demo = kprintf.extend (kcons.extend cons_demo \<lparr>panicking = False, panicked = False\<rparr>)
     \<lparr>hart = hart_demo, ticks = 0, nextfd = 3, started = True, forkret_first = False, plic_in = [], plic_writes = []\<rparr>"

lemma trap_demo_fields:
  "held trap_demo = {}" "procs trap_demo = procs proc_demo" "curproc trap_demo = Some 0" "lsr_in trap_demo = replicate 400 32"
  "uart_writes trap_demo = []" "panicking trap_demo = False" "panicked trap_demo = False" "tx_r trap_demo = 0" "tx_w trap_demo = 0"
  "tx_buf trap_demo = replicate 32 0"
  by (simp_all add: trap_demo_def kprintf.defs kcons.defs cons_demo_fields)

end
