(* ===== verification/Oncpu.thy ===== *)
theory Oncpu
  imports Syscall
begin

text \<open>
  No process runs on two CPUs. The steps of \<open>Sched\<close> take the operations on the working directory as arguments; here they are the
  ones the kernel uses, \<open>idup\<close> of \<^verbatim>\<open>fs.c\<close> and the release in \<open>kexit\<close>, which go through inodes, log and buffer cache. None of
  those layers moves a process on or off a CPU.
\<close>

section \<open>The file system leaves running processes alone\<close>

named_theorems pview_keeps \<open>functions that move no process on or off a CPU\<close>

lemma pview_locks [pview_keeps]: "keeps pview (acquire lk)" "keeps pview (release lk)"
  by (simp_all add: keeps_def acquire_def release_def)

lemma pview_modify: "(\<And>s. procs (f s) = procs s) \<Longrightarrow> (\<And>s. curproc (f s) = curproc s) \<Longrightarrow> keeps pview (modify f)"
  by (rule keeps_modify) (rule pview_cong)

lemma pview_sleeplock:
  assumes "\<And>f s. procs (upd f s) = procs s" and "\<And>f s. curproc (upd f s) = curproc s"
  shows "keeps pview (acquiresleep lk ch rd upd)" and "keeps pview (releasesleep lk ch upd)" and "keeps pview (holdingsleep lk rd)"
proof -
  have u: "pview (upd f s) = pview s" for f s by (rule pview_cong) (rule assms)+
  show "keeps pview (acquiresleep lk ch rd upd)" by (rule keeps_acquiresleep) (simp_all add: u)
  show "keeps pview (releasesleep lk ch upd)" by (rule keeps_releasesleep) (simp_all add: u keeps_wakeup)
  show "keeps pview (holdingsleep lk rd)" by (rule keeps_holdingsleep) simp
qed

lemma pview_buf [pview_keeps]: "keeps pview (the_buf i)" "keeps pview (upd_buf i f)" "keeps pview (disk_rw i w)"
  "keeps pview (buf_acquiresleep i)" "keeps pview (buf_releasesleep i)" "keeps pview (buf_holdingsleep i)"
proof -
  show "keeps pview (the_buf i)" "keeps pview (upd_buf i f)" "keeps pview (disk_rw i w)"
    unfolding the_buf_def upd_buf_def by (intro keeps_intros pview_modify; simp)+ (auto simp: keeps_def disk_rw_def Let_def intro!: pview_cong)
  show "keeps pview (buf_acquiresleep i)" "keeps pview (buf_releasesleep i)" "keeps pview (buf_holdingsleep i)"
    unfolding buf_acquiresleep_def buf_releasesleep_def buf_holdingsleep_def
    by (rule pview_sleeplock; simp add: buf_lock_upd_def)+
qed

lemma pview_links: "keeps pview (modify (link_front i))" "keeps pview (modify (unlink i))"
  by (intro pview_modify; simp add: link_front_def unlink_def set_nxt_def set_prv_def Let_def split: bptr.splits)+

lemma pview_bio [pview_keeps]: "keeps pview (bget d b)" "keeps pview (bread d b)" "keeps pview (bwrite i)" "keeps pview (brelse i)"
  "keeps pview (bpin i)" "keeps pview (bunpin i)"
proof -
  show g: "keeps pview (bget d b)" for d b unfolding bget_def by (intro keeps_intros pview_keeps more_find more_lru)
  show "keeps pview (bread d b)" "keeps pview (bwrite i)" "keeps pview (brelse i)" "keeps pview (bpin i)" "keeps pview (bunpin i)"
    unfolding bread_def bwrite_def brelse_def bpin_def bunpin_def
    by (intro keeps_intros g pview_keeps pview_links)+
qed

lemma pview_log_head [pview_keeps]: "keeps pview (set_block i v)" "keeps pview write_head"
proof -
  show "keeps pview (set_block i v)" for i v by (auto simp: keeps_def set_block_def intro!: pview_cong)
  show "keeps pview write_head" unfolding write_head_def by (intro keeps_intros pview_keeps)
qed

lemma pview_log [pview_keeps]: "keeps pview (install_trans r)" "keeps pview write_log" "keeps pview commit"
  "keeps pview begin_op" "keeps pview end_op" "keeps pview (log_write b)"
proof -
  show i: "keeps pview (install_trans r)" "keeps pview write_log" for r
    unfolding install_trans_def install_block_def write_log_def write_log_block_def by (intro keeps_intros pview_keeps)+
  show c: "keeps pview commit" unfolding commit_def by (intro keeps_intros pview_keeps i pview_modify; simp)
  show "keeps pview begin_op" "keeps pview end_op" "keeps pview (log_write b)"
    unfolding begin_op_def end_op_def log_write_def Let_def by (intro keeps_intros pview_keeps c keeps_wakeup pview_modify; simp)+
qed

lemma pview_inode [pview_keeps]: "keeps pview (the_inode i)" "keeps pview (upd_inode i f)"
  "keeps pview (inode_acquiresleep i)" "keeps pview (inode_releasesleep i)"
proof -
  show "keeps pview (the_inode i)" "keeps pview (upd_inode i f)"
    unfolding the_inode_def upd_inode_def by (intro keeps_intros pview_modify; simp)+
  show "keeps pview (inode_acquiresleep i)" "keeps pview (inode_releasesleep i)"
    unfolding inode_acquiresleep_def inode_releasesleep_def
    by (rule pview_sleeplock; simp add: inode_lock_upd_def)+
qed

lemma pview_fs [pview_keeps]: "keeps pview (bfree d b)" "keeps pview (iupdate i)" "keeps pview (ifree d b)"
proof -
  show "keeps pview (bfree d b)" unfolding bfree_def Let_def by (intro keeps_intros pview_keeps)
  show "keeps pview (iupdate i)" unfolding iupdate_def by (intro keeps_intros pview_keeps)
  show "keeps pview (ifree d b)" unfolding ifree_def by (intro keeps_intros pview_keeps)
qed

lemma pview_itrunc [pview_keeps]: "keeps pview (itrunc i)"
proof -
  show ?thesis unfolding itrunc_def by (intro keeps_intros pview_keeps)
qed

lemma pview_iput [pview_keeps]: "keeps pview (iput i)"
proof -
  show ?thesis unfolding iput_def Let_def by (intro keeps_intros pview_keeps)
qed

lemma pview_put_cwd: "keeps pview (put_cwd ip)"
proof -
  show ?thesis unfolding put_cwd_def by (intro keeps_intros pview_keeps)
qed

lemma ptab_idup: "keeps ptab (idup ip)"
proof -
  have "keeps ptab (upd_inode i f)" for i f by (simp add: keeps_def upd_inode_def)
  then show ?thesis unfolding idup_def by (intro keeps_intros)
qed

section \<open>Properties\<close>

text \<open>The system from boot on: no process runs, and then any CPU takes any of the steps.\<close>

definition proc_reachable :: "u64 \<Rightarrow> u64 \<Rightarrow> 'x kfs_scheme \<times> (nat \<Rightarrow> nat option) \<Rightarrow> 'x kfs_scheme \<times> (nat \<Rightarrow> nat option) \<Rightarrow> bool" where
  "proc_reachable forkret trampoline = (proc_step idup put_cwd forkret trampoline)\<^sup>*\<^sup>*"


definition cpu_demo :: "kfs \<times> (nat \<Rightarrow> nat option)" where
  "cpu_demo = (fs_demo\<lparr>procs := replicate NPROC (demo_proc\<lparr>p_state := RUNNABLE\<rparr>)\<rparr>, \<lambda>_. None)"


end
