(* ===== verification/Trap.thy ===== *)
theory Trap
  imports Syscall
begin

text \<open>
  Traps and booting: \<^verbatim>\<open>kernel/trap.c\<close>, the interrupt controller of \<^verbatim>\<open>kernel/plic.c\<close>, \<open>forkret\<close> of
  \<^verbatim>\<open>kernel/proc.c\<close> and \<^verbatim>\<open>kernel/main.c\<close>. The interrupt controller is its sequence of claims, \<open>plic_in\<close> (none left is
  claim 0, no interrupt), and the trace of the registers written. A handler ends in one of three ways: it returns
  to user space with a page table, it has switched to the scheduler, or the process has exited.
\<close>

section \<open>plic.c\<close>

definition cpuid :: "('x ktrap_scheme, nat) kfun" where
  "cpuid = gets (\<lambda>s. unat (r_tp (hart s)))"

definition PLIC_SENABLE :: "nat \<Rightarrow> u64" where "PLIC_SENABLE h = PLIC + 0x2080 + of_nat h * 0x100"
definition PLIC_SPRIORITY :: "nat \<Rightarrow> u64" where "PLIC_SPRIORITY h = PLIC + 0x201000 + of_nat h * 0x2000"
definition PLIC_SCLAIM :: "nat \<Rightarrow> u64" where "PLIC_SCLAIM h = PLIC + 0x201004 + of_nat h * 0x2000"

definition plic_write :: "u64 \<Rightarrow> u32 \<Rightarrow> ('x ktrap_scheme, unit) kfun" where
  "plic_write a v = modify (\<lambda>s. s\<lparr>plic_writes := plic_writes s @ [(a, v)]\<rparr>)"

definition plicinit :: "('x ktrap_scheme, unit) kfun" where
  "plicinit =
     bind (plic_write (PLIC + of_nat (UART0_IRQ * 4)) 1) (\<lambda>_.
     plic_write (PLIC + of_nat (VIRTIO0_IRQ * 4)) 1)"

definition plicinithart :: "('x ktrap_scheme, unit) kfun" where
  "plicinithart =
     bind cpuid (\<lambda>h.
     bind (plic_write (PLIC_SENABLE h) (push_bit UART0_IRQ 1 OR push_bit VIRTIO0_IRQ 1)) (\<lambda>_.
     plic_write (PLIC_SPRIORITY h) 0))"

definition plic_claim :: "('x ktrap_scheme, int) kfun" where
  "plic_claim = (\<lambda>s. case plic_in s of [] \<Rightarrow> Done 0 s | q # qs \<Rightarrow> Done (sint q) (s\<lparr>plic_in := qs\<rparr>))"

definition plic_complete :: "int \<Rightarrow> ('x ktrap_scheme, unit) kfun" where
  "plic_complete irq = bind cpuid (\<lambda>h. plic_write (PLIC_SCLAIM h) (of_int irq))"

section \<open>trap.c\<close>

definition on_hart :: "(hart \<Rightarrow> hart) \<Rightarrow> ('x ktrap_scheme, unit) kfun" where
  "on_hart f = modify (\<lambda>s. s\<lparr>hart := f (hart s)\<rparr>)"

definition csr :: "(hart \<Rightarrow> u64) \<Rightarrow> ('x ktrap_scheme, u64) kfun" where
  "csr r = gets (\<lambda>s. r (hart s))"

definition trapinithart :: "ksyms \<Rightarrow> ('x ktrap_scheme, unit) kfun" where
  "trapinithart sy = on_hart (w_stvec (sy_kernelvec sy))"

definition clockintr :: "('x ktrap_scheme, unit) kfun" where
  "clockintr =
     bind cpuid (\<lambda>h.
     bind (if h = 0 then
             bind (acquire TicksLock) (\<lambda>_.
             bind (modify (\<lambda>s. s\<lparr>ticks := ticks s + 1\<rparr>)) (\<lambda>_.
             bind (wakeup (Some ChanTicks)) (\<lambda>_.
             release TicksLock)))
           else ret ()) (\<lambda>_.
     bind (csr r_time) (\<lambda>t.
     on_hart (w_stimecmp (t + 1000000)))))"

definition devintr :: "((nat \<times> u32) list \<Rightarrow> nat \<Rightarrow> u32) \<Rightarrow> ('x ktrap_scheme, nat) kfun" where
  "devintr dev =
     bind (csr r_scause) (\<lambda>scause.
     if scause = 0x8000000000000009 then
       bind plic_claim (\<lambda>irq.
       bind (if irq = int UART0_IRQ then uartintr
             else if irq = int VIRTIO0_IRQ then virtio_disk_intr dev
             else if irq \<noteq> 0 then
               bind (printf (str ''unexpected interrupt irq=%d'' @ [10]) [VInt (of_int irq)]) (\<lambda>_. ret ())
             else ret ()) (\<lambda>_.
       bind (if irq \<noteq> 0 then plic_complete irq else ret ()) (\<lambda>_.
       ret 1)))
     else if scause = 0x8000000000000005 then bind clockintr (\<lambda>_. ret 2)
     else ret 0)"

datatype uexit = Userret u64 | Switched | Exited

definition usertrapret :: "ksyms \<Rightarrow> ('x ktrap_scheme, uexit) kfun" where
  "usertrapret sy =
     bind myproc (\<lambda>i.
     bind (on_hart intr_off) (\<lambda>_.
     bind (on_hart (w_stvec (TRAMPOLINE + (sy_uservec sy - sy_trampoline sy)))) (\<lambda>_.
     bind (the_proc i) (\<lambda>p. let tf = p_trapframe p in
     bind (gets satp) (\<lambda>x.
     bind (tf_set tf TF_kernel_satp x) (\<lambda>_.
     bind (tf_set tf TF_kernel_sp (p_kstack p + PGSIZE)) (\<lambda>_.
     bind (tf_set tf TF_kernel_trap (sy_usertrap sy)) (\<lambda>_.
     bind (csr r_tp) (\<lambda>x.
     bind (tf_set tf TF_kernel_hartid x) (\<lambda>_.
     bind (csr r_sstatus) (\<lambda>x.
     bind (on_hart (w_sstatus ((x AND NOT SSTATUS_SPP) OR SSTATUS_SPIE))) (\<lambda>_.
     bind (tf_get tf TF_epc) (\<lambda>x.
     bind (on_hart (w_sepc x)) (\<lambda>_.
     ret (Userret (MAKE_SATP (p_pagetable p)))))))))))))))))"

definition usertrap_end :: "ksyms \<Rightarrow> nat \<Rightarrow> nat \<Rightarrow> ('x ktrap_scheme, uexit) kfun" where
  "usertrap_end sy i which_dev =
     bind (killed i) (\<lambda>k.
     if k \<noteq> 0 then bind (kexit put_cwd (- 1)) (\<lambda>_. ret Exited)
     else if which_dev = 2 then bind yield (\<lambda>_. ret Switched)
     else usertrapret sy)"

text \<open>What is left of \<open>usertrap\<close> when the process runs again after its \<open>yield\<close>.\<close>

definition usertrap_resume :: "ksyms \<Rightarrow> ('x ktrap_scheme, uexit) kfun" where
  "usertrap_resume sy = bind yield_return (\<lambda>_. usertrapret sy)"

definition usertrap :: "((nat \<times> u32) list \<Rightarrow> nat \<Rightarrow> u32) \<Rightarrow> ksyms \<Rightarrow> ('x ktrap_scheme, uexit) kfun" where
  "usertrap dev sy =
     bind myproc (\<lambda>i.
     bind (csr r_sstatus) (\<lambda>ss.
     if ss AND SSTATUS_SPP \<noteq> 0 then panic ''usertrap: not from user mode'' else
     bind (on_hart (w_stvec (sy_kernelvec sy))) (\<lambda>_.
     bind (the_proc i) (\<lambda>p. let tf = p_trapframe p in
     bind (csr r_sepc) (\<lambda>e.
     bind (tf_set tf TF_epc e) (\<lambda>_.
     bind (csr r_scause) (\<lambda>c.
     if c = 8 then
       bind (killed i) (\<lambda>k.
       if k \<noteq> 0 then bind (kexit put_cwd (- 1)) (\<lambda>_. ret Exited) else
       bind (tf_get tf TF_epc) (\<lambda>e.
       bind (tf_set tf TF_epc (e + 4)) (\<lambda>_.
       bind (on_hart intr_on) (\<lambda>_.
       bind (syscall sy) (\<lambda>on.
       if on then usertrap_end sy i 0 else ret Exited)))))
     else
       bind (devintr dev) (\<lambda>d.
       if d = 0 then
         bind (csr r_stval) (\<lambda>v.
         bind (printf (str ''usertrap: scause=0x%lx sepc=0x%lx stval=0x%lx'' @ [10]) [VInt c, VInt e, VInt v]) (\<lambda>_.
         panic ''usertrap''))
       else usertrap_end sy i d))))))))"

text \<open>\<open>kerneltrap\<close>; when it yields, the registers it restores later are the result.\<close>

definition kerneltrap_restore :: "u64 \<Rightarrow> u64 \<Rightarrow> ('x ktrap_scheme, unit) kfun" where
  "kerneltrap_restore sepc sstatus = bind (on_hart (w_sepc sepc)) (\<lambda>_. on_hart (w_sstatus sstatus))"

definition kerneltrap :: "((nat \<times> u32) list \<Rightarrow> nat \<Rightarrow> u32) \<Rightarrow> ('x ktrap_scheme, (u64 \<times> u64) option) kfun" where
  "kerneltrap dev =
     bind (csr r_sepc) (\<lambda>sepc.
     bind (csr r_sstatus) (\<lambda>sstatus.
     if sstatus AND SSTATUS_SPP = 0 then panic ''kerneltrap: not from supervisor mode'' else
     bind (gets (\<lambda>s. intr_get (hart s))) (\<lambda>on.
     if on then panic ''kerneltrap: interrupts enabled'' else
     bind (devintr dev) (\<lambda>d.
     if d = 0 then
       bind (csr r_scause) (\<lambda>c.
       bind (csr r_stval) (\<lambda>v.
       bind (printf (str ''scause=0x%lx sepc=0x%lx stval=0x%lx'' @ [10]) [VInt c, VInt sepc, VInt v]) (\<lambda>_.
       panic ''kerneltrap'')))
     else
       bind (gets curproc) (\<lambda>me.
       if d = 2 \<and> me \<noteq> None then bind yield (\<lambda>_. ret (Some (sepc, sstatus)))
       else bind (kerneltrap_restore sepc sstatus) (\<lambda>_. ret None))))))"

definition kerneltrap_resume :: "u64 \<times> u64 \<Rightarrow> ('x ktrap_scheme, unit) kfun" where
  "kerneltrap_resume r = bind yield_return (\<lambda>_. kerneltrap_restore (fst r) (snd r))"

section \<open>forkret and main\<close>

definition forkret :: "ksyms \<Rightarrow> ('x ktrap_scheme, uexit) kfun" where
  "forkret sy =
     bind myproc (\<lambda>i.
     bind (release (ProcLock i)) (\<lambda>_.
     bind (gets forkret_first) (\<lambda>first.
     bind (if first then
             bind (fsinit ROOTDEV) (\<lambda>_.
             bind (namei (str ''/'')) (\<lambda>ip.
             bind (upd_proc i (\<lambda>p. p\<lparr>p_cwd := ip\<rparr>)) (\<lambda>_.
             bind (kexec (sy_trampoline sy) (str ''init'') [str ''init'']) (\<lambda>r.
             if r < 0 then panic ''forkret: exec init'' else
             modify (\<lambda>s. s\<lparr>forkret_first := False\<rparr>)))))
           else ret ()) (\<lambda>_.
     usertrapret sy))))"

text \<open>
  \<open>main\<close>, up to the first process the scheduler of the CPU switches to. \<open>printfinit\<close> and \<open>trapinit\<close> initialise
  a lock each. A CPU other than the first waits for \<open>started\<close>, which another CPU sets.
\<close>

definition main :: "((nat \<times> u32) list \<Rightarrow> nat \<Rightarrow> u32) \<Rightarrow> ksyms \<Rightarrow> bytes \<Rightarrow> ('x ktrap_scheme, nat option) kfun" where
  "main dev sy initcode =
     bind cpuid (\<lambda>h.
     bind (if h = 0 then
             bind consoleinit (\<lambda>_.
             bind kinit (\<lambda>_.
             bind (kvminit (sy_etext sy) (sy_trampoline sy)) (\<lambda>_.
             bind kvminithart (\<lambda>_.
             bind procinit (\<lambda>_.
             bind (trapinithart sy) (\<lambda>_.
             bind plicinit (\<lambda>_.
             bind plicinithart (\<lambda>_.
             bind binit (\<lambda>_.
             bind (virtio_disk_init dev) (\<lambda>_.
             modify (\<lambda>s. s\<lparr>started := True\<rparr>)))))))))))
           else
             bind (gets started) (\<lambda>go.
             if \<not> go then hang else
             bind kvminithart (\<lambda>_.
             bind (trapinithart sy) (\<lambda>_.
             plicinithart)))) (\<lambda>_.
     bind (printf (str ''cpu %d is booting!'' @ [10]) [VInt (of_nat h)]) (\<lambda>_.
     bind (if h = 0 then userinit (sy_forkret sy) (sy_trampoline sy) initcode else ret ()) (\<lambda>_.
     scheduler))))"

end
