(* ===== verification/File.thy ===== *)
theory File
  imports Trap
begin

text \<open>
  Open files and pipes, \<^verbatim>\<open>kernel/file.c\<close> and \<^verbatim>\<open>kernel/pipe.c\<close>. A \<open>struct file *\<close> is an index into \<open>ftable\<close>. A pipe
  is named by the address of its page; its fields are kept apart from the memory. A pipe waits with \<open>sleep_prepare\<close>
  and a \<open>sleep\<close> without arguments, which the repository does not define: they are in the argument \<open>wt\<close>, with a bound on the
  number of waits of a call, after which the model hangs.
\<close>

datatype fdtype = FD_NONE | FD_PIPE | FD_INODE | FD_DEVICE

record file_s =
  f_type :: fdtype
  f_ref :: int
  f_readable :: bool
  f_writable :: bool
  f_pipe :: u64
  f_ip :: "nat option"
  f_off :: u32
  f_major :: u16

definition PIPESIZE :: nat where [simp]: "PIPESIZE = 512"

record pipe =
  pi_data :: bytes
  pi_nread :: u32
  pi_nwrite :: u32
  pi_readopen :: bool
  pi_writeopen :: bool

record kfile = ktrap +
  ftable :: "file_s list"
  pipes :: "u64 \<Rightarrow> pipe"
  ofile :: "nat \<Rightarrow> nat option list"

definition the_file :: "nat \<Rightarrow> ('x kfile_scheme, file_s) kfun" where
  "the_file f = gets (\<lambda>s. ftable s ! f)"

definition upd_file :: "nat \<Rightarrow> (file_s \<Rightarrow> file_s) \<Rightarrow> ('x kfile_scheme, unit) kfun" where
  "upd_file f g = modify (\<lambda>s. s\<lparr>ftable := (ftable s)[f := g (ftable s ! f)]\<rparr>)"

definition the_pipe :: "u64 \<Rightarrow> ('x kfile_scheme, pipe) kfun" where
  "the_pipe p = gets (\<lambda>s. pipes s p)"

definition upd_pipe :: "u64 \<Rightarrow> (pipe \<Rightarrow> pipe) \<Rightarrow> ('x kfile_scheme, unit) kfun" where
  "upd_pipe p g = modify (\<lambda>s. s\<lparr>pipes := (pipes s)(p := g (pipes s p))\<rparr>)"

text \<open>What the pipes wait with: \<open>sleep_prepare\<close>, \<open>sleep\<close>, and the number of waits a call may make.\<close>

record 'x waiting =
  sleep_prepare :: "chan \<Rightarrow> ('x kfile_scheme, unit) kfun"
  sleep_now :: "('x kfile_scheme, unit) kfun"
  waits :: nat

section \<open>pipe.c\<close>

definition pipeclose :: "u64 \<Rightarrow> bool \<Rightarrow> ('x kfile_scheme, unit) kfun" where
  "pipeclose p writable =
     bind (acquire (PipeLock (unat p))) (\<lambda>_.
     bind (if writable then
             bind (upd_pipe p (\<lambda>q. q\<lparr>pi_writeopen := False\<rparr>)) (\<lambda>_. wakeup (Some (ChanPipeRead (unat p))))
           else
             bind (upd_pipe p (\<lambda>q. q\<lparr>pi_readopen := False\<rparr>)) (\<lambda>_. wakeup (Some (ChanPipeWrite (unat p))))) (\<lambda>_.
     bind (the_pipe p) (\<lambda>q.
     if \<not> pi_readopen q \<and> \<not> pi_writeopen q then
       bind (release (PipeLock (unat p))) (\<lambda>_. kfree p)
     else release (PipeLock (unat p)))))"

text \<open>The wait, with the lock of the pipe released meanwhile.\<close>

definition pipe_wait :: "'x waiting \<Rightarrow> chan \<Rightarrow> u64 \<Rightarrow> ('x kfile_scheme, unit) kfun" where
  "pipe_wait wt c p =
     bind (sleep_prepare wt c) (\<lambda>_.
     bind (release (PipeLock (unat p))) (\<lambda>_.
     bind (sleep_now wt) (\<lambda>_.
     acquire (PipeLock (unat p)))))"

text \<open>The end of \<open>pipewrite\<close>, and its loop with the lock of the pipe held.\<close>

definition pipewrite_end :: "u64 \<Rightarrow> int \<Rightarrow> ('x kfile_scheme, int) kfun" where
  "pipewrite_end p i =
     bind (wakeup (Some (ChanPipeRead (unat p)))) (\<lambda>_.
     bind (release (PipeLock (unat p))) (\<lambda>_.
     ret i))"

function pipewrite_loop :: "'x waiting \<Rightarrow> nat \<Rightarrow> nat \<Rightarrow> u64 \<Rightarrow> u64 \<Rightarrow> nat \<Rightarrow> nat \<Rightarrow> ('x kfile_scheme, int) kfun" where
  "pipewrite_loop wt k pr p addr n i s =
     (if n \<le> i then pipewrite_end p (int i) s else
      bind (the_pipe p) (\<lambda>q.
      bind (if \<not> pi_readopen q then ret 1 else killed pr) (\<lambda>stop.
      if stop \<noteq> 0 then bind (release (PipeLock (unat p))) (\<lambda>_. ret (- 1))
      else if pi_nwrite q = pi_nread q + of_nat PIPESIZE then
        bind (wakeup (Some (ChanPipeRead (unat p)))) (\<lambda>_.
        if k = 0 then hang else
        bind (pipe_wait wt (ChanPipeWrite (unat p)) p) (\<lambda>_.
        pipewrite_loop wt (k - 1) pr p addr n i))
      else
        bind (the_proc pr) (\<lambda>pp.
        bind (copyin (p_pagetable pp) (p_sz pp) (addr + of_nat i) 1) (\<lambda>(r, bs).
        if r = - 1 then pipewrite_end p (if i = 0 then - 1 else int i) else
        bind (upd_pipe p (\<lambda>q. q\<lparr>pi_data := (pi_data q)[unat (pi_nwrite q) mod PIPESIZE := chd bs],
                                 pi_nwrite := pi_nwrite q + 1\<rparr>)) (\<lambda>_.
        pipewrite_loop wt k pr p addr n (i + 1)))))) s)"
  by pat_completeness auto
termination
  by (relation "measure (\<lambda>(wt, k, pr, p, addr, n, i, s). k + (n - i))") auto

declare pipewrite_loop.simps [simp del]

definition pipewrite :: "'x waiting \<Rightarrow> u64 \<Rightarrow> u64 \<Rightarrow> int \<Rightarrow> ('x kfile_scheme, int) kfun" where
  "pipewrite wt p addr n =
     bind myproc (\<lambda>pr.
     bind (acquire (PipeLock (unat p))) (\<lambda>_.
     pipewrite_loop wt (waits wt) pr p addr (nat n) 0))"

definition piperead_end :: "u64 \<Rightarrow> int \<Rightarrow> ('x kfile_scheme, int) kfun" where
  "piperead_end p i =
     bind (wakeup (Some (ChanPipeWrite (unat p)))) (\<lambda>_.
     bind (release (PipeLock (unat p))) (\<lambda>_.
     ret i))"

function piperead_copy :: "nat \<Rightarrow> u64 \<Rightarrow> u64 \<Rightarrow> nat \<Rightarrow> nat \<Rightarrow> ('x kfile_scheme, int) kfun" where
  "piperead_copy pr p addr n i s =
     (if n \<le> i then piperead_end p (int i) s else
      bind (the_pipe p) (\<lambda>q.
      if pi_nread q = pi_nwrite q then piperead_end p (int i) else
      bind (the_proc pr) (\<lambda>pp.
      bind (copyout (p_pagetable pp) (p_sz pp) (addr + of_nat i) [pi_data q ! (unat (pi_nread q) mod PIPESIZE)]) (\<lambda>r.
      if r = - 1 then piperead_end p (if i = 0 then - 1 else int i) else
      bind (upd_pipe p (\<lambda>q. q\<lparr>pi_nread := pi_nread q + 1\<rparr>)) (\<lambda>_.
      piperead_copy pr p addr n (i + 1))))) s)"
  by pat_completeness auto
termination
  by (relation "measure (\<lambda>(pr, p, addr, n, i, s). n - i)") auto

declare piperead_copy.simps [simp del]

fun piperead_loop :: "'x waiting \<Rightarrow> nat \<Rightarrow> nat \<Rightarrow> u64 \<Rightarrow> u64 \<Rightarrow> nat \<Rightarrow> ('x kfile_scheme, int) kfun" where
  "piperead_loop wt k pr p addr n s =
     bind (the_pipe p) (\<lambda>q.
     if pi_nread q = pi_nwrite q \<and> pi_writeopen q then
       bind (killed pr) (\<lambda>stop.
       if stop \<noteq> 0 then bind (release (PipeLock (unat p))) (\<lambda>_. ret (- 1))
       else if k = 0 then hang else
       bind (pipe_wait wt (ChanPipeRead (unat p)) p) (\<lambda>_.
       piperead_loop wt (k - 1) pr p addr n))
     else piperead_copy pr p addr n 0) s"

declare piperead_loop.simps [simp del]

definition piperead :: "'x waiting \<Rightarrow> u64 \<Rightarrow> u64 \<Rightarrow> int \<Rightarrow> ('x kfile_scheme, int) kfun" where
  "piperead wt p addr n =
     bind myproc (\<lambda>pr.
     bind (acquire (PipeLock (unat p))) (\<lambda>_.
     piperead_loop wt (waits wt) pr p addr (nat n)))"

section \<open>file.c\<close>

fun file_scan :: "nat list \<Rightarrow> ('x kfile_scheme, nat option) kfun" where
  "file_scan [] = bind (release FtableLock) (\<lambda>_. ret None)"
| "file_scan (f # fs) =
     bind (the_file f) (\<lambda>x.
     if f_ref x = 0 then
       bind (upd_file f (\<lambda>x. x\<lparr>f_ref := 1\<rparr>)) (\<lambda>_.
       bind (release FtableLock) (\<lambda>_.
       ret (Some f)))
     else file_scan fs)"

definition filealloc :: "('x kfile_scheme, nat option) kfun" where
  "filealloc = bind (acquire FtableLock) (\<lambda>_. file_scan [0..<NFILE])"

definition filedup :: "nat \<Rightarrow> ('x kfile_scheme, nat) kfun" where
  "filedup f =
     bind (acquire FtableLock) (\<lambda>_.
     bind (the_file f) (\<lambda>x.
     if f_ref x < 1 then panic ''filedup'' else
     bind (upd_file f (\<lambda>x. x\<lparr>f_ref := f_ref x + 1\<rparr>)) (\<lambda>_.
     bind (release FtableLock) (\<lambda>_.
     ret f))))"

definition fileclose :: "nat \<Rightarrow> ('x kfile_scheme, unit) kfun" where
  "fileclose f =
     bind (acquire FtableLock) (\<lambda>_.
     bind (the_file f) (\<lambda>x.
     if f_ref x < 1 then panic ''fileclose'' else
     bind (upd_file f (\<lambda>x. x\<lparr>f_ref := f_ref x - 1\<rparr>)) (\<lambda>_.
     bind (the_file f) (\<lambda>ff.
     if 0 < f_ref ff then release FtableLock else
     bind (upd_file f (\<lambda>x. x\<lparr>f_ref := 0, f_type := FD_NONE\<rparr>)) (\<lambda>_.
     bind (release FtableLock) (\<lambda>_.
     if f_type ff = FD_PIPE then pipeclose (f_pipe ff) (f_writable ff)
     else if f_type ff = FD_INODE \<or> f_type ff = FD_DEVICE then put_cwd (f_ip ff)
     else ret ()))))))"

definition enc_stat :: "stat \<Rightarrow> bytes" where
  "enc_stat st = le_bytes 4 (unat (of_int (st_dev st) :: u32)) @ le_bytes 4 (unat (st_ino st)) @ le_bytes 2 (unat (st_type st)) @
     le_bytes 2 (unat (st_nlink st)) @ [0, 0, 0, 0] @ le_bytes 8 (unat (st_size st))"

text \<open>The padding of \<open>struct stat\<close>, which C leaves unspecified, is zero here.\<close>

definition filestat :: "nat \<Rightarrow> u64 \<Rightarrow> ('x kfile_scheme, int) kfun" where
  "filestat f addr =
     bind myproc (\<lambda>p.
     bind (the_file f) (\<lambda>x.
     if f_type x = FD_INODE \<or> f_type x = FD_DEVICE then
       (case f_ip x of None \<Rightarrow> panic ''ilock'' | Some ip \<Rightarrow>
       bind (ilock (Some ip)) (\<lambda>_.
       bind (stati ip) (\<lambda>st.
       bind (iunlock (Some ip)) (\<lambda>_.
       bind (the_proc p) (\<lambda>pp.
       bind (copyout (p_pagetable pp) (p_sz pp) addr (enc_stat st)) (\<lambda>r.
       if r < 0 then ret (- 1) else ret 0))))))
     else ret (- 1)))"

definition dev_entry :: "u16 \<Rightarrow> ('x kfile_scheme, devfun option) kfun" where
  "dev_entry major = gets (\<lambda>s.
     if sint major < 0 \<or> int NDEV \<le> sint major then None else devsw s (unat major))"

definition fileread :: "'x waiting \<Rightarrow> nat \<Rightarrow> u64 \<Rightarrow> int \<Rightarrow> ('x kfile_scheme, int) kfun" where
  "fileread wt f addr n =
     bind (the_file f) (\<lambda>x.
     if \<not> f_readable x \<or> n < 0 then ret (- 1) else
     case f_type x of
       FD_PIPE \<Rightarrow> piperead wt (f_pipe x) addr n
     | FD_DEVICE \<Rightarrow>
         bind (dev_entry (f_major x)) (\<lambda>d. case d of None \<Rightarrow> ret (- 1)
         | Some ConsoleDev \<Rightarrow> consoleread (UserDst addr) n)
     | FD_INODE \<Rightarrow>
         (case f_ip x of None \<Rightarrow> panic ''ilock'' | Some ip \<Rightarrow>
         bind (ilock (Some ip)) (\<lambda>_.
         bind (the_file f) (\<lambda>x.
         bind (readi ip (UserDst addr) (f_off x) (of_int n)) (\<lambda>(r, _).
         bind (if 0 < r then upd_file f (\<lambda>x. x\<lparr>f_off := f_off x + of_int r\<rparr>) else ret ()) (\<lambda>_.
         bind (iunlock (Some ip)) (\<lambda>_.
         ret r))))))
     | FD_NONE \<Rightarrow> panic ''fileread'')"

definition FILE_MAX :: nat where [simp]: "FILE_MAX = ((MAXOPBLOCKS - 1 - 1 - 2) div 2) * BSIZE"

text \<open>The loop of \<open>filewrite\<close>: the number of bytes written.\<close>

function filewrite_loop :: "nat \<Rightarrow> nat \<Rightarrow> u64 \<Rightarrow> nat \<Rightarrow> nat \<Rightarrow> ('x kfile_scheme, nat) kfun" where
  "filewrite_loop f ip addr n i s =
     (if n \<le> i then Done i s else
      let n1 = (if FILE_MAX < n - i then FILE_MAX else n - i) in
      bind begin_op (\<lambda>_.
      bind (ilock (Some ip)) (\<lambda>_.
      bind (the_file f) (\<lambda>x.
      bind (writei ip (UserSrc (addr + of_nat i)) (f_off x) (of_nat n1)) (\<lambda>r.
      bind (if 0 < r then upd_file f (\<lambda>x. x\<lparr>f_off := f_off x + of_int r\<rparr>) else ret ()) (\<lambda>_.
      bind (iunlock (Some ip)) (\<lambda>_.
      bind end_op (\<lambda>_.
      if r \<noteq> int n1 then ret i else filewrite_loop f ip addr n (i + n1)))))))) s)"
  by pat_completeness auto
termination
  by (relation "measure (\<lambda>(f, ip, addr, n, i, s). n - i)") auto

declare filewrite_loop.simps [simp del]

definition filewrite :: "'x waiting \<Rightarrow> nat \<Rightarrow> u64 \<Rightarrow> int \<Rightarrow> ('x kfile_scheme, int) kfun" where
  "filewrite wt f addr n =
     bind (the_file f) (\<lambda>x.
     if \<not> f_writable x \<or> n < 0 then ret (- 1) else
     case f_type x of
       FD_PIPE \<Rightarrow> pipewrite wt (f_pipe x) addr n
     | FD_DEVICE \<Rightarrow>
         bind (dev_entry (f_major x)) (\<lambda>d. case d of None \<Rightarrow> ret (- 1)
         | Some ConsoleDev \<Rightarrow> consolewrite (UserSrc addr) n)
     | FD_INODE \<Rightarrow>
         (case f_ip x of None \<Rightarrow> if n = 0 then ret 0 else bind begin_op (\<lambda>_. panic ''ilock'') | Some ip \<Rightarrow>
         bind (filewrite_loop f ip addr (nat n) 0) (\<lambda>i.
         ret (if int i = n then n else - 1)))
     | FD_NONE \<Rightarrow> panic ''filewrite'')"

text \<open>\<open>pipealloc\<close>: the two ends, or the files to close again. The lock of a \<open>struct pipe\<close> takes its first 24 bytes.\<close>

definition pipealloc_bad :: "nat option \<Rightarrow> nat option \<Rightarrow> ('x kfile_scheme, (nat \<times> nat) option) kfun" where
  "pipealloc_bad f0 f1 =
     bind (case f0 of None \<Rightarrow> ret () | Some f \<Rightarrow> fileclose f) (\<lambda>_.
     bind (case f1 of None \<Rightarrow> ret () | Some f \<Rightarrow> fileclose f) (\<lambda>_.
     ret None))"

definition pipealloc :: "('x kfile_scheme, (nat \<times> nat) option) kfun" where
  "pipealloc =
     bind filealloc (\<lambda>f0. case f0 of None \<Rightarrow> pipealloc_bad None None | Some r \<Rightarrow>
     bind filealloc (\<lambda>f1. case f1 of None \<Rightarrow> pipealloc_bad (Some r) None | Some w \<Rightarrow>
     bind kalloc (\<lambda>p.
     if p = 0 then pipealloc_bad (Some r) (Some w) else
     bind (gets mem) (\<lambda>m.
     bind (upd_pipe p (\<lambda>_. \<lparr>pi_data = ld_bytes m (p + 24) PIPESIZE, pi_nread = 0, pi_nwrite = 0,
                             pi_readopen = True, pi_writeopen = True\<rparr>)) (\<lambda>_.
     bind (upd_file r (\<lambda>x. x\<lparr>f_type := FD_PIPE, f_readable := True, f_writable := False, f_pipe := p\<rparr>)) (\<lambda>_.
     bind (upd_file w (\<lambda>x. x\<lparr>f_type := FD_PIPE, f_readable := False, f_writable := True, f_pipe := p\<rparr>)) (\<lambda>_.
     ret (Some (r, w)))))))))"

end
