(* ===== verification/Ring.thy ===== *)
theory Ring
  imports Prelude
begin

text \<open>
  Circular buffers with 32-bit counters, as the console and the pipes have them: the counters only grow, wrap around at
  \<open>2 ^ 32\<close>, and are taken modulo the size of the buffer at each access. The size divides \<open>2 ^ 32\<close>, so that the wrap-around
  is not seen.
\<close>

text \<open>The \<open>n\<close> elements from the counter \<open>a\<close> on, and the queue between the counters \<open>r\<close> and \<open>w\<close>.\<close>

definition ring :: "nat \<Rightarrow> 'a list \<Rightarrow> u32 \<Rightarrow> nat \<Rightarrow> 'a list" where
  "ring N buf a n = map (\<lambda>i. buf ! (unat (a + of_nat i) mod N)) [0..<n]"

definition fifo :: "nat \<Rightarrow> 'a list \<Rightarrow> u32 \<Rightarrow> u32 \<Rightarrow> 'a list" where
  "fifo N buf r w = ring N buf r (unat (w - r))"

lemma length_ring [simp]: "length (ring N buf a n) = n"
  by (simp add: ring_def)

lemma length_fifo [simp]: "length (fifo N buf r w) = unat (w - r)"
  by (simp add: fifo_def)

lemma ring_Suc: "ring N buf a (Suc n) = ring N buf a n @ [buf ! (unat (a + of_nat n) mod N)]"
  by (simp add: ring_def)

lemma ring_shift: "ring N buf a (Suc n) = buf ! (unat a mod N) # ring N buf (a + 1) n"
  unfolding ring_def by (subst upt_rec) (simp add: map_Suc_upt[symmetric] add.assoc comp_def del: upt_Suc)

lemma fifo_empty [simp]: "fifo N buf r w = [] \<longleftrightarrow> r = w"
proof -
  have "fifo N buf r w = [] \<longleftrightarrow> w - r = 0" using length_fifo[of N buf r w] by (metis length_0_conv unat_eq_zero)
  then show ?thesis by auto
qed

lemma fifo_pop: "r \<noteq> w \<Longrightarrow> fifo N buf r w = buf ! (unat r mod N) # fifo N buf (r + 1) w"
proof -
  assume "r \<noteq> w"
  then have nz: "w - r \<noteq> 0" by simp
  then have n: "unat (w - r) = Suc (unat (w - (r + 1)))"
    using unat_minus_one[OF nz] nz by (simp add: diff_diff_add[symmetric] unat_gt_0)
  show ?thesis unfolding fifo_def n by (rule ring_shift)
qed

locale ring_buffer =
  fixes N :: nat
  assumes pos: "0 < N" and small: "N < 2 ^ 32" and divides: "N dvd 2 ^ 32"
begin

lemma idx: "unat (a + of_nat i :: u32) mod N = (unat a + i) mod N"
proof -
  have "unat (a + of_nat i) = (unat a + i) mod 2 ^ 32"
    by (simp add: unat_word_ariths unat_of_nat take_bit_eq_mod mod_simps)
  moreover have "(x mod 2 ^ 32) mod N = x mod N" for x
    by (rule mod_mod_cancel) (rule divides)
  ultimately show ?thesis by simp
qed

lemma idx_neq: "i < n \<Longrightarrow> n < i + N \<Longrightarrow> (x + i) mod N \<noteq> (x + n) mod N"
proof
  assume i: "i < n" "n < i + N" and "(x + i) mod N = (x + n) mod N"
  then have "(x + n - (x + i)) mod N = 0" by (metis mod_eq_dvd_iff_nat le_add2 nat_le_linear add_le_cancel_left less_imp_le dvd_imp_mod_0)
  then show False using i by simp
qed

lemma store:
  assumes "length buf = N" "n < N"
  shows "ring N (buf[unat (a + of_nat n) mod N := c]) a (Suc n) = ring N buf a n @ [c]"
proof -
  have "buf[unat (a + of_nat n) mod N := c] ! (unat (a + of_nat i) mod N) = buf ! (unat (a + of_nat i) mod N)" if "i < n" for i
    using idx_neq[of i n "unat a"] that assms(2) by (simp add: idx)
  then show ?thesis using assms pos by (auto simp: ring_def)
qed

lemma push:
  assumes "length buf = N" "unat (w - r) < N"
  shows "fifo N (buf[unat w mod N := c]) r (w + 1) = fifo N buf r w @ [c]"
proof -
  have e: "w + 1 - r = (w - r) + 1" by simp
  have "unat ((w - r) + 1) = (unat (w - r) + 1) mod 2 ^ 32" unfolding unat_word_ariths(1) by simp
  then have n: "unat (w + 1 - r) = Suc (unat (w - r))" unfolding e using assms(2) small by simp
  have "r + of_nat (unat (w - r)) = w" by simp
  then show ?thesis unfolding fifo_def n using store[OF assms, of r c] by simp
qed

lemma full: "unat (w - r :: u32) \<le> N \<Longrightarrow> w = r + of_nat N \<longleftrightarrow> unat (w - r) = N"
proof
  assume "w = r + of_nat N"
  then show "unat (w - r) = N" using small by (simp add: unat_of_nat take_bit_eq_mod)
next
  assume n: "unat (w - r) = N"
  have "of_nat N = w - r" unfolding n[symmetric] by simp
  then show "w = r + of_nat N" by simp
qed

end

end
