(* ===== verification/Pipe.thy ===== *)
theory Pipe
  imports File Ring
begin

text \<open>
  What a pipe promises: a queue of bytes. \<open>pipewrite\<close> appends the caller's bytes to the queue, whatever readers take off its front
  while the writer waits, and \<open>piperead\<close> takes bytes off the front and stores them in the caller's memory.
\<close>

section \<open>The queue\<close>

definition pipe_q :: "pipe \<Rightarrow> bytes" where
  "pipe_q q = fifo PIPESIZE (pi_data q) (pi_nread q) (pi_nwrite q)"

definition pipe_ok :: "pipe \<Rightarrow> bool" where
  "pipe_ok q \<longleftrightarrow> length (pi_data q) = PIPESIZE \<and> length (pipe_q q) \<le> PIPESIZE"

interpretation pipering: ring_buffer PIPESIZE
  by unfold_locales simp_all

lemma pipe_full: "pipe_ok q \<Longrightarrow> pi_nwrite q = pi_nread q + of_nat PIPESIZE \<longleftrightarrow> length (pipe_q q) = PIPESIZE"
  unfolding pipe_ok_def pipe_q_def length_fifo by (rule pipering.full) simp

lemma pipe_empty: "pi_nread q = pi_nwrite q \<longleftrightarrow> pipe_q q = []"
  by (simp add: pipe_q_def del: PIPESIZE_def)

definition pipe_push :: "u8 \<Rightarrow> pipe \<Rightarrow> pipe" where
  "pipe_push c q = q\<lparr>pi_data := (pi_data q)[unat (pi_nwrite q) mod PIPESIZE := c], pi_nwrite := pi_nwrite q + 1\<rparr>"

lemma pipe_push_q:
  assumes "pipe_ok q" "length (pipe_q q) < PIPESIZE"
  shows "pipe_q (pipe_push c q) = pipe_q q @ [c]" "pipe_ok (pipe_push c q)"
proof -
  show e: "pipe_q (pipe_push c q) = pipe_q q @ [c]"
    using pipering.push[of "pi_data q" "pi_nwrite q" "pi_nread q" c] assms
    by (simp add: pipe_q_def pipe_push_def pipe_ok_def del: PIPESIZE_def)
  show "pipe_ok (pipe_push c q)" using assms unfolding pipe_ok_def e by (simp add: pipe_push_def)
qed

definition pipe_pop :: "pipe \<Rightarrow> pipe" where
  "pipe_pop q = q\<lparr>pi_nread := pi_nread q + 1\<rparr>"

lemma pipe_pop_q:
  assumes "pipe_q q = c # r" "pipe_ok q"
  shows "pi_data q ! (unat (pi_nread q) mod PIPESIZE) = c" "pipe_q (pipe_pop q) = r" "pipe_ok (pipe_pop q)"
proof -
  have "pi_nread q \<noteq> pi_nwrite q" using assms(1) pipe_empty[of q] by simp
  from fifo_pop[OF this, of PIPESIZE "pi_data q"] assms
  show "pi_data q ! (unat (pi_nread q) mod PIPESIZE) = c" and e: "pipe_q (pipe_pop q) = r"
    unfolding pipe_q_def pipe_pop_def by (simp_all del: PIPESIZE_def)
  show "pipe_ok (pipe_pop q)" using assms unfolding pipe_ok_def e by (simp add: pipe_pop_def)
qed

section \<open>The process at the pipe\<close>

definition pipe_user :: "nat \<Rightarrow> u64 list \<Rightarrow> u64 \<Rightarrow> 'x kfile_scheme \<Rightarrow> bool" where
  "pipe_user pr xs pg s \<longleftrightarrow> ptable_ok s \<and> curproc s = Some pr \<and> pr < NPROC \<and> p_pagetable (procs s ! pr) = pg \<and>
     p_killed (procs s ! pr) = 0 \<and> aspace s xs pg"

lemma pipe_user_upd:
  "pipe_user pr xs pg (s\<lparr>pipes := f\<rparr>) = pipe_user pr xs pg s"
  "pipe_user pr xs pg (s\<lparr>held := insert (PipeLock p) (held s)\<rparr>) = pipe_user pr xs pg s"
  "pipe_user pr xs pg (s\<lparr>held := held s - {PipeLock p}\<rparr>) = pipe_user pr xs pg s"
  by (auto simp: pipe_user_def ptable_ok_def aspace_def vm_ok_def kmem_inv_def)

lemma pipe_user_killed: "pipe_user pr xs pg s \<Longrightarrow> killed pr s = Done 0 s"
proof -
  assume "pipe_user pr xs pg s"
  moreover have "insert (ProcLock pr) (held s) - {ProcLock pr} = held s" if "ProcLock pr \<notin> held s" using that by auto
  ultimately show ?thesis by (simp add: pipe_user_def ptable_ok_def killed_def bind_def acquire_def release_def the_proc_def)
qed

lemma pipe_user_wakeup:
  assumes "pipe_user pr xs pg s"
  obtains ps where "wakeup c s = Done () (s\<lparr>procs := ps\<rparr>)" "pipe_user pr xs pg (s\<lparr>procs := ps\<rparr>)" "ps ! pr = procs s ! pr"
proof -
  let ?ps = "map (\<lambda>i. wake1 c (curproc s) i (procs s ! i)) [0..<NPROC]"
  have "?ps ! pr = procs s ! pr" using assms by (simp add: pipe_user_def wake1_def del: NPROC_def)
  moreover have "pipe_user pr xs pg (s\<lparr>procs := ?ps\<rparr>)" using assms calculation
    by (simp add: pipe_user_def ptable_ok_def aspace_def vm_ok_def kmem_inv_def del: NPROC_def)
  moreover have "ptable_ok s" using assms by (simp add: pipe_user_def)
  ultimately show thesis using that[OF wakeup_eq] by blast
qed

section \<open>Writing\<close>

text \<open>The state of a process that writes the \<open>n\<close> bytes \<open>bs\<close> of its memory at \<open>addr\<close> to the pipe \<open>p\<close>.\<close>

definition writer :: "u64 \<Rightarrow> nat \<Rightarrow> u64 list \<Rightarrow> u64 \<Rightarrow> u64 \<Rightarrow> nat \<Rightarrow> bytes \<Rightarrow> 'x kfile_scheme \<Rightarrow> bool" where
  "writer p pr xs pg addr n bs s \<longleftrightarrow> pipe_user pr xs pg s \<and> pipe_ok (pipes s p) \<and> pi_readopen (pipes s p) \<and>
     (\<forall>i<n. umap s pg (addr + of_nat i)) \<and> ubytes s pg addr n = bs"

lemma writer_upd:
  "writer p pr xs pg addr n bs (s\<lparr>held := insert (PipeLock l) (held s)\<rparr>) = writer p pr xs pg addr n bs s"
  "writer p pr xs pg addr n bs (s\<lparr>held := held s - {PipeLock l}\<rparr>) = writer p pr xs pg addr n bs s"
  "pipe_user pr xs pg (s\<lparr>procs := ps\<rparr>) \<Longrightarrow> writer p pr xs pg addr n bs s \<Longrightarrow> writer p pr xs pg addr n bs (s\<lparr>procs := ps\<rparr>)"
  "pipe_ok q \<Longrightarrow> pi_readopen q \<Longrightarrow> writer p pr xs pg addr n bs s \<Longrightarrow> writer p pr xs pg addr n bs (s\<lparr>pipes := (pipes s)(p := q)\<rparr>)"
  unfolding writer_def pipe_user_upd by (simp_all add: pipe_user_upd umap_def ubytes_def ubyte_def uaddr_def)

text \<open>The wait of a writer at a full pipe ends when readers have taken something off the front of the queue.\<close>

definition readers_make_room :: "'x waiting \<Rightarrow> u64 \<Rightarrow> nat \<Rightarrow> u64 list \<Rightarrow> u64 \<Rightarrow> u64 \<Rightarrow> nat \<Rightarrow> bytes \<Rightarrow> bool" where
  "readers_make_room wt p pr xs pg addr n bs \<longleftrightarrow>
     (\<forall>s. writer p pr xs pg addr n bs s \<and> held s = {PipeLock (unat p)} \<and> length (pipe_q (pipes s p)) = PIPESIZE \<longrightarrow>
       (\<exists>t m. bind (sleep_prepare wt (ChanPipeWrite (unat p))) (\<lambda>_. bind (release (PipeLock (unat p))) (\<lambda>_. sleep_now wt)) s = Done () t \<and>
          writer p pr xs pg addr n bs t \<and> held t = {} \<and> 0 < m \<and> pipe_q (pipes t p) = drop m (pipe_q (pipes s p))))"

lemma pipe_wait_room:
  assumes "readers_make_room wt p pr xs pg addr n bs" "writer p pr xs pg addr n bs s" "held s = {PipeLock (unat p)}"
    "length (pipe_q (pipes s p)) = PIPESIZE"
  obtains t m where "pipe_wait wt (ChanPipeWrite (unat p)) p s = Done () t" "writer p pr xs pg addr n bs t" "held t = {PipeLock (unat p)}"
    "0 < m" "m \<le> PIPESIZE" "pipe_q (pipes t p) = drop m (pipe_q (pipes s p))"
proof -
  obtain t m where t: "bind (sleep_prepare wt (ChanPipeWrite (unat p))) (\<lambda>_. bind (release (PipeLock (unat p))) (\<lambda>_. sleep_now wt)) s = Done () t"
    "writer p pr xs pg addr n bs t" "held t = {}" "0 < m" "pipe_q (pipes t p) = drop m (pipe_q (pipes s p))"
    using assms unfolding readers_make_room_def by blast
  let ?t = "t\<lparr>held := insert (PipeLock (unat p)) (held t)\<rparr>"
  have "pipe_wait wt (ChanPipeWrite (unat p)) p s = bind (bind (sleep_prepare wt (ChanPipeWrite (unat p)))
      (\<lambda>_. bind (release (PipeLock (unat p))) (\<lambda>_. sleep_now wt))) (\<lambda>_. acquire (PipeLock (unat p))) s"
    by (simp add: pipe_wait_def bind_assoc)
  then have w: "pipe_wait wt (ChanPipeWrite (unat p)) p s = Done () ?t" using t(1,3) by (simp add: bind_def acquire_def)
  have d: "pipe_q (pipes ?t p) = drop (min m PIPESIZE) (pipe_q (pipes s p))" using t(5) assms(4) by (simp add: min_def)
  have wr: "writer p pr xs pg addr n bs ?t" unfolding writer_upd by (rule t(2))
  show thesis by (rule that[OF w wr _ _ _ d]) (use t in simp_all)
qed

lemma pipewrite_end_spec:
  assumes "writer p pr xs pg addr n bs s" "held s = {PipeLock (unat p)}"
  obtains t where "pipewrite_end p i s = Done i t" "writer p pr xs pg addr n bs t" "held t = {}" "pipes t = pipes s"
proof -
  obtain ps where ps: "wakeup (Some (ChanPipeRead (unat p))) s = Done () (s\<lparr>procs := ps\<rparr>)" "pipe_user pr xs pg (s\<lparr>procs := ps\<rparr>)"
    using pipe_user_wakeup[of pr xs pg s "Some (ChanPipeRead (unat p))"] assms(1) unfolding writer_def by blast
  let ?u = "s\<lparr>procs := ps\<rparr>" and ?t = "s\<lparr>procs := ps\<rparr>\<lparr>held := held (s\<lparr>procs := ps\<rparr>) - {PipeLock (unat p)}\<rparr>"
  have "pipewrite_end p i s = Done i ?t" using ps(1) assms(2) by (simp add: pipewrite_end_def bind_def release_def)
  moreover have "writer p pr xs pg addr n bs ?t" unfolding writer_upd(2) by (rule writer_upd(3)[OF ps(2) assms(1)])
  ultimately show thesis by (rule that) (simp_all add: assms(2))
qed

lemma ubytes_one: "i < n \<Longrightarrow> ubytes s pg (addr + of_nat i) 1 = [ubytes s pg addr n ! i]"
  by (simp add: ubytes_def)

lemma pipewrite_step:
  assumes w: "writer p pr xs pg addr n bs s" and i: "i < n" and room: "length (pipe_q (pipes s p)) < PIPESIZE"
  shows "pipewrite_loop wt k pr p addr n i s = pipewrite_loop wt k pr p addr n (i + 1) (s\<lparr>pipes := (pipes s)(p := pipe_push (bs ! i) (pipes s p))\<rparr>)"
proof -
  have u: "pipe_user pr xs pg s" "pipe_ok (pipes s p)" "pi_readopen (pipes s p)" "umap s pg (addr + of_nat i)" "ubytes s pg addr n = bs"
    using w i by (simp_all add: writer_def)
  have pg: "p_pagetable (procs s ! pr) = pg" "vm_ok s xs 2 pg" using u(1) by (simp_all add: pipe_user_def aspace_def)
  have "copyin pg sz (addr + of_nat i) 1 s = Done (0, [bs ! i]) s" for sz
    using copyin_copies[OF pg(2), of 1 "addr + of_nat i" sz] u(4,5) ubytes_one[OF i, of s pg addr] by simp
  moreover have "pi_nwrite (pipes s p) \<noteq> pi_nread (pipes s p) + of_nat PIPESIZE" using pipe_full[OF u(2)] room by simp
  ultimately show ?thesis using i u(3) pg(1)
    by (subst pipewrite_loop.simps) (simp add: bind_def the_pipe_def upd_pipe_def the_proc_def pipe_user_killed[OF u(1)] pipe_push_def chd_def)
qed

lemma pipewrite_full:
  assumes law: "readers_make_room wt p pr xs pg addr n bs" and w: "writer p pr xs pg addr n bs s" "held s = {PipeLock (unat p)}"
    and i: "i < n" "0 < k" and full: "length (pipe_q (pipes s p)) = PIPESIZE"
  obtains t m where "pipewrite_loop wt k pr p addr n i s = pipewrite_loop wt (k - 1) pr p addr n i t" "writer p pr xs pg addr n bs t"
    "held t = {PipeLock (unat p)}" "0 < m" "m \<le> PIPESIZE" "pipe_q (pipes t p) = drop m (pipe_q (pipes s p))"
proof -
  have u: "pipe_user pr xs pg s" "pipe_ok (pipes s p)" "pi_readopen (pipes s p)" using w by (simp_all add: writer_def)
  obtain ps where ps: "wakeup (Some (ChanPipeRead (unat p))) s = Done () (s\<lparr>procs := ps\<rparr>)" "pipe_user pr xs pg (s\<lparr>procs := ps\<rparr>)"
    using pipe_user_wakeup[OF u(1)] by blast
  obtain t m where t: "pipe_wait wt (ChanPipeWrite (unat p)) p (s\<lparr>procs := ps\<rparr>) = Done () t" "writer p pr xs pg addr n bs t" "held t = {PipeLock (unat p)}"
    "0 < m" "m \<le> PIPESIZE" "pipe_q (pipes t p) = drop m (pipe_q (pipes s p))"
    by (rule pipe_wait_room[OF law writer_upd(3)[OF ps(2) w(1)]]) (use w(2) full in simp_all)
  have "pi_nwrite (pipes s p) = pi_nread (pipes s p) + of_nat PIPESIZE" using pipe_full[OF u(2)] full by simp
  then have "pipewrite_loop wt k pr p addr n i s = pipewrite_loop wt (k - 1) pr p addr n i t" using i u(3) ps(1) t(1)
    by (subst pipewrite_loop.simps) (simp add: bind_def the_pipe_def pipe_user_killed[OF u(1)])
  then show thesis by (rule that) (rule t)+
qed

lemma pipewrite_loop_spec:
  assumes law: "readers_make_room wt p pr xs pg addr n bs"
    and "writer p pr xs pg addr n bs s" "held s = {PipeLock (unat p)}" "i \<le> n"
    and "n \<le> k + i + (if length (pipe_q (pipes s p)) = PIPESIZE then 0 else 1)"
  shows "\<exists>t m. pipewrite_loop wt k pr p addr n i s = Done (int n) t \<and> writer p pr xs pg addr n bs t \<and> held t = {} \<and>
    pipe_q (pipes t p) = drop m (pipe_q (pipes s p) @ drop i bs) \<and> (length (pipe_q (pipes s p)) + n \<le> PIPESIZE + i \<longrightarrow> m = 0)"
  using assms(2-)
proof (induction "k + (n - i)" arbitrary: k i s rule: less_induct)
  case less
  let ?q = "pipe_q (pipes s p)"
  have len: "length bs = n" using less.prems(1) by (auto simp: writer_def ubytes_def)
  have le: "length ?q \<le> PIPESIZE" using less.prems(1) by (simp add: writer_def pipe_ok_def)
  consider "i = n" | "i < n" "length ?q < PIPESIZE" | "i < n" "length ?q = PIPESIZE" using less.prems(3) le by linarith
  then show ?case
  proof cases
    case 1
    have "pipewrite_loop wt k pr p addr n i s = pipewrite_end p (int n) s" using 1 by (subst pipewrite_loop.simps) simp
    then show ?thesis using pipewrite_end_spec[OF less.prems(1,2), of "int n"] 1 len by (metis append_Nil2 drop_all drop_0 order_refl)
  next
    case 2
    let ?t = "s\<lparr>pipes := (pipes s)(p := pipe_push (bs ! i) (pipes s p))\<rparr>"
    have ok: "pipe_ok (pipes s p)" "pi_readopen (pipes s p)" using less.prems(1) by (simp_all add: writer_def)
    note push = pipe_push_q[OF ok(1) 2(2), of "bs ! i"]
    have w: "writer p pr xs pg addr n bs ?t" by (rule writer_upd(4)[OF push(2) _ less.prems(1)]) (use ok in \<open>simp add: pipe_push_def\<close>)
    have "drop i bs = bs ! i # drop (Suc i) bs" using 2(1) len by (simp add: Cons_nth_drop_Suc)
    then have d: "?q @ drop i bs = pipe_q (pipes ?t p) @ drop (i + 1) bs" using push(1) by simp
    have l: "length (pipe_q (pipes ?t p)) = length ?q + 1" using push(1) by simp
    have "\<exists>t m. pipewrite_loop wt k pr p addr n (i + 1) ?t = Done (int n) t \<and> writer p pr xs pg addr n bs t \<and> held t = {} \<and>
      pipe_q (pipes t p) = drop m (pipe_q (pipes ?t p) @ drop (i + 1) bs) \<and> (length (pipe_q (pipes ?t p)) + n \<le> PIPESIZE + (i + 1) \<longrightarrow> m = 0)"
      by (rule less.hyps[OF _ w]) (use less.prems 2 in \<open>auto split: if_splits\<close>)
    then show ?thesis unfolding pipewrite_step[OF less.prems(1) 2] d l by simp
  next
    case 3
    have k: "0 < k" using less.prems(4) 3 by simp
    obtain t m where t: "pipewrite_loop wt k pr p addr n i s = pipewrite_loop wt (k - 1) pr p addr n i t" "writer p pr xs pg addr n bs t"
      "held t = {PipeLock (unat p)}" "0 < m" "m \<le> PIPESIZE" "pipe_q (pipes t p) = drop m ?q"
      by (rule pipewrite_full[OF law less.prems(1,2) 3(1) k 3(2)])
    have b: "n \<le> k - 1 + i + (if length (pipe_q (pipes t p)) = PIPESIZE then 0 else 1)" using t(4-6) 3(2) k less.prems(4) by auto
    have "k - 1 + (n - i) < k + (n - i)" using k by simp
    from less.hyps[OF this t(2,3) less.prems(3) b] obtain u m' where u: "pipewrite_loop wt (k - 1) pr p addr n i t = Done (int n) u" "writer p pr xs pg addr n bs u" "held u = {}"
      "pipe_q (pipes u p) = drop m' (pipe_q (pipes t p) @ drop i bs)"
      by blast
    have "pipe_q (pipes u p) = drop (m' + m) (?q @ drop i bs)" using u(4) t(5,6) 3(2) by simp
    then show ?thesis using t(1) u(1-3) 3 by auto
  qed
qed


section \<open>A state for examples\<close>

definition pipe_demo :: "pipe \<Rightarrow> kfile" where
  "pipe_demo q = ktrap.extend trap_demo \<lparr>ftable = [], pipes = (\<lambda>_. q), ofile = (\<lambda>_. [])\<rparr>
     \<lparr>mem := mem user_demo, freelist := freelist user_demo, kend := kend user_demo, procs := (procs proc_demo)[0 := (procs proc_demo ! 0)\<lparr>p_pagetable := 0x80000000\<rparr>]\<rparr>"

lemma pipe_demo_fields:
  "held (pipe_demo q) = {}" "pipes (pipe_demo q) = (\<lambda>_. q)" "mem (pipe_demo q) = mem user_demo" "freelist (pipe_demo q) = freelist user_demo"
  "kend (pipe_demo q) = kend user_demo" "procs (pipe_demo q) = (procs proc_demo)[0 := (procs proc_demo ! 0)\<lparr>p_pagetable := 0x80000000\<rparr>]"
  "curproc (pipe_demo q) = Some 0"
  by (simp_all add: pipe_demo_def ktrap.defs trap_demo_fields)

lemma pipe_demo_user: "pipe_user 0 [] 0x80000000 (pipe_demo q)"
proof -
  have "aspace (pipe_demo q) [] 0x80000000"
    using user_demo_aspace by (simp add: aspace_def vm_ok_def kmem_inv_def pipe_demo_fields)
  then show ?thesis using proc_demo_ok by (simp add: pipe_user_def ptable_ok_def pipe_demo_fields) (simp add: proc_demo_def demo_proc_def)
qed

lemma pipe_demo_uwr: "unat v < 4096 \<Longrightarrow> uwr (pipe_demo q) 0x80000000 v"
  using user_demo_uwr[of v] by (simp add: pno_def uwr_def umap_def pipe_demo_fields)

text \<open>A wait during which a reader takes one byte.\<close>

definition one_byte_read :: "u64 \<Rightarrow> unit waiting" where
  "one_byte_read p = \<lparr>sleep_prepare = (\<lambda>_. ret ()), sleep_now = modify (\<lambda>s. s\<lparr>pipes := (pipes s)(p := pipe_pop (pipes s p))\<rparr>), waits = 2\<rparr>"

lemma one_byte_read_room: "readers_make_room (one_byte_read p) p pr xs pg addr n bs"
proof -
  have "\<exists>t m. bind (sleep_prepare (one_byte_read p) (ChanPipeWrite (unat p))) (\<lambda>_. bind (release (PipeLock (unat p))) (\<lambda>_. sleep_now (one_byte_read p))) s = Done () t \<and>
          writer p pr xs pg addr n bs t \<and> held t = {} \<and> 0 < m \<and> pipe_q (pipes t p) = drop m (pipe_q (pipes s p))"
    if s: "writer p pr xs pg addr n bs s" "held s = {PipeLock (unat p)}" "length (pipe_q (pipes s p)) = PIPESIZE" for s :: kfile
  proof -
    obtain c r where q: "pipe_q (pipes s p) = c # r" using s(3) by (cases "pipe_q (pipes s p)") auto
    let ?u = "s\<lparr>held := held s - {PipeLock (unat p)}\<rparr>"
    have ok: "pipe_ok (pipes s p)" "pi_readopen (pipes s p)" using s(1) by (simp_all add: writer_def)
    note pop = pipe_pop_q[OF q ok(1)]
    have "writer p pr xs pg addr n bs ?u" unfolding writer_upd by (rule s(1))
    from writer_upd(4)[OF pop(3) _ this] have w: "writer p pr xs pg addr n bs (?u\<lparr>pipes := (pipes ?u)(p := pipe_pop (pipes s p))\<rparr>)" (is "writer _ _ _ _ _ _ _ ?t")
      using ok(2) by (simp add: pipe_pop_def)
    have run: "bind (sleep_prepare (one_byte_read p) (ChanPipeWrite (unat p))) (\<lambda>_. bind (release (PipeLock (unat p))) (\<lambda>_. sleep_now (one_byte_read p))) s = Done () ?t"
      using s(2) by (simp add: one_byte_read_def bind_def release_def)
    have "held ?t = {}" "pipe_q (pipes ?t p) = drop 1 (pipe_q (pipes s p))" using s(2) pop(2) q by simp_all
    with run w show ?thesis using zero_less_one by blast
  qed
  then show ?thesis unfolding readers_make_room_def by blast
qed


section \<open>Reading\<close>

text \<open>The state of a process that reads from the pipe \<open>p\<close> into the \<open>n\<close> bytes of its memory at \<open>addr\<close>.\<close>

definition reader :: "u64 \<Rightarrow> nat \<Rightarrow> u64 list \<Rightarrow> u64 \<Rightarrow> u64 \<Rightarrow> nat \<Rightarrow> 'x kfile_scheme \<Rightarrow> bool" where
  "reader p pr xs pg addr n s \<longleftrightarrow> pipe_user pr xs pg s \<and> pipe_ok (pipes s p) \<and> (\<forall>i<n. uwr s pg (addr + of_nat i)) \<and>
     unat addr + n \<le> 0x3FFFFFE000"

lemma aspace_pipes: "aspace (s\<lparr>pipes := f\<rparr>) xs pg = aspace (s :: 'x kfile_scheme) xs pg"
  by (simp add: aspace_def vm_ok_def kmem_inv_def)

lemma ubyte_pipes: "ubyte (s\<lparr>pipes := f\<rparr>) pg v = ubyte (s :: 'x kfile_scheme) pg v"
  by (simp add: ubyte_def uaddr_def)

lemma user_stored_pipes:
  fixes s t :: "'x kfile_scheme"
  assumes "user_stored s xs pg va bs t"
  shows "user_stored (s\<lparr>pipes := f\<rparr>) xs pg va bs (t\<lparr>pipes := f\<rparr>)"
proof -
  obtain m g where "t = s\<lparr>mem := m, freelist := g\<rparr>" using assms unfolding user_stored_def same_regs_def by blast
  then have "t\<lparr>pipes := f\<rparr> = s\<lparr>pipes := f\<rparr>\<lparr>mem := m, freelist := g\<rparr>" by simp
  then have "same_regs (s\<lparr>pipes := f\<rparr>) (t\<lparr>pipes := f\<rparr>)" unfolding same_regs_def by blast
  then show ?thesis using assms unfolding user_stored_def aspace_pipes ubyte_pipes by simp
qed

text \<open>The same stores seen from a state with the same memory.\<close>

lemma user_stored_view:
  assumes "user_stored s xs pg va bs t" "mem u = mem t" "freelist u = freelist t" "kend u = kend t" "KmemLock \<notin> held u"
  shows "user_stored (u\<lparr>mem := mem s, freelist := freelist s\<rparr>) xs pg va bs u"
proof -
  let ?u = "u\<lparr>mem := mem s, freelist := freelist s\<rparr>"
  have "aspace u xs pg" using user_storedD(1)[OF assms(1)] assms(2-5) by (simp add: aspace_def vm_ok_def kmem_inv_def)
  moreover have "u = ?u\<lparr>mem := mem u, freelist := freelist u\<rparr>" by simp
  then have "same_regs ?u u" unfolding same_regs_def by blast
  moreover have "ubyte u pg v = ubyte t pg v" "ubyte ?u pg v = ubyte s pg v" for v using assms(2) by (simp_all add: ubyte_def uaddr_def)
  ultimately show ?thesis using user_storedD(3,4)[OF assms(1)] assms(2) by (simp add: user_stored_def)
qed

lemma reader_stored:
  fixes s t :: "'x kfile_scheme"
  assumes "reader p pr xs pg addr n s" "user_stored s xs pg va bs t"
  shows "reader p pr xs pg addr n t" "pipes t = pipes s" "held t = held s" "procs t = procs s"
proof -
  note st = user_storedD[OF assms(2)]
  obtain m f where t: "t = s\<lparr>mem := m, freelist := f\<rparr>" using st(2) unfolding same_regs_def by blast
  show "pipes t = pipes s" "held t = held s" "procs t = procs s" by (simp_all add: t)
  moreover have "curproc t = curproc s" by (simp add: t)
  ultimately show "reader p pr xs pg addr n t"
    using assms(1) st(1) unfolding reader_def pipe_user_def ptable_ok_def umap_cong(2)[OF st(3)] by simp
qed

lemma piperead_step:
  fixes s :: "'x kfile_scheme"
  assumes r: "reader p pr xs pg addr n s" and q: "pipe_q (pipes s p) = c # q" and i: "i < n"
  obtains t where "user_stored s xs pg (addr + of_nat i) [c] t" "pipe_q (pipe_pop (pipes t p)) = q"
    "reader p pr xs pg addr n (t\<lparr>pipes := (pipes t)(p := pipe_pop (pipes t p))\<rparr>)" "held t = held s"
    "piperead_copy pr p addr n i s = piperead_copy pr p addr n (i + 1) (t\<lparr>pipes := (pipes t)(p := pipe_pop (pipes t p))\<rparr>)"
proof -
  have u: "pipe_user pr xs pg s" "pipe_ok (pipes s p)" "uwr s pg (addr + of_nat i)" "unat addr + n \<le> 0x3FFFFFE000"
    using r i by (simp_all add: reader_def)
  have pg: "p_pagetable (procs s ! pr) = pg" "aspace s xs pg" using u(1) by (simp_all add: pipe_user_def)
  have "unat (addr + of_nat i) = unat addr + i" using u(4) i by (intro unat_add_of_nat) simp
  then have "wp (copyout pg (p_sz (procs s ! pr)) (addr + of_nat i) [c]) (\<lambda>r t. r = 0 \<and> user_stored s xs pg (addr + of_nat i) [c] t) s"
    by (intro copyout_stores[OF pg(2)]) (use u(3,4) i in simp_all)
  then obtain t where t: "copyout pg (p_sz (procs s ! pr)) (addr + of_nat i) [c] s = Done 0 t" "user_stored s xs pg (addr + of_nat i) [c] t"
    unfolding wp_iff by blast
  note rs = reader_stored[OF r t(2)]
  have pop: "pi_data (pipes s p) ! (unat (pi_nread (pipes s p)) mod PIPESIZE) = c" "pipe_q (pipe_pop (pipes t p)) = q" "pipe_ok (pipe_pop (pipes t p))"
    using pipe_pop_q[OF q u(2)] rs(2) by simp_all
  have ne: "pi_nread (pipes s p) \<noteq> pi_nwrite (pipes s p)" using q pipe_empty[of "pipes s p"] by simp
  have "reader p pr xs pg addr n (t\<lparr>pipes := (pipes t)(p := pipe_pop (pipes t p))\<rparr>)"
    using rs(1) pop(3) unfolding reader_def pipe_user_upd by (simp add: uwr_def umap_def)
  moreover have "piperead_copy pr p addr n i s = piperead_copy pr p addr n (i + 1) (t\<lparr>pipes := (pipes t)(p := pipe_pop (pipes t p))\<rparr>)"
    using i ne t(1) pg(1) pop(1)
    by (subst piperead_copy.simps) (simp add: bind_def the_pipe_def the_proc_def upd_pipe_def pipe_pop_def)
  ultimately show thesis using that t(2) pop(2) rs(3) by blast
qed

lemma piperead_copy_spec:
  fixes s :: "'x kfile_scheme"
  assumes "reader p pr xs pg addr n s" "i \<le> n" "bs = take (n - i) (pipe_q (pipes s p))"
  shows "\<exists>t. piperead_copy pr p addr n i s = piperead_end p (int (i + length bs)) t \<and> reader p pr xs pg addr n t \<and> held t = held s \<and>
    pipe_q (pipes t p) = drop (n - i) (pipe_q (pipes s p)) \<and>
    user_stored (s\<lparr>pipes := f\<rparr>) xs pg (addr + of_nat i) bs (t\<lparr>pipes := f\<rparr>)"
  using assms
proof (induction "n - i" arbitrary: i s bs)
  case 0
  then have "piperead_copy pr p addr n i s = piperead_end p (int i) s" by (subst piperead_copy.simps) simp
  moreover have "user_stored (s\<lparr>pipes := f\<rparr>) xs pg (addr + of_nat i) [] (s\<lparr>pipes := f\<rparr>)"
    using 0 by (intro user_stored_pipes) (simp add: user_stored_def reader_def pipe_user_def)
  ultimately show ?case using 0 by auto
next
  case (Suc k)
  show ?case
  proof (cases "pipe_q (pipes s p)")
    case Nil
    then have "piperead_copy pr p addr n i s = piperead_end p (int i) s" using Suc pipe_empty[of "pipes s p"]
      by (subst piperead_copy.simps) (simp add: bind_def the_pipe_def)
    moreover have "user_stored (s\<lparr>pipes := f\<rparr>) xs pg (addr + of_nat i) [] (s\<lparr>pipes := f\<rparr>)"
      using Suc by (intro user_stored_pipes) (simp add: user_stored_def reader_def pipe_user_def)
    ultimately show ?thesis using Suc Nil by auto
  next
    case (Cons c q)
    have i: "i < n" "n - i = Suc (n - (i + 1))" using Suc(2) by simp_all
    obtain t where t: "user_stored s xs pg (addr + of_nat i) [c] t" "pipe_q (pipe_pop (pipes t p)) = q" 
      "reader p pr xs pg addr n (t\<lparr>pipes := (pipes t)(p := pipe_pop (pipes t p))\<rparr>)" "held t = held s"
      "piperead_copy pr p addr n i s = piperead_copy pr p addr n (i + 1) (t\<lparr>pipes := (pipes t)(p := pipe_pop (pipes t p))\<rparr>)"
      by (rule piperead_step[OF Suc(3) Cons i(1)])
    let ?t = "t\<lparr>pipes := (pipes t)(p := pipe_pop (pipes t p))\<rparr>" and ?b = "take (n - (i + 1)) q"
    have e: "addr + of_nat (i + 1) = addr + of_nat i + of_nat (length [c])" by simp
    have b: "bs = [c] @ ?b" using Suc(5) Cons i(2) by simp
    have "\<exists>u. piperead_copy pr p addr n (i + 1) ?t = piperead_end p (int (i + 1 + length ?b)) u \<and> reader p pr xs pg addr n u \<and> held u = held ?t \<and>
      pipe_q (pipes u p) = drop (n - (i + 1)) (pipe_q (pipes ?t p)) \<and>
      user_stored (?t\<lparr>pipes := f\<rparr>) xs pg (addr + of_nat (i + 1)) ?b (u\<lparr>pipes := f\<rparr>)"
      by (rule Suc(1)) (use Suc(2) t(2,3) i in simp_all)
    then obtain u where u: "piperead_copy pr p addr n (i + 1) ?t = piperead_end p (int (i + 1 + length ?b)) u" "reader p pr xs pg addr n u" "held u = held s"
      "pipe_q (pipes u p) = drop (n - (i + 1)) q" "user_stored (t\<lparr>pipes := f\<rparr>) xs pg (addr + of_nat i + of_nat (length [c])) ?b (u\<lparr>pipes := f\<rparr>)"
      using t(2,4) unfolding e by auto
    have "n < 2 ^ 63" using Suc(3) by (simp add: reader_def)
    then have "length [c] + length ?b < 2 ^ 64" by simp
    from user_stored_append[OF user_stored_pipes[OF t(1)] u(5) this] show ?thesis
      using t(5) u(1-4) b Cons i(2) by auto
  qed
qed

text \<open>C38: a pipe gives its bytes in order. When the queue is not empty, or the writing end is closed, \<open>piperead\<close> of \<open>n\<close> bytes into
  writable memory of the caller returns the smaller of \<open>n\<close> and the length of the queue, takes that many bytes off the front of the
  queue and leaves the rest; \<open>copyin\<close> reads just these bytes at the address given, and no other byte of the caller has changed.\<close>

theorem piperead_takes:
  fixes s :: "'x kfile_scheme"
  assumes s: "reader p pr xs pg addr n s" "held s = {}" and q: "pipe_q (pipes s p) \<noteq> [] \<or> \<not> pi_writeopen (pipes s p)"
    and bs: "bs = take n (pipe_q (pipes s p))"
  shows "\<exists>t. piperead wt p addr (int n) s = Done (int (length bs)) t \<and> held t = {} \<and> pipe_ok (pipes t p) \<and>
      pipe_q (pipes t p) = drop n (pipe_q (pipes s p)) \<and>
      copyin pg sz addr (length bs) t = Done (0, bs) t \<and>
      (\<forall>v. umap s pg v \<and> uva v \<and> length bs \<le> unat (v - addr) \<longrightarrow> ubyte t pg v = ubyte s pg v)"
proof -
  let ?s = "s\<lparr>held := insert (PipeLock (unat p)) (held s)\<rparr>" and ?f = "pipes s"
  have c: "curproc s = Some pr" using s by (simp add: reader_def pipe_user_def)
  have "\<not> (pi_nread (pipes s p) = pi_nwrite (pipes s p) \<and> pi_writeopen (pipes s p))" using q pipe_empty[of "pipes s p"] by simp
  then have run: "piperead wt p addr (int n) s = piperead_copy pr p addr n 0 ?s"
    using c s(2) by (simp add: piperead_def bind_def myproc_def acquire_def, subst piperead_loop.simps) (auto simp: bind_def the_pipe_def)
  have r: "reader p pr xs pg addr n ?s" using s(1) unfolding reader_def pipe_user_upd by (simp add: uwr_def umap_def)
  obtain t where t: "piperead_copy pr p addr n 0 ?s = piperead_end p (int (length bs)) t" "reader p pr xs pg addr n t" "held t = {PipeLock (unat p)}"
    "pipe_q (pipes t p) = drop n (pipe_q (pipes s p))" "user_stored (?s\<lparr>pipes := ?f\<rparr>) xs pg addr bs (t\<lparr>pipes := ?f\<rparr>)"
    using piperead_copy_spec[OF r, of 0 bs ?f] bs s(2) by auto
  have u: "pipe_user pr xs pg t" "pipe_ok (pipes t p)" using t(2) by (simp_all add: reader_def)
  obtain ps where ps: "wakeup (Some (ChanPipeWrite (unat p))) t = Done () (t\<lparr>procs := ps\<rparr>)"
    using pipe_user_wakeup[OF u(1)] by blast
  let ?t = "t\<lparr>procs := ps, held := {}\<rparr>" and ?z = "t\<lparr>procs := ps, held := {}, mem := mem s, freelist := freelist s\<rparr>"
  have fin: "piperead wt p addr (int n) s = Done (int (length bs)) ?t"
    unfolding run t(1) using ps t(3) by (simp add: piperead_end_def bind_def release_def)
  have st: "user_stored ?z xs pg addr bs ?t" using user_stored_view[OF t(5), of ?t] by simp
  have v: "uwr ?z pg v = uwr s pg v" "umap ?z pg v = umap s pg v" "ubyte ?z pg v = ubyte s pg v" for v
    by (simp_all add: uwr_def umap_def ubyte_def uaddr_def)
  have wr: "\<forall>i<length bs. uwr ?z pg (addr + of_nat i)" "unat addr + length bs \<le> 0x3FFFFFE000"
    using s(1) bs unfolding reader_def v by auto
  show ?thesis using fin u(2) t(4) user_stored_read_back[OF st wr] unfolding v by auto
qed

theorem piperead_takes_witness:
  "\<exists>t. piperead (one_byte_read 0x80004000) 0x80004000 0 2
      (pipe_demo \<lparr>pi_data = replicate 512 7, pi_nread = 0xFFFFFFFF, pi_nwrite = 3, pi_readopen = True, pi_writeopen = True\<rparr>) = Done 2 t \<and>
    pipe_q (pipes t 0x80004000) = [7, 7] \<and> copyin 0x80000000 4096 0 2 t = Done (0, [7, 7]) t"
proof -
  let ?q = "\<lparr>pi_data = replicate 512 7, pi_nread = 0xFFFFFFFF, pi_nwrite = 3, pi_readopen = True, pi_writeopen = True\<rparr>"
  have q: "pipe_q ?q = [7, 7, 7, 7]" by (simp add: pipe_q_def fifo_def ring_def upt_rec)
  have "reader 0x80004000 0 [] 0x80000000 0 2 (pipe_demo ?q)"
    using pipe_demo_user pipe_demo_uwr[of _ ?q] q by (auto simp: reader_def pipe_ok_def pipe_demo_fields unat_of_nat take_bit_eq_mod)
  moreover have "pipe_q (pipes (pipe_demo ?q) 0x80004000) \<noteq> [] \<or> \<not> pi_writeopen (pipes (pipe_demo ?q) 0x80004000)"
    "[7, 7] = take 2 (pipe_q (pipes (pipe_demo ?q) 0x80004000))" "drop 2 (pipe_q (pipes (pipe_demo ?q) 0x80004000)) = [7, 7]"
    by (simp_all add: pipe_demo_fields q)
  moreover have "length [7, 7 :: u8] = 2" "int 2 = 2" by simp_all
  ultimately show ?thesis
    using piperead_takes[where n = 2 and bs = "[7, 7]" and s = "pipe_demo ?q" and wt = "one_byte_read 0x80004000" and sz = 4096] pipe_demo_fields(1) by metis
qed

end
