(* ===== verification/Sysfile.thy ===== *)
theory Sysfile
  imports File
begin

text \<open>
  The system calls on files, \<^verbatim>\<open>kernel/sysfile.c\<close>. The repository's build does not link this file yet: the system call
  table has the simpler calls of \<^verbatim>\<open>kernel/sysproc.c\<close>, and the array \<open>ofile\<close> of open files it uses is not in
  \<open>struct proc\<close>; here it is a field of the state. A call whose name \<^verbatim>\<open>kernel/sysproc.c\<close> has too ends in \<open>_f\<close>.
\<close>

definition O_RDONLY :: u32 where "O_RDONLY = 0"
definition O_WRONLY :: u32 where "O_WRONLY = 1"
definition O_RDWR :: u32 where "O_RDWR = 2"
definition O_CREATE :: u32 where "O_CREATE = 0x200"
definition O_TRUNC :: u32 where "O_TRUNC = 0x400"

section \<open>Descriptors\<close>

definition set_ofile :: "nat \<Rightarrow> nat \<Rightarrow> nat option \<Rightarrow> ('x kfile_scheme, unit) kfun" where
  "set_ofile p fd f = modify (\<lambda>s. s\<lparr>ofile := (ofile s)(p := (ofile s p)[fd := f])\<rparr>)"

definition argfd :: "nat \<Rightarrow> ('x kfile_scheme, (nat \<times> nat) option) kfun" where
  "argfd n =
     bind (argint n) (\<lambda>fd.
     if fd < 0 \<or> int NOFILE \<le> fd then ret None else
     bind myproc (\<lambda>p.
     bind (gets (\<lambda>s. ofile s p ! nat fd)) (\<lambda>f.
     ret (map_option (\<lambda>f. (nat fd, f)) f))))"

fun fd_scan :: "nat \<Rightarrow> nat \<Rightarrow> nat list \<Rightarrow> ('x kfile_scheme, nat option) kfun" where
  "fd_scan p f [] = ret None"
| "fd_scan p f (fd # fds) =
     bind (gets (\<lambda>s. ofile s p ! fd)) (\<lambda>x.
     if x = None then bind (set_ofile p fd (Some f)) (\<lambda>_. ret (Some fd)) else fd_scan p f fds)"

definition fdalloc :: "nat \<Rightarrow> ('x kfile_scheme, nat option) kfun" where
  "fdalloc f = bind myproc (\<lambda>p. fd_scan p f [0..<NOFILE])"

definition sys_dup_f :: "('x kfile_scheme, u64) kfun" where
  "sys_dup_f =
     bind (argfd 0) (\<lambda>r. case r of None \<Rightarrow> ret (- 1) | Some (_, f) \<Rightarrow>
     bind (fdalloc f) (\<lambda>r. case r of None \<Rightarrow> ret (- 1) | Some fd \<Rightarrow>
     bind (filedup f) (\<lambda>_.
     ret (of_nat fd))))"

definition sys_read_f :: "'x waiting \<Rightarrow> ('x kfile_scheme, u64) kfun" where
  "sys_read_f wt =
     bind (argaddr 1) (\<lambda>p.
     bind (argint 2) (\<lambda>n.
     bind (argfd 0) (\<lambda>r. case r of None \<Rightarrow> ret (- 1) | Some (_, f) \<Rightarrow>
     bind (fileread wt f p n) (\<lambda>r. ret (of_int r)))))"

definition sys_write_f :: "'x waiting \<Rightarrow> ('x kfile_scheme, u64) kfun" where
  "sys_write_f wt =
     bind (argaddr 1) (\<lambda>p.
     bind (argint 2) (\<lambda>n.
     bind (argfd 0) (\<lambda>r. case r of None \<Rightarrow> ret (- 1) | Some (_, f) \<Rightarrow>
     bind (filewrite wt f p n) (\<lambda>r. ret (of_int r)))))"

definition sys_close :: "('x kfile_scheme, u64) kfun" where
  "sys_close =
     bind (argfd 0) (\<lambda>r. case r of None \<Rightarrow> ret (- 1) | Some (fd, f) \<Rightarrow>
     bind myproc (\<lambda>p.
     bind (set_ofile p fd None) (\<lambda>_.
     bind (fileclose f) (\<lambda>_.
     ret 0))))"

definition sys_fstat :: "('x kfile_scheme, u64) kfun" where
  "sys_fstat =
     bind (argaddr 1) (\<lambda>st.
     bind (argfd 0) (\<lambda>r. case r of None \<Rightarrow> ret (- 1) | Some (_, f) \<Rightarrow>
     bind (filestat f st) (\<lambda>r. ret (of_int r))))"

section \<open>Links\<close>

definition sys_link_bad :: "nat \<Rightarrow> ('x kfile_scheme, u64) kfun" where
  "sys_link_bad ip =
     bind (ilock (Some ip)) (\<lambda>_.
     bind (upd_inode ip (\<lambda>x. x\<lparr>i_nlink := i_nlink x - 1\<rparr>)) (\<lambda>_.
     bind (iupdate ip) (\<lambda>_.
     bind (iunlockput ip) (\<lambda>_.
     bind end_op (\<lambda>_.
     ret (- 1))))))"

definition put_fail :: "nat \<Rightarrow> ('x kfile_scheme, u64) kfun" where
  "put_fail ip = bind (iunlockput ip) (\<lambda>_. bind end_op (\<lambda>_. ret (- 1)))"

definition sys_link_new :: "bytes \<Rightarrow> nat \<Rightarrow> ('x kfile_scheme, u64) kfun" where
  "sys_link_new new ip =
     bind (nameiparent new (replicate DIRSIZ 0)) (\<lambda>(dpo, name). case dpo of None \<Rightarrow> sys_link_bad ip | Some dp \<Rightarrow>
     bind (ilock (Some dp)) (\<lambda>_.
     bind (the_inode dp) (\<lambda>d.
     if i_nlink d = 0 then bind (iunlockput dp) (\<lambda>_. sys_link_bad ip) else
     bind (the_inode ip) (\<lambda>x.
     bind (if i_dev d \<noteq> i_dev x then ret (- 1) else dirlink dp name (i_inum x)) (\<lambda>r.
     if r < 0 then bind (iunlockput dp) (\<lambda>_. sys_link_bad ip) else
     bind (iunlockput dp) (\<lambda>_.
     bind (iput ip) (\<lambda>_.
     bind end_op (\<lambda>_.
     ret 0))))))))"

definition sys_link :: "('x kfile_scheme, u64) kfun" where
  "sys_link =
     bind (argstr 0 MAXPATH) (\<lambda>(r, old).
     if r < 0 then ret (- 1) else
     bind (argstr 1 MAXPATH) (\<lambda>(r, new).
     if r < 0 then ret (- 1) else
     bind begin_op (\<lambda>_.
     bind (namei old) (\<lambda>ipo. case ipo of None \<Rightarrow> bind end_op (\<lambda>_. ret (- 1)) | Some ip \<Rightarrow>
     bind (ilock (Some ip)) (\<lambda>_.
     bind (the_inode ip) (\<lambda>x.
     if i_type x = T_DIR then put_fail ip
     else if NLINK_MAX \<le> sint (i_nlink x) then put_fail ip else
     bind (upd_inode ip (\<lambda>x. x\<lparr>i_nlink := i_nlink x + 1\<rparr>)) (\<lambda>_.
     bind (iupdate ip) (\<lambda>_.
     bind (iunlock (Some ip)) (\<lambda>_.
     sys_link_new new ip)))))))))"

text \<open>The loop of \<open>isdirempty\<close>.\<close>

function isdirempty_loop :: "nat \<Rightarrow> nat \<Rightarrow> nat \<Rightarrow> ('x kfile_scheme, bool) kfun" where
  "isdirempty_loop dp sz off s =
     (if sz \<le> off then Done True s else
      bind (readi dp KernDst (of_nat off) (of_nat sizeof_dirent)) (\<lambda>(r, bs).
      if r \<noteq> int sizeof_dirent then panic ''isdirempty: readi''
      else if de_inum (dec_dirent bs) \<noteq> 0 then ret False
      else isdirempty_loop dp sz (off + sizeof_dirent)) s)"
  by pat_completeness auto
termination
  by (relation "measure (\<lambda>(dp, sz, off, s). sz - off)") auto

declare isdirempty_loop.simps [simp del]

definition isdirempty :: "nat \<Rightarrow> ('x kfile_scheme, bool) kfun" where
  "isdirempty dp = bind (the_inode dp) (\<lambda>d. isdirempty_loop dp (unat (i_size d)) (2 * sizeof_dirent))"

definition sys_unlink_entry :: "nat \<Rightarrow> nat \<Rightarrow> nat \<Rightarrow> ('x kfile_scheme, u64) kfun" where
  "sys_unlink_entry dp ip off =
     bind (writei dp (KernSrc (replicate sizeof_dirent 0)) (of_nat off) (of_nat sizeof_dirent)) (\<lambda>r.
     if r \<noteq> int sizeof_dirent then panic ''unlink: writei'' else
     bind (the_inode ip) (\<lambda>x.
     bind (if i_type x = T_DIR then
             bind (upd_inode dp (\<lambda>d. d\<lparr>i_nlink := i_nlink d - 1\<rparr>)) (\<lambda>_. iupdate dp)
           else ret ()) (\<lambda>_.
     bind (iunlockput dp) (\<lambda>_.
     bind (upd_inode ip (\<lambda>x. x\<lparr>i_nlink := i_nlink x - 1\<rparr>)) (\<lambda>_.
     bind (iupdate ip) (\<lambda>_.
     bind (iunlockput ip) (\<lambda>_.
     bind end_op (\<lambda>_.
     ret 0))))))))"

definition sys_unlink :: "('x kfile_scheme, u64) kfun" where
  "sys_unlink =
     bind (argstr 0 MAXPATH) (\<lambda>(r, path).
     if r < 0 then ret (- 1) else
     bind begin_op (\<lambda>_.
     bind (nameiparent path (replicate DIRSIZ 0)) (\<lambda>(dpo, name). case dpo of None \<Rightarrow> bind end_op (\<lambda>_. ret (- 1)) | Some dp \<Rightarrow>
     bind (ilock (Some dp)) (\<lambda>_.
     if namecmp name (str ''.'') = 0 \<or> namecmp name (str ''..'') = 0 then put_fail dp else
     bind (dirlookup dp name) (\<lambda>r. case r of None \<Rightarrow> put_fail dp | Some (ip, off) \<Rightarrow>
     bind (ilock (Some ip)) (\<lambda>_.
     bind (the_inode ip) (\<lambda>x.
     if sint (i_nlink x) < 1 then panic ''unlink: nlink < 1'' else
     bind (if i_type x = T_DIR then isdirempty ip else ret True) (\<lambda>e.
     if \<not> e then bind (iunlockput ip) (\<lambda>_. put_fail dp)
     else sys_unlink_entry dp ip off))))))))"

section \<open>Creating and opening\<close>

definition create_fail :: "nat \<Rightarrow> nat \<Rightarrow> ('x kfile_scheme, nat option) kfun" where
  "create_fail dp ip =
     bind (upd_inode ip (\<lambda>x. x\<lparr>i_nlink := 0\<rparr>)) (\<lambda>_.
     bind (iupdate ip) (\<lambda>_.
     bind (iunlockput ip) (\<lambda>_.
     bind (iunlockput dp) (\<lambda>_.
     ret None))))"

definition create_dots :: "nat \<Rightarrow> nat \<Rightarrow> ('x kfile_scheme, int) kfun" where
  "create_dots dp ip =
     bind (the_inode ip) (\<lambda>x.
     bind (dirlink ip (str ''.'') (i_inum x)) (\<lambda>r.
     if r < 0 then ret (- 1) else
     bind (the_inode dp) (\<lambda>d.
     dirlink ip (str ''..'') (i_inum d))))"

definition create_new :: "nat \<Rightarrow> bytes \<Rightarrow> u16 \<Rightarrow> u16 \<Rightarrow> u16 \<Rightarrow> nat \<Rightarrow> ('x kfile_scheme, nat option) kfun" where
  "create_new dp name type major minor ip =
     bind (ilock (Some ip)) (\<lambda>_.
     bind (upd_inode ip (\<lambda>x. x\<lparr>i_major := major, i_minor := minor, i_nlink := 1\<rparr>)) (\<lambda>_.
     bind (iupdate ip) (\<lambda>_.
     bind (if type = T_DIR then create_dots dp ip else ret 0) (\<lambda>r.
     if r < 0 then create_fail dp ip else
     bind (the_inode ip) (\<lambda>x.
     bind (dirlink dp name (i_inum x)) (\<lambda>r.
     if r < 0 then create_fail dp ip else
     bind (if type = T_DIR then
             bind (upd_inode dp (\<lambda>d. d\<lparr>i_nlink := i_nlink d + 1\<rparr>)) (\<lambda>_. iupdate dp)
           else ret ()) (\<lambda>_.
     bind (iunlockput dp) (\<lambda>_.
     ret (Some ip)))))))))"

definition create :: "bytes \<Rightarrow> u16 \<Rightarrow> u16 \<Rightarrow> u16 \<Rightarrow> ('x kfile_scheme, nat option) kfun" where
  "create path type major minor =
     bind (nameiparent path (replicate DIRSIZ 0)) (\<lambda>(dpo, name). case dpo of None \<Rightarrow> ret None | Some dp \<Rightarrow>
     bind (ilock (Some dp)) (\<lambda>_.
     bind (the_inode dp) (\<lambda>d.
     if i_nlink d = 0 then bind (iunlockput dp) (\<lambda>_. ret None)
     else if type = T_DIR \<and> NLINK_MAX \<le> sint (i_nlink d) then bind (iunlockput dp) (\<lambda>_. ret None) else
     bind (dirlookup dp name) (\<lambda>r. case r of
       Some (ip, _) \<Rightarrow>
         bind (iunlockput dp) (\<lambda>_.
         bind (ilock (Some ip)) (\<lambda>_.
         bind (the_inode ip) (\<lambda>x.
         if type = T_FILE \<and> (i_type x = T_FILE \<or> i_type x = T_DEVICE) then ret (Some ip) else
         bind (iunlockput ip) (\<lambda>_. ret None))))
     | None \<Rightarrow>
         bind (ialloc (i_dev d) type) (\<lambda>ipo. case ipo of
           None \<Rightarrow> bind (iunlockput dp) (\<lambda>_. ret None)
         | Some ip \<Rightarrow> create_new dp name type major minor ip)))))"

definition open_fields :: "u32 \<Rightarrow> nat \<Rightarrow> inode \<Rightarrow> file_s \<Rightarrow> file_s" where
  "open_fields omode ip x f =
     (let f = (if i_type x = T_DEVICE then f\<lparr>f_type := FD_DEVICE, f_major := i_major x\<rparr>
               else f\<lparr>f_type := FD_INODE, f_off := 0\<rparr>)
      in f\<lparr>f_ip := Some ip, f_readable := (omode AND O_WRONLY = 0),
           f_writable := (omode AND O_WRONLY \<noteq> 0 \<or> omode AND O_RDWR \<noteq> 0)\<rparr>)"

text \<open>\<open>sys_open\<close> once the inode is locked.\<close>

definition sys_open_inode :: "u32 \<Rightarrow> nat \<Rightarrow> ('x kfile_scheme, u64) kfun" where
  "sys_open_inode omode ip =
     bind (the_inode ip) (\<lambda>x.
     if i_type x = T_DEVICE \<and> (sint (i_major x) < 0 \<or> int NDEV \<le> sint (i_major x)) then put_fail ip else
     bind filealloc (\<lambda>fo. case fo of None \<Rightarrow> put_fail ip | Some f \<Rightarrow>
     bind (fdalloc f) (\<lambda>fdo. case fdo of None \<Rightarrow> bind (fileclose f) (\<lambda>_. put_fail ip) | Some fd \<Rightarrow>
     bind (the_inode ip) (\<lambda>x.
     bind (upd_file f (open_fields omode ip x)) (\<lambda>_.
     bind (if omode AND O_TRUNC \<noteq> 0 \<and> i_type x = T_FILE then itrunc ip else ret ()) (\<lambda>_.
     bind (iunlock (Some ip)) (\<lambda>_.
     bind end_op (\<lambda>_.
     ret (of_nat fd)))))))))"

definition sys_open_f :: "('x kfile_scheme, u64) kfun" where
  "sys_open_f =
     bind (argint 1) (\<lambda>om. let omode = of_int om in
     bind (argstr 0 MAXPATH) (\<lambda>(n, path).
     if n < 0 then ret (- 1) else
     bind begin_op (\<lambda>_.
     if omode AND O_CREATE \<noteq> 0 then
       bind (create path T_FILE 0 0) (\<lambda>ipo. case ipo of
         None \<Rightarrow> bind end_op (\<lambda>_. ret (- 1)) | Some ip \<Rightarrow> sys_open_inode omode ip)
     else
       bind (namei path) (\<lambda>ipo. case ipo of None \<Rightarrow> bind end_op (\<lambda>_. ret (- 1)) | Some ip \<Rightarrow>
       bind (ilock (Some ip)) (\<lambda>_.
       bind (the_inode ip) (\<lambda>x.
       if i_type x = T_DIR \<and> omode \<noteq> O_RDONLY then put_fail ip else sys_open_inode omode ip))))))"

text \<open>The end of \<open>sys_mkdir\<close> and \<open>sys_mknod\<close>.\<close>

definition created :: "nat option \<Rightarrow> ('x kfile_scheme, u64) kfun" where
  "created ipo = (case ipo of None \<Rightarrow> bind end_op (\<lambda>_. ret (- 1))
     | Some ip \<Rightarrow> bind (iunlockput ip) (\<lambda>_. bind end_op (\<lambda>_. ret 0)))"

definition sys_mkdir :: "('x kfile_scheme, u64) kfun" where
  "sys_mkdir =
     bind begin_op (\<lambda>_.
     bind (argstr 0 MAXPATH) (\<lambda>(r, path).
     bind (if r < 0 then ret None else create path T_DIR 0 0) created))"

definition sys_mknod_f :: "('x kfile_scheme, u64) kfun" where
  "sys_mknod_f =
     bind begin_op (\<lambda>_.
     bind (argint 1) (\<lambda>major.
     bind (argint 2) (\<lambda>minor.
     bind (argstr 0 MAXPATH) (\<lambda>(r, path).
     bind (if r < 0 then ret None else create path T_DEVICE (of_int major) (of_int minor)) created))))"

definition sys_chdir_f :: "('x kfile_scheme, u64) kfun" where
  "sys_chdir_f =
     bind myproc (\<lambda>p.
     bind begin_op (\<lambda>_.
     bind (argstr 0 MAXPATH) (\<lambda>(r, path).
     bind (if r < 0 then ret None else namei path) (\<lambda>ipo. case ipo of None \<Rightarrow> bind end_op (\<lambda>_. ret (- 1)) | Some ip \<Rightarrow>
     bind (ilock (Some ip)) (\<lambda>_.
     bind (the_inode ip) (\<lambda>x.
     if i_type x \<noteq> T_DIR then put_fail ip else
     bind (iunlock (Some ip)) (\<lambda>_.
     bind (the_proc p) (\<lambda>pr.
     bind (case p_cwd pr of None \<Rightarrow> panic ''kerneltrap'' | Some i \<Rightarrow> iput i) (\<lambda>_.
     bind end_op (\<lambda>_.
     bind (upd_proc p (\<lambda>pr. pr\<lparr>p_cwd := Some ip\<rparr>)) (\<lambda>_.
     ret 0)))))))))))"

section \<open>exec and pipe\<close>

text \<open>
  The loop that copies the argument vector of \<open>sys_exec\<close>: the pages allocated so far with their strings, and
  whether all of the vector was copied.
\<close>

function exec_args :: "u64 \<Rightarrow> nat \<Rightarrow> (u64 \<times> bytes) list \<Rightarrow> ('x kfile_scheme, bool \<times> (u64 \<times> bytes) list) kfun" where
  "exec_args uargv i argv s =
     (if MAXARG \<le> i then Done (False, argv) s else
      bind (fetchaddr (uargv + 8 * of_nat i)) (\<lambda>(r, uarg).
      if r < 0 then ret (False, argv)
      else if uarg = 0 then ret (True, argv) else
      bind kalloc (\<lambda>pg.
      if pg = 0 then ret (False, argv) else
      bind (fetchstr uarg 4096) (\<lambda>(r, buf).
      bind (modify (\<lambda>s. s\<lparr>mem := st_bytes (mem s) pg buf\<rparr>)) (\<lambda>_.
      if r < 0 then ret (False, argv @ [(pg, buf)]) else exec_args uargv (i + 1) (argv @ [(pg, buf)]))))) s)"
  by pat_completeness auto
termination
  by (relation "measure (\<lambda>(uargv, i, argv, s). MAXARG - i)") auto

declare exec_args.simps [simp del]

definition sys_exec_f :: "ksyms \<Rightarrow> ('x kfile_scheme, u64) kfun" where
  "sys_exec_f sy =
     bind (argaddr 1) (\<lambda>uargv.
     bind (argstr 0 MAXPATH) (\<lambda>(r, path).
     if r < 0 then ret (- 1) else
     bind (exec_args uargv 0 []) (\<lambda>(ok, argv).
     bind (if ok then kexec (sy_trampoline sy) path (map snd argv) else ret (- 1)) (\<lambda>r.
     bind (foreach (map fst argv) kfree) (\<lambda>_.
     ret (of_int r))))))"

definition sys_pipe_bad :: "nat \<Rightarrow> nat option \<Rightarrow> nat option \<Rightarrow> nat \<Rightarrow> nat \<Rightarrow> ('x kfile_scheme, u64) kfun" where
  "sys_pipe_bad p fd0 fd1 rf wfl =
     bind (case fd0 of None \<Rightarrow> ret () | Some fd \<Rightarrow> set_ofile p fd None) (\<lambda>_.
     bind (case fd1 of None \<Rightarrow> ret () | Some fd \<Rightarrow> set_ofile p fd None) (\<lambda>_.
     bind (fileclose rf) (\<lambda>_.
     bind (fileclose wfl) (\<lambda>_.
     ret (- 1)))))"

definition sys_pipe :: "('x kfile_scheme, u64) kfun" where
  "sys_pipe =
     bind myproc (\<lambda>p.
     bind (argaddr 0) (\<lambda>fdarray.
     bind pipealloc (\<lambda>r. case r of None \<Rightarrow> ret (- 1) | Some (rf, wfl) \<Rightarrow>
     bind (fdalloc rf) (\<lambda>r. case r of None \<Rightarrow> sys_pipe_bad p None None rf wfl | Some fd0 \<Rightarrow>
     bind (fdalloc wfl) (\<lambda>r. case r of None \<Rightarrow> sys_pipe_bad p (Some fd0) None rf wfl | Some fd1 \<Rightarrow>
     bind (the_proc p) (\<lambda>pr.
     bind (copyout (p_pagetable pr) (p_sz pr) fdarray (le_bytes 4 fd0)) (\<lambda>r0.
     if r0 < 0 then sys_pipe_bad p (Some fd0) (Some fd1) rf wfl else
     bind (copyout (p_pagetable pr) (p_sz pr) (fdarray + 4) (le_bytes 4 fd1)) (\<lambda>r1.
     if r1 < 0 then sys_pipe_bad p (Some fd0) (Some fd1) rf wfl else ret 0))))))))"

end
