(* ===== verification/Mkfs.thy ===== *)
theory Mkfs
  imports Fs
begin

text \<open>
  The program that builds the initial file system, \<^verbatim>\<open>mkfs/mkfs.c\<close>. The image is a function from sectors to their
  bytes, empty where the image ends; a failed assertion and \<open>die\<close> are a \<open>Panic\<close>. The host opens its files and accepts
  every write, a read of a file returns a full buffer until the last, and a read past the end of the image fails. The
  messages the program prints are left out. \<open>xshort\<close> and \<open>xint\<close> give a word its RISC-V byte order: on the bytes of the image
  that is the little-endian encoding.
\<close>

definition NINODES :: nat where [simp]: "NINODES = 200"
definition nbitmap :: nat where [simp]: "nbitmap = FSSIZE div BPB + 1"
definition ninodeblocks :: nat where [simp]: "ninodeblocks = NINODES div IPB + 1"
definition nlog :: nat where [simp]: "nlog = LOGBLOCKS"
definition nmeta :: nat where [simp]: "nmeta = 2 + nlog + ninodeblocks + nbitmap"

record mkfs =
  img :: "u32 \<Rightarrow> bytes"
  freeinode :: u32
  freeblock :: u32

definition mk_sb :: superblock where
  "mk_sb = \<lparr>sb_magic = FSMAGIC, sb_size = of_nat FSSIZE, sb_nblocks = of_nat (FSSIZE - nmeta), sb_ninodes = of_nat NINODES,
     sb_nlog = of_nat nlog, sb_logstart = 2, sb_inodestart = of_nat (2 + nlog), sb_bmapstart = of_nat (2 + nlog + ninodeblocks)\<rparr>"

definition enc_superblock :: "superblock \<Rightarrow> bytes" where
  "enc_superblock b = concat (map (\<lambda>x. le_bytes 4 (unat x))
     [sb_magic b, sb_size b, sb_nblocks b, sb_ninodes b, sb_nlog b, sb_logstart b, sb_inodestart b, sb_bmapstart b])"

section \<open>Sectors and inodes\<close>

definition wsect :: "u32 \<Rightarrow> bytes \<Rightarrow> (mkfs, unit) kfun" where
  "wsect sec buf = modify (\<lambda>s. s\<lparr>img := (img s)(sec := buf)\<rparr>)"

definition rsect :: "u32 \<Rightarrow> (mkfs, bytes) kfun" where
  "rsect sec = (\<lambda>s. if length (img s sec) \<noteq> BSIZE then Panic ''read'' else Done (img s sec) s)"

definition winode :: "u32 \<Rightarrow> dinode \<Rightarrow> (mkfs, unit) kfun" where
  "winode inum ip =
     (let bn = IBLOCK inum mk_sb in
      bind (rsect bn) (\<lambda>buf.
      wsect bn (patch (dinode_off inum) (enc_dinode ip) buf)))"

definition rinode :: "u32 \<Rightarrow> (mkfs, dinode) kfun" where
  "rinode inum = bind (rsect (IBLOCK inum mk_sb)) (\<lambda>buf. ret (dec_dinode buf (dinode_off inum)))"

definition ialloc_mk :: "u16 \<Rightarrow> (mkfs, u32) kfun" where
  "ialloc_mk type =
     bind (gets freeinode) (\<lambda>inum.
     bind (modify (\<lambda>s. s\<lparr>freeinode := inum + 1\<rparr>)) (\<lambda>_.
     bind (winode inum (zero_dinode\<lparr>d_type := type, d_nlink := 1, d_size := 0\<rparr>)) (\<lambda>_.
     ret inum)))"

definition mark_used :: "bytes \<Rightarrow> nat \<Rightarrow> bytes" where
  "mark_used buf i = buf[i div 8 := buf ! (i div 8) OR push_bit (i mod 8) 1]"

definition balloc_mk :: "nat \<Rightarrow> (mkfs, unit) kfun" where
  "balloc_mk used =
     (if \<not> used < BPB then panic ''used < BPB'' else
      wsect (sb_bmapstart mk_sb) (foldl mark_used (replicate BSIZE 0) [0..<used]))"

section \<open>Appending to a file\<close>

definition new_block :: "(mkfs, u32) kfun" where
  "new_block = bind (gets freeblock) (\<lambda>b. bind (modify (\<lambda>s. s\<lparr>freeblock := b + 1\<rparr>)) (\<lambda>_. ret b))"

text \<open>The block \<open>x\<close> of \<open>iappend\<close> for block \<open>fbn\<close> of the file, allocated when there is none.\<close>

definition append_block :: "dinode \<Rightarrow> nat \<Rightarrow> (mkfs, dinode \<times> u32) kfun" where
  "append_block din fbn =
     (if fbn < NDIRECT then
        bind (if d_addrs din ! fbn = 0 then bind new_block (\<lambda>b. ret (din\<lparr>d_addrs := (d_addrs din)[fbn := b]\<rparr>)) else ret din) (\<lambda>din.
        ret (din, d_addrs din ! fbn))
      else
        bind (if d_addrs din ! NDIRECT = 0 then bind new_block (\<lambda>b. ret (din\<lparr>d_addrs := (d_addrs din)[NDIRECT := b]\<rparr>)) else ret din) (\<lambda>din.
        bind (rsect (d_addrs din ! NDIRECT)) (\<lambda>indirect.
        if get32 indirect (4 * (fbn - NDIRECT)) = 0 then
          bind new_block (\<lambda>b.
          bind (wsect (d_addrs din ! NDIRECT) (patch (4 * (fbn - NDIRECT)) (le_bytes 4 (unat b)) indirect)) (\<lambda>_.
          ret (din, b)))
        else ret (din, get32 indirect (4 * (fbn - NDIRECT))))))"

function iappend_loop :: "dinode \<Rightarrow> nat \<Rightarrow> bytes \<Rightarrow> (mkfs, dinode \<times> nat) kfun" where
  "iappend_loop din off p s =
     (if p = [] then Done (din, off) s else
      let fbn = off div BSIZE; n1 = (if length p < (fbn + 1) * BSIZE - off then length p else (fbn + 1) * BSIZE - off) in
      if \<not> fbn < MAXFILE then Panic ''fbn < MAXFILE'' else
      bind (append_block din fbn) (\<lambda>(din, x).
      bind (rsect x) (\<lambda>buf.
      bind (wsect x (patch (off - fbn * BSIZE) (take n1 p) buf)) (\<lambda>_.
      iappend_loop din (off + n1) (drop n1 p)))) s)"
  by pat_completeness auto
termination
proof (relation "measure (\<lambda>(din, off, p, s). length p)", goal_cases)
  case (2 din off p)
  have "off < (off div BSIZE + 1) * BSIZE" by (metis BSIZE_def Suc_eq_plus1 dividend_less_div_times mult.commute mult_Suc zero_less_numeral)
  then show ?case using 2 by auto
qed auto

declare iappend_loop.simps [simp del]

definition iappend :: "u32 \<Rightarrow> bytes \<Rightarrow> (mkfs, unit) kfun" where
  "iappend inum p =
     bind (rinode inum) (\<lambda>din.
     bind (iappend_loop din (unat (d_size din)) p) (\<lambda>(din, off).
     winode inum (din\<lparr>d_size := of_nat off\<rparr>)))"

section \<open>main\<close>

definition dir_entry :: "u32 \<Rightarrow> bytes \<Rightarrow> bytes" where
  "dir_entry inum name = enc_dirent \<lparr>de_inum = ucast inum, de_name = strncpy (replicate DIRSIZ 0) name (int DIRSIZ)\<rparr>"

definition user_prefix :: bytes where "user_prefix = [117, 115, 101, 114, 47]"

definition shortname :: "bytes \<Rightarrow> bytes" where
  "shortname name = (if strncmp name user_prefix 5 = 0 then drop 5 name else name)"

text \<open>What successive reads into a buffer of \<open>BSIZE\<close> bytes return.\<close>

function read_chunks :: "bytes \<Rightarrow> bytes list" where
  "read_chunks bs = (if bs = [] then [] else take BSIZE bs # read_chunks (drop BSIZE bs))"
  by pat_completeness auto
termination
  by (relation "measure length") auto

declare read_chunks.simps [simp del]

definition add_file :: "u32 \<Rightarrow> bytes \<times> bytes \<Rightarrow> (mkfs, unit) kfun" where
  "add_file rootino = (\<lambda>(name, contents).
     let sn = shortname name in
     if slash \<in> set sn then panic ''index(shortname, /) == 0'' else
     let sn = (if chd sn = 95 then drop 1 sn else sn) in
     if DIRSIZ < length sn then panic ''strlen(shortname) <= DIRSIZ'' else
     bind (ialloc_mk T_FILE) (\<lambda>inum.
     bind (iappend rootino (dir_entry inum sn)) (\<lambda>_.
     foreach (read_chunks contents) (iappend inum))))"

definition mkfs_main :: "(bytes \<times> bytes) list \<Rightarrow> (mkfs, unit) kfun" where
  "mkfs_main files =
     bind (modify (\<lambda>s. s\<lparr>freeblock := of_nat nmeta\<rparr>)) (\<lambda>_.
     bind (foreach [0..<FSSIZE] (\<lambda>i. wsect (of_nat i) (replicate BSIZE 0))) (\<lambda>_.
     bind (wsect 1 (patch 0 (enc_superblock mk_sb) (replicate BSIZE 0))) (\<lambda>_.
     bind (ialloc_mk T_DIR) (\<lambda>rootino.
     if rootino \<noteq> ROOTINO then panic ''rootino == ROOTINO'' else
     bind (iappend rootino (dir_entry rootino [46])) (\<lambda>_.
     bind (iappend rootino (dir_entry rootino [46, 46])) (\<lambda>_.
     bind (foreach files (add_file rootino)) (\<lambda>_.
     bind (rinode rootino) (\<lambda>din.
     let off = (unat (d_size din) div BSIZE + 1) * BSIZE in
     bind (winode rootino (din\<lparr>d_size := of_nat off\<rparr>)) (\<lambda>_.
     bind (gets freeblock) (\<lambda>used.
     balloc_mk (unat used)))))))))))"

definition mkfs_start :: mkfs where
  "mkfs_start = \<lparr>img = (\<lambda>_. []), freeinode = 1, freeblock = 0\<rparr>"

end
