(* ===== verification/Grep.thy ===== *)
theory Grep
  imports Strings
begin

text \<open>
  The program \<open>grep\<close>, \<^verbatim>\<open>user/grep.c\<close>: its matcher for \<open>^ . * $\<close> and its loop over the lines of a file. A C string is a
  list of bytes that ends at the end of the list or at a NUL byte, whichever is first.
\<close>

section \<open>The matcher\<close>

function (sequential) matchhere :: "bytes \<Rightarrow> bytes \<Rightarrow> bool" and matchstar :: "u8 \<Rightarrow> bytes \<Rightarrow> bytes \<Rightarrow> bool" where
  "matchhere re tx =
     (if chd re = 0 then True
      else if chd (tl re) = 42 then matchstar (chd re) (tl (tl re)) tx
      else if chd re = 36 \<and> chd (tl re) = 0 then chd tx = 0
      else if chd tx \<noteq> 0 \<and> (chd re = 46 \<or> chd re = chd tx) then matchhere (tl re) (tl tx)
      else False)"
| "matchstar c re tx =
     (if matchhere re tx then True
      else if chd tx \<noteq> 0 \<and> (chd tx = c \<or> c = 46) then matchstar c re (tl tx)
      else False)"
  by pat_completeness auto
termination
proof (relation "measures [\<lambda>x. case x of Inl (re, tx) \<Rightarrow> 2 * length re | Inr (c, re, tx) \<Rightarrow> 2 * length re + 1,
    \<lambda>x. case x of Inl (re, tx) \<Rightarrow> length tx | Inr (c, re, tx) \<Rightarrow> length tx]", goal_cases)
  case (2 re tx)
  then show ?case by (cases re; cases "tl re") (auto simp: chd_def)
next
  case (3 re tx)
  then show ?case by (cases re) (auto simp: chd_def)
next
  case (5 c re tx)
  then show ?case by (cases tx) (auto simp: chd_def)
qed auto

fun match_any :: "bytes \<Rightarrow> bytes \<Rightarrow> bool" where
  "match_any re [] = matchhere re []"
| "match_any re (c # tx) = (if matchhere re (c # tx) then True else if c \<noteq> 0 then match_any re tx else False)"

definition match :: "bytes \<Rightarrow> bytes \<Rightarrow> bool" where
  "match re tx = (if chd re = 94 then matchhere (tl re) tx else match_any re tx)"

declare matchhere.simps [simp del] matchstar.simps [simp del]

section \<open>The loop over the lines\<close>

fun strchr :: "bytes \<Rightarrow> u8 \<Rightarrow> nat option" where
  "strchr [] c = None"
| "strchr (x # s) c = (if x = 0 then None else if x = c then Some 0 else map_option Suc (strchr s c))"

lemma strchr_Some: "strchr s c = Some q \<Longrightarrow> q < length s \<and> s ! q = c \<and> c \<notin> set (take q s)"
  by (induction s arbitrary: q) (auto split: if_splits)

lemma strchr_None: "0 \<notin> set s \<Longrightarrow> strchr s c = None \<longleftrightarrow> c \<notin> set s"
  by (induction s) auto

text \<open>The inner loop: the output for the lines that start at \<open>p\<close>, and the \<open>p\<close> it ends with.\<close>

function grep_lines :: "bytes \<Rightarrow> bytes \<Rightarrow> bytes \<times> bytes" where
  "grep_lines pattern p = (case strchr p 10 of
       None \<Rightarrow> ([], p)
     | Some q \<Rightarrow>
         let (out, rest) = grep_lines pattern (drop (q + 1) p)
         in (if match pattern (take q p) then take (q + 1) p @ out else out, rest))"
  by pat_completeness auto
termination
  by (relation "measure (\<lambda>(pattern, p). length p)") (auto dest: strchr_Some)

declare grep_lines.simps [simp del]

text \<open>
  What \<open>read\<close> gives of a file: at most \<open>k\<close> bytes of what is left, and perhaps fewer, as the numbers in the list say.
\<close>

definition read_in :: "nat \<Rightarrow> nat list \<times> bytes \<Rightarrow> bytes \<times> (nat list \<times> bytes)" where
  "read_in k st = (case st of (js, inp) \<Rightarrow>
     let j = (case js of [] \<Rightarrow> k | j # _ \<Rightarrow> min k j) in (take j inp, (tl js, drop j inp)))"

function grep :: "bytes \<Rightarrow> bytes \<Rightarrow> nat list \<times> bytes \<Rightarrow> bytes" where
  "grep pattern m st =
     (let (bs, st') = read_in (1024 - length m - 1) st in
      if bs = [] then [] else
      let (out, rest) = grep_lines pattern (m @ bs) in out @ grep pattern rest st')"
  by pat_completeness auto
termination
  by (relation "measure (\<lambda>(pattern, m, st). length (snd st))") (auto simp: read_in_def Let_def split: prod.splits list.splits)

declare grep.simps [simp del]

section \<open>The matcher and regular expressions\<close>

datatype ritem = RChar u8 | RStar u8 | REnd

fun parse_re :: "bytes \<Rightarrow> ritem list" where
  "parse_re [] = []"
| "parse_re [c] = (if c = 36 then [REnd] else [RChar c])"
| "parse_re (c # d # r) = (if d = 42 then RStar c # parse_re r else RChar c # parse_re (d # r))"

definition fits :: "u8 \<Rightarrow> u8 \<Rightarrow> bool" where "fits c x \<longleftrightarrow> c = 46 \<or> c = x"

text \<open>\<open>rmatch is u v\<close>: the items match all of \<open>u\<close> where \<open>v\<close> follows it.\<close>

fun rmatch :: "ritem list \<Rightarrow> bytes \<Rightarrow> bytes \<Rightarrow> bool" where
  "rmatch [] u v \<longleftrightarrow> u = []"
| "rmatch (RChar c # is) u v \<longleftrightarrow> (\<exists>x u'. u = x # u' \<and> fits c x \<and> rmatch is u' v)"
| "rmatch (RStar c # is) u v \<longleftrightarrow> (\<exists>a b. u = a @ b \<and> (\<forall>x\<in>set a. fits c x) \<and> rmatch is b v)"
| "rmatch (REnd # is) u v \<longleftrightarrow> u = [] \<and> v = [] \<and> rmatch is u v"

definition rhere :: "ritem list \<Rightarrow> bytes \<Rightarrow> bool" where
  "rhere is tx \<longleftrightarrow> (\<exists>u v. tx = u @ v \<and> rmatch is u v)"

lemma rhereI: "rmatch is u v \<Longrightarrow> tx = u @ v \<Longrightarrow> rhere is tx"
  by (auto simp: rhere_def)

lemma rhere_simps [simp]:
  "rhere [] tx" "rhere [REnd] tx \<longleftrightarrow> tx = []"
  by (auto simp: rhere_def)

lemma rhere_charE: "rhere (RChar c # is) (x # t) \<Longrightarrow> fits c x \<and> rhere is t"
  by (clarsimp simp: rhere_def) blast

lemma rhere_charI: "fits c x \<Longrightarrow> rhere is t \<Longrightarrow> rhere (RChar c # is) (x # t)"
  unfolding rhere_def[of "is"] by (elim exE conjE, rule rhereI[of _ "x # _"]) auto

lemma rhere_char [simp]: "rhere (RChar c # is) tx \<longleftrightarrow> (case tx of [] \<Rightarrow> False | x # t \<Rightarrow> fits c x \<and> rhere is t)"
  by (cases tx) (auto simp: rhere_def[of _ "[]"] dest: rhere_charE intro: rhere_charI)

lemma rhere_starE:
  assumes "rhere (RStar c # is) tx"
  shows "rhere is tx \<or> (\<exists>x t. tx = x # t \<and> fits c x \<and> rhere (RStar c # is) t)"
proof -
  obtain a b v where ab: "tx = a @ b @ v" "\<forall>x\<in>set a. fits c x" "rmatch is b v" using assms by (auto simp: rhere_def)
  show ?thesis
  proof (cases a)
    case Nil then show ?thesis using ab by (auto intro: rhereI)
  next
    case (Cons x a')
    have "rmatch (RStar c # is) (a' @ b) v" using ab Cons by auto
    then have "rhere (RStar c # is) (a' @ b @ v)" by (rule rhereI) simp
    then show ?thesis using ab Cons by auto
  qed
qed

lemma rhere_star0: "rhere is tx \<Longrightarrow> rhere (RStar c # is) tx"
  unfolding rhere_def[of "is"] by (elim exE conjE, rule rhereI) (auto intro: exI[of _ "[]"])

lemma rhere_star1:
  assumes "fits c x" and "rhere (RStar c # is) t"
  shows "rhere (RStar c # is) (x # t)"
proof -
  obtain a b v where ab: "t = a @ b @ v" "\<forall>y\<in>set a. fits c y" "rmatch is b v" using assms(2) by (auto simp: rhere_def)
  then have "rmatch (RStar c # is) (x # a @ b) v"
    using assms(1) unfolding rmatch.simps by (intro exI[of _ "x # a"] exI[of _ b]) auto
  then show ?thesis by (rule rhereI) (simp add: ab)
qed

lemma rhere_star:
  "rhere (RStar c # is) tx \<longleftrightarrow> rhere is tx \<or> (case tx of [] \<Rightarrow> False | x # t \<Rightarrow> fits c x \<and> rhere (RStar c # is) t)"
  by (cases tx) (auto dest: rhere_starE intro: rhere_star0 rhere_star1)

lemma matchhere_forms:
  "matchhere [] tx"
  "c \<noteq> 0 \<Longrightarrow> matchhere [c] tx \<longleftrightarrow> (if c = 36 then chd tx = 0 else chd tx \<noteq> 0 \<and> (c = 46 \<or> c = chd tx))"
  "c \<noteq> 0 \<Longrightarrow> matchhere (c # 42 # r) tx \<longleftrightarrow> matchstar c r tx"
  "c \<noteq> 0 \<Longrightarrow> d \<noteq> 0 \<Longrightarrow> d \<noteq> 42 \<Longrightarrow>
     matchhere (c # d # r) tx \<longleftrightarrow> chd tx \<noteq> 0 \<and> (c = 46 \<or> c = chd tx) \<and> matchhere (d # r) (tl tx)"
proof -
  show n: "matchhere [] tx" for tx by (simp add: matchhere.simps chd_def)
  show "c \<noteq> 0 \<Longrightarrow> matchhere [c] tx \<longleftrightarrow> (if c = 36 then chd tx = 0 else chd tx \<noteq> 0 \<and> (c = 46 \<or> c = chd tx))"
    by (subst matchhere.simps) (simp add: chd_def n)
  show "c \<noteq> 0 \<Longrightarrow> matchhere (c # 42 # r) tx \<longleftrightarrow> matchstar c r tx"
    by (subst matchhere.simps) (simp add: chd_def)
  show "c \<noteq> 0 \<Longrightarrow> d \<noteq> 0 \<Longrightarrow> d \<noteq> 42 \<Longrightarrow>
     matchhere (c # d # r) tx \<longleftrightarrow> chd tx \<noteq> 0 \<and> (c = 46 \<or> c = chd tx) \<and> matchhere (d # r) (tl tx)"
    by (subst matchhere.simps) (simp add: chd_def)
qed

lemma matchstar_iff:
  assumes "\<And>t. 0 \<notin> set t \<Longrightarrow> matchhere re t \<longleftrightarrow> rhere (parse_re re) t" and "0 \<notin> set tx"
  shows "matchstar c re tx \<longleftrightarrow> rhere (RStar c # parse_re re) tx"
  using assms(2)
proof (induction tx)
  case Nil then show ?case by (subst matchstar.simps, subst rhere_star) (simp add: assms(1) chd_def)
next
  case (Cons x t)
  then show ?case by (subst matchstar.simps, subst rhere_star) (auto simp: assms(1) chd_def fits_def)
qed

lemma matchhere_iff: "0 \<notin> set re \<Longrightarrow> 0 \<notin> set tx \<Longrightarrow> matchhere re tx \<longleftrightarrow> rhere (parse_re re) tx"
proof (induction re arbitrary: tx rule: parse_re.induct)
  case (2 c)
  then show ?case by (cases tx) (auto simp: matchhere_forms chd_def fits_def)
next
  case (3 c d r)
  show ?case
  proof (cases "d = 42")
    case True
    then show ?thesis using 3 matchstar_iff[of r tx c] by (simp add: matchhere_forms)
  next
    case False
    then show ?thesis using 3 by (cases tx) (auto simp: matchhere_forms chd_def fits_def)
  qed
qed (simp add: matchhere_forms)

lemma match_any_iff:
  assumes "0 \<notin> set re"
  shows "0 \<notin> set tx \<Longrightarrow> match_any re tx \<longleftrightarrow> (\<exists>a t. tx = a @ t \<and> rhere (parse_re re) t)"
proof (induction tx)
  case (Cons c tx)
  have "(\<exists>a t. c # tx = a @ t \<and> rhere (parse_re re) t) \<longleftrightarrow> rhere (parse_re re) (c # tx) \<or> (\<exists>a t. tx = a @ t \<and> rhere (parse_re re) t)"
    by (auto simp: Cons_eq_append_conv)
  then show ?case using Cons matchhere_iff[OF assms, of "c # tx"] by auto
qed (simp add: matchhere_iff assms)

text \<open>C25: the matcher of \<open>grep\<close> decides the regular expressions its comment names. A pattern is a sequence of items,
  each a character, \<open>.\<close> for any character, or one of these with a \<open>*\<close>, with a \<open>$\<close> at the end for the end of the text;
  \<open>match\<close> tells whether they match a part \<open>u\<close> of the text, which begins the text if the pattern begins with \<open>^\<close>.
  Both loops end on every input.\<close>

theorem match_decides_regexp:
  assumes "0 \<notin> set re" and "0 \<notin> set tx"
  shows "match re tx \<longleftrightarrow> (if chd re = 94 then \<exists>u v. tx = u @ v \<and> rmatch (parse_re (tl re)) u v
    else \<exists>a u v. tx = a @ u @ v \<and> rmatch (parse_re re) u v)"
proof -
  have "0 \<notin> set (tl re)" using assms(1) by (cases re) auto
  then show ?thesis using matchhere_iff[of "tl re" tx] match_any_iff[of re tx] assms
    by (auto simp: match_def rhere_def)
qed

theorem match_decides_regexp_witness: "match [97, 46, 42, 99, 36] [120, 97, 98, 98, 99] \<and> \<not> match [94, 98] [97, 98]"
proof -
  let ?re = "[97, 46, 42, 99, 36] :: bytes" and ?tx = "[120, 97, 98, 98, 99] :: bytes"
  have "\<exists>a b. [98, 98, 99] = a @ b \<and> (\<forall>x\<in>set a. fits 46 x) \<and> (\<exists>x. b = [x] \<and> fits 99 x)"
    by (rule exI[of _ "[98, 98]"], rule exI[of _ "[99]"]) (simp add: fits_def)
  then have "rmatch (parse_re ?re) [97, 98, 98, 99] []" by (simp add: fits_def[of 97])
  moreover have "?tx = [120] @ [97, 98, 98, 99] @ []" by simp
  ultimately have "\<exists>a u v. ?tx = a @ u @ v \<and> rmatch (parse_re ?re) u v" by blast
  moreover have "chd ?re \<noteq> 94" by (simp add: chd_def)
  ultimately have 1: "match ?re ?tx" using match_decides_regexp[of ?re ?tx] by simp
  have "match [94, 98] [97, 98] \<longleftrightarrow> (\<exists>u v. [97, 98] = u @ v \<and> rmatch [RChar 98] u v)"
    using match_decides_regexp[of "[94, 98]" "[97, 98]"] by (simp add: chd_def)
  then have "\<not> match [94, 98] [97, 98]" by (auto simp: Cons_eq_append_conv fits_def)
  then show ?thesis using 1 by blast
qed

section \<open>The lines grep prints\<close>

text \<open>The complete lines of some bytes, each with its newline, and what follows the last of them.\<close>

function full_lines :: "bytes \<Rightarrow> bytes list" where
  "full_lines bs = (if 10 \<in> set bs then (takeWhile (\<lambda>c. c \<noteq> 10) bs @ [10]) # full_lines (tl (dropWhile (\<lambda>c. c \<noteq> 10) bs)) else [])"
  by pat_completeness auto
termination
proof (relation "measure length", goal_cases)
  case (2 bs)
  then have "dropWhile (\<lambda>c. c \<noteq> 10) bs \<noteq> []" by (auto simp: dropWhile_eq_Nil_conv)
  then show ?case using length_dropWhile_le[of "\<lambda>c. c \<noteq> 10" bs] by (cases "dropWhile (\<lambda>c. c \<noteq> 10) bs") auto
qed auto

declare full_lines.simps [simp del]

definition tail_line :: "bytes \<Rightarrow> bytes" where
  "tail_line bs = rev (takeWhile (\<lambda>c. c \<noteq> 10) (rev bs))"

lemma full_lines_app: "10 \<notin> set l \<Longrightarrow> full_lines (l @ 10 # r) = (l @ [10]) # full_lines r"
  by (subst full_lines.simps) (simp add: takeWhile_append2 dropWhile_append2 takeWhile_append dropWhile_append)

lemma full_lines_none: "10 \<notin> set l \<Longrightarrow> full_lines l = []"
  by (subst full_lines.simps) simp

lemma tail_line_app: "tail_line (l @ 10 # r) = tail_line r"
  by (auto simp: tail_line_def takeWhile_append takeWhile_eq_all_conv[THEN iffD2])

lemma tail_line_none: "10 \<notin> set l \<Longrightarrow> tail_line l = l"
  by (auto simp: tail_line_def takeWhile_eq_all_conv rev_swap)

lemma tail_line_no_newline: "10 \<notin> set (tail_line bs)"
  using set_takeWhileD[of 10 "\<lambda>c. c \<noteq> 10" "rev bs"] by (auto simp: tail_line_def)

lemma lines_induct [case_names none line]:
  assumes "\<And>l. 10 \<notin> set l \<Longrightarrow> P l" and "\<And>l r. 10 \<notin> set l \<Longrightarrow> P r \<Longrightarrow> P (l @ (10 :: u8) # r)"
  shows "P bs"
proof (induction bs rule: length_induct)
  case (1 bs)
  show ?case
  proof (cases "10 \<in> set bs")
    case True
    then obtain l r where "bs = l @ 10 # r" "10 \<notin> set l" by (meson split_list_first)
    then show ?thesis using 1 assms(2) by auto
  qed (simp add: assms(1))
qed

lemma full_lines_append: "full_lines (p @ q) = full_lines p @ full_lines (tail_line p @ q)"
  by (induction p rule: lines_induct) (simp_all add: full_lines_app full_lines_none tail_line_app tail_line_none)

lemma set_full_lines: "l \<in> set (full_lines bs) \<Longrightarrow> set l \<subseteq> set bs"
  by (induction bs rule: lines_induct) (auto simp: full_lines_app full_lines_none)

definition grep_out :: "bytes \<Rightarrow> bytes list \<Rightarrow> bytes" where
  "grep_out pattern ls = concat (filter (\<lambda>l. match pattern (butlast l)) ls)"

lemma strchr_line: "0 \<notin> set l \<Longrightarrow> 10 \<notin> set l \<Longrightarrow> strchr (l @ 10 # r) 10 = Some (length l)"
  by (induction l) auto

lemma grep_lines_spec: "0 \<notin> set p \<Longrightarrow> grep_lines pattern p = (grep_out pattern (full_lines p), tail_line p)"
proof (induction p rule: lines_induct)
  case (none l)
  then have "strchr l 10 = None" by (simp add: strchr_None)
  then show ?case using none by (subst grep_lines.simps) (simp add: full_lines_none tail_line_none grep_out_def)
next
  case (line l r)
  then show ?case
    by (subst grep_lines.simps) (simp add: strchr_line full_lines_app tail_line_app grep_out_def)
qed

lemma grep_spec:
  assumes "0 \<notin> set m" "0 \<notin> set (snd st)" "10 \<notin> set m" "\<forall>j\<in>set (fst st). 0 < j" "\<forall>l\<in>set (full_lines (m @ snd st)). length l < 1024"
  shows "grep pattern m st = grep_out pattern (full_lines (m @ snd st))"
  using assms
proof (induction "length (snd st)" arbitrary: m st rule: less_induct)
  case (less st m)
  obtain js inp where st: "st = (js, inp)" by (cases st)
  define k where "k = 1024 - length m - 1"
  define j where "j = (case js of [] \<Rightarrow> k | j # _ \<Rightarrow> min k j)"
  have rd: "read_in k st = (take j inp, (tl js, drop j inp))" by (simp add: read_in_def st j_def Let_def)
  show ?case
  proof (cases "take j inp = []")
    case True
    have "10 \<notin> set inp"
    proof
      assume in10: "10 \<in> set inp"
      then obtain l r where lr: "inp = l @ 10 # r" "10 \<notin> set l" by (meson split_list_first)
      then have "full_lines (m @ inp) = ((m @ l) @ [10]) # full_lines r" using less.prems(3) full_lines_app[of "m @ l" r] by simp
      then have "length (m @ l) + 1 < 1024" using less.prems(5) st by simp
      then have "0 < k" by (simp add: k_def)
      then have "0 < j" using less.prems(4) st by (auto simp: j_def split: list.splits)
      then show False using True in10 by auto
    qed
    then have "full_lines (m @ inp) = []" using less.prems(3) by (intro full_lines_none) auto
    then show ?thesis using True rd by (subst grep.simps) (simp add: k_def st grep_out_def)
  next
    case False
    have app: "full_lines (m @ inp) = full_lines (m @ take j inp) @ full_lines (tail_line (m @ take j inp) @ drop j inp)"
      using full_lines_append[of "m @ take j inp" "drop j inp"] by simp
    have nz: "0 \<notin> set (m @ take j inp)" using less.prems(1,2) st by (auto dest: in_set_takeD)
    have sub: "set (tail_line bs) \<subseteq> set bs" for bs
      using set_takeWhileD[of _ "\<lambda>c. c \<noteq> 10" "rev bs"] by (auto simp: tail_line_def)
    have "grep pattern (tail_line (m @ take j inp)) (tl js, drop j inp) = grep_out pattern (full_lines (tail_line (m @ take j inp) @ drop j inp))"
      using less.hyps[of "(tl js, drop j inp)" "tail_line (m @ take j inp)"] False nz sub[of "m @ take j inp"] less.prems st app
        tail_line_no_newline[of "m @ take j inp"]
      by (cases js) (auto dest: in_set_dropD)
    then show ?thesis using False rd grep_lines_spec[OF nz, of pattern]
      by (simp add: grep.simps[of pattern m "(js, inp)"] k_def st app grep_out_def)
  qed
qed

text \<open>C26: \<open>grep\<close> prints the lines of its input that match, each whole, in order and no others, however the reads cut the
  input, as long as each complete line with its newline fits the buffer of 1024 bytes with its NUL.\<close>

theorem grep_prints_matching_lines:
  assumes "0 \<notin> set inp" and "\<forall>j\<in>set js. 0 < j" and "\<forall>l\<in>set (full_lines inp). length l < 1024"
  shows "grep pattern [] (js, inp) = concat (filter (\<lambda>l. match pattern (butlast l)) (full_lines inp))"
  using grep_spec[of "[]" "(js, inp)" pattern] assms by (simp add: grep_out_def)

theorem grep_prints_matching_lines_witness:
  "grep [98] [] ([2, 1, 3], [97, 10, 98, 99, 10, 98]) = [98, 99, 10]"
proof -
  have f: "full_lines [97, 10, 98, 99, 10, 98] = [[97, 10], [98, 99, 10]]"
    using full_lines_app[of "[97]" "[98, 99, 10, 98]"] full_lines_app[of "[98, 99]" "[98]"] full_lines_none[of "[98]"] by simp
  have "\<not> match [98] [97]" "match [98] [98, 99]"
    by (simp_all add: match_def matchhere_forms chd_def)
  then show ?thesis using grep_prints_matching_lines[of "[97, 10, 98, 99, 10, 98]" "[2, 1, 3]" "[98]"] by (simp add: f)
qed

end
