(* ===== verification/Consline.thy ===== *)
theory Consline
  imports Console Ring
begin

text \<open>
  What the console does to its input. The circular buffer stands for two lists: the lines that wait for \<open>consoleread\<close>,
  from \<open>r\<close> to \<open>w\<close>, and the line being typed, from \<open>w\<close> to \<open>e\<close>. The interrupt handler edits these lists as a line
  discipline does, and \<open>consoleread\<close> takes lines from the front.
\<close>

section \<open>The lists in the circular buffer\<close>

interpretation consring: ring_buffer INPUT_BUF_SIZE
  by unfold_locales simp_all

definition cons_all :: "'x kcons_scheme \<Rightarrow> bytes" where
  "cons_all s = ring INPUT_BUF_SIZE (cons_buf s) (cons_r s) (unat (cons_e s - cons_r s))"

definition cons_q :: "'x kcons_scheme \<Rightarrow> bytes" where
  "cons_q s = take (unat (cons_w s - cons_r s)) (cons_all s)"

definition cons_line :: "'x kcons_scheme \<Rightarrow> bytes" where
  "cons_line s = drop (unat (cons_w s - cons_r s)) (cons_all s)"

definition cons_ok :: "'x kcons_scheme \<Rightarrow> bool" where
  "cons_ok s \<longleftrightarrow> length (cons_buf s) = INPUT_BUF_SIZE \<and> unat (cons_w s - cons_r s) \<le> unat (cons_e s - cons_r s) \<and>
     unat (cons_e s - cons_r s) \<le> INPUT_BUF_SIZE"

section \<open>Output to a device that is ready\<close>

definition tx_ready :: "'x kcons_scheme \<Rightarrow> bool" where
  "tx_ready s \<longleftrightarrow> TxLock \<notin> held s \<and> (\<forall>v\<in>set (lsr_in s). v AND LSR_TX_IDLE \<noteq> 0)"

definition echoed :: "bytes \<Rightarrow> 'x kcons_scheme \<Rightarrow> 'x kcons_scheme" where
  "echoed bs s = s\<lparr>lsr_in := drop (length bs) (lsr_in s), uart_writes := uart_writes s @ map (Pair THR) bs\<rparr>"

lemma echoed_simps [simp]:
  "cons_buf (echoed bs s) = cons_buf s" "cons_r (echoed bs s) = cons_r s" "cons_w (echoed bs s) = cons_w s"
  "cons_e (echoed bs s) = cons_e s" "held (echoed bs s) = held s" "procs (echoed bs s) = procs s"
  "lsr_in (echoed bs s) = drop (length bs) (lsr_in s)" "uart_writes (echoed bs s) = uart_writes s @ map (Pair THR) bs"
  "tx_ready s \<Longrightarrow> tx_ready (echoed bs s)"
  by (auto simp: echoed_def tx_ready_def dest: in_set_dropD)

lemma echoed_echoed: "echoed bs (echoed as s) = echoed (as @ bs) s"
  by (simp add: echoed_def add.commute)

lemma uartputc_sync_eq:
  assumes "tx_ready s" "lsr_in s \<noteq> []"
  shows "uartputc_sync c s = Done () (echoed [c] s)"
proof -
  obtain v vs where v: "lsr_in s = v # vs" using assms(2) by (cases "lsr_in s") auto
  have i: "v AND LSR_TX_IDLE \<noteq> 0" and h: "TxLock \<notin> held s" using assms v by (auto simp: tx_ready_def)
  have "uart_spin (s\<lparr>held := insert TxLock (held s)\<rparr>) = Done () (s\<lparr>held := insert TxLock (held s), lsr_in := vs\<rparr>)"
    using v i by (subst uart_spin.simps) simp
  then show ?thesis using h v
    by (simp add: uartputc_sync_def bind_def acquire_def release_def WriteReg_def echoed_def insert_Diff_if)
qed

definition outc :: "int \<Rightarrow> bytes" where
  "outc c = (if c = BACKSPACE then [8, 32, 8] else [of_int c])"

lemma consputc_eq:
  assumes "tx_ready s" "length (outc c) \<le> length (lsr_in s)"
  shows "consputc c s = Done () (echoed (outc c) s)"
proof (cases "c = BACKSPACE")
  case True
  let ?a = "echoed [8] s" and ?b = "echoed [32] (echoed [8] s)"
  have "tx_ready ?a" "lsr_in ?a \<noteq> []" "tx_ready ?b" "lsr_in ?b \<noteq> []" "lsr_in s \<noteq> []"
    using assms True by (auto simp: outc_def)
  then show ?thesis using True uartputc_sync_eq[OF assms(1), of 8] uartputc_sync_eq[of ?a 32] uartputc_sync_eq[of ?b 8]
    by (simp add: consputc_def outc_def bind_def echoed_echoed)
next
  case False
  then have "lsr_in s \<noteq> []" using assms(2) by (auto simp: outc_def)
  then show ?thesis using False uartputc_sync_eq[OF assms(1)] by (simp add: consputc_def outc_def)
qed

section \<open>Editing\<close>

lemma cons_all_length: "length (cons_all s) = unat (cons_e s - cons_r s)"
  by (simp add: cons_all_def)

lemma cons_app: "cons_q s @ cons_line s = cons_all s"
  by (simp add: cons_q_def cons_line_def)

lemma cons_len:
  assumes "cons_ok s"
  shows "length (cons_q s) = unat (cons_w s - cons_r s)" "length (cons_q s) + length (cons_line s) = unat (cons_e s - cons_r s)"
  using assms by (auto simp: cons_q_def cons_line_def cons_all_length cons_ok_def)

lemma cons_line_empty: "cons_ok s \<Longrightarrow> cons_line s = [] \<longleftrightarrow> cons_e s = cons_w s"
proof -
  assume ok: "cons_ok s"
  have "cons_line s = [] \<longleftrightarrow> unat (cons_e s - cons_r s) = unat (cons_w s - cons_r s)"
    using ok by (auto simp: cons_line_def cons_all_length cons_ok_def)
  also have "\<dots> \<longleftrightarrow> cons_e s - cons_r s = cons_w s - cons_r s" by (simp only: word_unat_eq_iff)
  finally show ?thesis by simp
qed

lemma unat_pred: "x \<noteq> 0 \<Longrightarrow> unat (x - 1) = unat (x :: u32) - 1"
  by (simp add: unat_minus_one)

text \<open>Erasing the last character, and storing one.\<close>

lemma cons_erase:
  assumes "cons_ok s" "cons_e s \<noteq> cons_w s"
  defines "t \<equiv> s\<lparr>cons_e := cons_e s - 1\<rparr>"
  shows "cons_ok t" "cons_q t = cons_q s" "cons_line t = butlast (cons_line s)"
    "cons_buf s ! (unat (cons_e s - 1) mod INPUT_BUF_SIZE) = last (cons_line s)"
proof -
  let ?n = "unat (cons_e s - cons_r s)" and ?q = "unat (cons_w s - cons_r s)"
  have ne: "cons_line s \<noteq> []" using cons_line_empty[OF assms(1)] assms(2) by simp
  then have "0 < length (cons_line s)" by simp
  then have lt: "?q < ?n" using cons_len[OF assms(1)] by linarith
  have e: "cons_e s - 1 - cons_r s = (cons_e s - cons_r s) - 1" by simp
  have nz: "cons_e s - cons_r s \<noteq> 0" using lt by auto
  have n1: "unat (cons_e t - cons_r t) = ?n - 1" using unat_pred[OF nz] by (simp add: t_def e)
  have idx: "cons_e s - 1 = cons_r s + of_nat (?n - 1)" using lt by (simp add: of_nat_diff)
  have Sn: "?n = Suc (?n - 1)" using lt by simp
  have all: "cons_all s = cons_all t @ [cons_buf s ! (unat (cons_e s - 1) mod INPUT_BUF_SIZE)]"
    unfolding cons_all_def n1 by (subst Sn, subst ring_Suc) (simp add: t_def idx)
  show "cons_ok t" using assms(1) lt n1 by (auto simp: cons_ok_def t_def)
  show "cons_q t = cons_q s" using lt by (simp add: cons_q_def all cons_all_length n1) (simp add: t_def)
  have "cons_line s = cons_line t @ [cons_buf s ! (unat (cons_e s - 1) mod INPUT_BUF_SIZE)]"
    using lt by (simp add: cons_line_def all cons_all_length n1) (simp add: t_def)
  then show "cons_line t = butlast (cons_line s)" "cons_buf s ! (unat (cons_e s - 1) mod INPUT_BUF_SIZE) = last (cons_line s)" by simp_all
qed

lemma cons_store:
  fixes s :: "'x kcons_scheme" and c :: u8
  assumes "cons_ok s" "cons_e s - cons_r s < of_nat INPUT_BUF_SIZE"
  defines "t \<equiv> s\<lparr>cons_buf := (cons_buf s)[unat (cons_e s) mod INPUT_BUF_SIZE := c], cons_e := cons_e s + 1\<rparr>"
  shows "cons_ok t" "cons_q t = cons_q s" "cons_line t = cons_line s @ [c]"
proof -
  let ?n = "unat (cons_e s - cons_r s)"
  have "?n < unat (of_nat INPUT_BUF_SIZE :: u32)" using assms(2) by (simp only: word_less_nat_alt)
  then have lt: "?n < 128" by simp
  have e1: "cons_e t - cons_r t = (of_nat (Suc ?n) :: u32)" by (simp add: t_def)
  have n1: "unat (cons_e t - cons_r t) = Suc ?n" unfolding e1 by (rule unat_of_nat_small) (use lt in simp)
  have "ring INPUT_BUF_SIZE ((cons_buf s)[unat (cons_r s + of_nat ?n) mod INPUT_BUF_SIZE := c]) (cons_r s) (Suc ?n) = cons_all s @ [c]"
    unfolding cons_all_def by (rule consring.store) (use assms(1) lt in \<open>simp_all add: cons_ok_def\<close>)
  then have all: "cons_all t = cons_all s @ [c]" unfolding cons_all_def n1 by (simp add: t_def)
  have q: "unat (cons_w s - cons_r s) \<le> ?n" using assms(1) by (simp add: cons_ok_def)
  show "cons_ok t" using assms(1) lt n1 q by (auto simp: cons_ok_def t_def)
  show "cons_q t = cons_q s" "cons_line t = cons_line s @ [c]"
    using q by (simp_all add: cons_q_def cons_line_def all cons_all_length) (simp_all add: t_def)
qed

lemma cons_views [simp]:
  "cons_ok (echoed bs s) = cons_ok s" "cons_q (echoed bs s) = cons_q s" "cons_line (echoed bs s) = cons_line s"
  "cons_ok (s\<lparr>held := h\<rparr>) = cons_ok s" "cons_q (s\<lparr>held := h\<rparr>) = cons_q s" "cons_line (s\<lparr>held := h\<rparr>) = cons_line s"
  "cons_ok (s\<lparr>mem := m\<rparr>) = cons_ok s" "cons_q (s\<lparr>mem := m\<rparr>) = cons_q s" "cons_line (s\<lparr>mem := m\<rparr>) = cons_line s"
  "cons_ok (s\<lparr>procs := ps\<rparr>) = cons_ok s" "cons_q (s\<lparr>procs := ps\<rparr>) = cons_q s" "cons_line (s\<lparr>procs := ps\<rparr>) = cons_line s"
  by (simp_all add: cons_ok_def cons_q_def cons_line_def cons_all_def)

lemma echoed_upd [simp]:
  "(echoed bs s)\<lparr>cons_e := v\<rparr> = echoed bs (s\<lparr>cons_e := v\<rparr>)" "echoed [] s = s"
  by (simp_all add: echoed_def)

lemma cons_commit:
  assumes "cons_ok s"
  defines "t \<equiv> s\<lparr>cons_w := cons_e s\<rparr>"
  shows "cons_ok t" "cons_q t = cons_q s @ cons_line s" "cons_line t = []"
proof -
  have "cons_all t = cons_all s" by (simp add: cons_all_def t_def)
  then show "cons_q t = cons_q s @ cons_line s" "cons_line t = []"
    by (simp_all add: cons_app cons_all_length cons_q_def[of t] cons_line_def[of t]) (simp_all add: t_def cons_all_length)
  show "cons_ok t" using assms(1) by (simp add: cons_ok_def t_def)
qed

lemma cons_kill_eq:
  assumes "cons_ok s" "tx_ready s" "3 * k \<le> length (lsr_in s)" "k = length (takeWhile (\<lambda>x. x \<noteq> nl) (rev (cons_line s)))"
  shows "\<exists>t. cons_kill s = Done () (echoed (concat (replicate k [8, 32, 8])) t) \<and> t = s\<lparr>cons_e := cons_e t\<rparr> \<and> cons_ok t \<and>
    cons_q t = cons_q s \<and> cons_line t = rev (dropWhile (\<lambda>x. x \<noteq> nl) (rev (cons_line s)))"
  using assms
proof (induction k arbitrary: s)
  case 0
  have "takeWhile (\<lambda>x. x \<noteq> nl) (rev (cons_line s)) = []" using 0 by simp
  then have r: "rev (dropWhile (\<lambda>x. x \<noteq> nl) (rev (cons_line s))) = cons_line s"
    by (metis append_self_conv2 rev_rev_ident takeWhile_dropWhile_id)
  have "cons_e s = cons_w s \<or> last (cons_line s) = nl"
    using 0(4) cons_line_empty[OF 0(1)] by (cases "cons_line s" rule: rev_cases) (auto split: if_splits)
  then have "cons_kill s = Done () s" using cons_erase(4)[OF 0(1)] by (subst cons_kill.simps) auto
  then show ?case using r 0 by (intro exI[of _ s]) simp
next
  case (Suc k)
  obtain l x where lx: "cons_line s = l @ [x]" "x \<noteq> nl"
    using Suc.prems(4) by (cases "cons_line s" rule: rev_cases) (auto split: if_splits)
  then have ne: "cons_e s \<noteq> cons_w s" using cons_line_empty[OF Suc.prems(1)] by auto
  let ?u = "s\<lparr>cons_e := cons_e s - 1\<rparr>" and ?v = "echoed [8, 32, 8] (s\<lparr>cons_e := cons_e s - 1\<rparr>)"
  note er = cons_erase[OF Suc.prems(1) ne]
  have tr: "tx_ready ?u" using Suc.prems(2) by (simp add: tx_ready_def)
  have put: "consputc BACKSPACE ?u = Done () ?v"
    using consputc_eq[OF tr, of BACKSPACE] Suc.prems(3) by (simp add: outc_def)
  have "\<exists>t. cons_kill ?v = Done () (echoed (concat (replicate k [8, 32, 8])) t) \<and> t = ?v\<lparr>cons_e := cons_e t\<rparr> \<and> cons_ok t \<and>
    cons_q t = cons_q ?v \<and> cons_line t = rev (dropWhile (\<lambda>x. x \<noteq> nl) (rev (cons_line ?v)))"
    using Suc.prems tr er lx by (intro Suc.IH) auto
  then obtain t where t: "cons_kill ?v = Done () (echoed (concat (replicate k [8, 32, 8])) t)" "t = ?v\<lparr>cons_e := cons_e t\<rparr>" "cons_ok t"
    "cons_q t = cons_q s" "cons_line t = rev (dropWhile (\<lambda>x. x \<noteq> nl) (rev l))" using er lx by auto
  have k: "cons_kill s = cons_kill ?v" using ne er(4) lx put by (subst cons_kill.simps) (simp add: bind_def)
  define w where "w = s\<lparr>cons_e := cons_e t\<rparr>"
  have tw: "t = echoed [8, 32, 8] w" using t(2) by (simp add: w_def)
  have "cons_ok w" "cons_q w = cons_q s" "cons_line w = rev (dropWhile (\<lambda>x. x \<noteq> nl) (rev l))"
    using t(3,4,5) unfolding tw by simp_all
  moreover have "cons_kill s = Done () (echoed (concat (replicate (Suc k) [8, 32, 8])) w)"
    unfolding k t(1) tw by (simp add: echoed_echoed)
  moreover have "w = s\<lparr>cons_e := cons_e w\<rparr>" by (simp add: w_def)
  ultimately show ?case using lx by (intro exI[of _ w]) simp
qed

text \<open>The line discipline: what a character does to the waiting lines and to the line being typed, and its echo.\<close>

definition typed :: "int \<Rightarrow> u8" where "typed c = of_int (if c = 13 then 10 else c)"

definition line_disc :: "int \<Rightarrow> bytes \<times> bytes \<Rightarrow> bytes \<times> bytes" where
  "line_disc c = (\<lambda>(q, l).
     if c = 16 then (q, l)
     else if c = 21 then (q, rev (dropWhile (\<lambda>x. x \<noteq> nl) (rev l)))
     else if c = 8 \<or> c = 127 then (q, butlast l)
     else if c \<noteq> 0 \<and> length q + length l < INPUT_BUF_SIZE then
       if typed c = 10 \<or> typed c = 4 \<or> length q + length l + 1 = INPUT_BUF_SIZE then (q @ l @ [typed c], [])
       else (q, l @ [typed c])
     else (q, l))"

definition line_echo :: "int \<Rightarrow> bytes \<times> bytes \<Rightarrow> bytes" where
  "line_echo c = (\<lambda>(q, l).
     if c = 16 then []
     else if c = 21 then concat (replicate (length (takeWhile (\<lambda>x. x \<noteq> nl) (rev l))) [8, 32, 8])
     else if c = 8 \<or> c = 127 then (if l = [] then [] else [8, 32, 8])
     else if c \<noteq> 0 \<and> length q + length l < INPUT_BUF_SIZE then [typed c] else [])"

lemma ctrls: "uint (ctrl 80) = 16" "uint (ctrl 85) = 21" "uint (ctrl 72) = 8" "uint (ctrl 68) = 4"
  by (simp_all add: ctrl_def)

lemma small_byte: "0 \<le> x \<Longrightarrow> x < 256 \<Longrightarrow> 0 \<le> y \<Longrightarrow> y < 256 \<Longrightarrow> (of_int x = (of_int y :: u8)) = (x = y)"
  by (simp add: word_of_int_eq_iff take_bit_int_eq_self)

lemma cons_type_step:
  assumes "cons_ok s" "tx_ready s" "ptable_ok s" "1 \<le> length (lsr_in s)" "0 \<le> c" "c < 256"
  defines "grow \<equiv> c \<noteq> 0 \<and> length (cons_q s) + length (cons_line s) < INPUT_BUF_SIZE"
  shows "\<exists>t. cons_type c s = Done () t \<and> cons_ok t \<and> held t = held s \<and> uart_writes t = uart_writes s @ (if grow then [(THR, typed c)] else []) \<and>
     (cons_q t, cons_line t) = (if \<not> grow then (cons_q s, cons_line s)
       else if typed c = 10 \<or> typed c = 4 \<or> length (cons_q s) + length (cons_line s) + 1 = INPUT_BUF_SIZE
       then (cons_q s @ cons_line s @ [typed c], []) else (cons_q s, cons_line s @ [typed c]))"
proof -
  let ?x = "if c = 13 then 10 else c"
  have lens: "length (cons_q s) + length (cons_line s) = unat (cons_e s - cons_r s)" by (rule cons_len(2)[OF assms(1)])
  have room: "cons_e s - cons_r s < of_nat INPUT_BUF_SIZE \<longleftrightarrow> length (cons_q s) + length (cons_line s) < INPUT_BUF_SIZE"
    unfolding lens word_less_nat_alt by simp
  show ?thesis
  proof (cases grow)
    case False
    then have "cons_type c s = Done () s" unfolding cons_type_def grow_def using room by (auto simp: bind_def)
    then show ?thesis using False assms(1) by auto
  next
    case True
    let ?a = "echoed [typed c] s"
    define b where "b = ?a\<lparr>cons_buf := (cons_buf ?a)[unat (cons_e ?a) mod INPUT_BUF_SIZE := typed c], cons_e := cons_e ?a + 1\<rparr>"
    have rm: "cons_e ?a - cons_r ?a < of_nat INPUT_BUF_SIZE" using True room by (simp add: grow_def del: INPUT_BUF_SIZE_def)
    note st = cons_store[OF _ rm, of "typed c", folded b_def, simplified cons_views, OF assms(1)]
    have put: "consputc ?x s = Done () ?a"
      using consputc_eq[OF assms(2), of ?x] assms(4,6) by (auto simp: outc_def typed_def BACKSPACE_def)
    have ch: "?x = 10 \<longleftrightarrow> typed c = 10" "?x = 4 \<longleftrightarrow> typed c = 4"
      using assms(5,6) small_byte[of ?x 10] small_byte[of ?x 4] unfolding typed_def by (auto split: if_splits)
    have full: "cons_e b - cons_r b = of_nat INPUT_BUF_SIZE \<longleftrightarrow> length (cons_q s) + length (cons_line s) + 1 = INPUT_BUF_SIZE"
      using cons_len(2)[OF st(1)] st(2,3) by (simp add: word_unat_eq_iff)
    let ?go = "typed c = 10 \<or> typed c = 4 \<or> length (cons_q s) + length (cons_line s) + 1 = INPUT_BUF_SIZE"
    have run: "cons_type c s = (if ?go then wakeup (Some ChanConsR) (b\<lparr>cons_w := cons_e b\<rparr>) else Done () b)"
      unfolding cons_type_def bind_def gets_def modify_def Let_def
      using True room put ch full by (simp add: grow_def b_def typed_def ctrls del: INPUT_BUF_SIZE_def)
    have hb: "held b = held s" "uart_writes b = uart_writes s @ [(THR, typed c)]" "procs b = procs s" by (simp_all add: b_def)
    show ?thesis
    proof (cases ?go)
      case go: True
      have "ptable_ok (b\<lparr>cons_w := cons_e b\<rparr>)" using assms(3) hb by (simp add: ptable_ok_def)
      then show ?thesis using run go True cons_commit[OF st(1)] st hb by (simp add: wakeup_eq)
    next
      case go: False
      then show ?thesis using run True st hb by simp
    qed
  qed
qed

lemma cons_switch_step:
  fixes s :: "'x kcons_scheme"
  assumes "cons_ok s" "tx_ready s" "ptable_ok s" "3 * INPUT_BUF_SIZE \<le> length (lsr_in s)" "0 \<le> c" "c < 256"
  shows "\<exists>t. cons_switch c s = Done () t \<and> cons_ok t \<and> held t = held s \<and>
    (cons_q t, cons_line t) = line_disc c (cons_q s, cons_line s) \<and>
    uart_writes t = uart_writes s @ map (Pair THR) (line_echo c (cons_q s, cons_line s))"
proof -
  consider (p) "c = 16" | (u) "c = 21" | (h) "c = 8 \<or> c = 127" | (t) "c \<noteq> 16" "c \<noteq> 21" "c \<noteq> 8" "c \<noteq> 127" by blast
  then show ?thesis
  proof cases
    case p then show ?thesis using assms(1) by (auto simp: cons_switch_def ctrls line_disc_def line_echo_def)
  next
    case u
    let ?k = "length (takeWhile (\<lambda>x. x \<noteq> nl) (rev (cons_line s)))"
    have "?k \<le> length (cons_line s)" using length_takeWhile_le[of _ "rev (cons_line s)"] by simp
    also have "\<dots> \<le> INPUT_BUF_SIZE" using cons_len(2)[OF assms(1)] assms(1) unfolding cons_ok_def by linarith
    finally have "3 * ?k \<le> length (lsr_in s)" using assms(4) by simp
    from cons_kill_eq[OF assms(1,2) this refl] obtain v where v: "cons_kill s = Done () (echoed (concat (replicate ?k [8, 32, 8])) v)"
      "v = s\<lparr>cons_e := cons_e v\<rparr>" "cons_ok v" "cons_q v = cons_q s" "cons_line v = rev (dropWhile (\<lambda>x. x \<noteq> nl) (rev (cons_line s)))"
      by blast
    have "held v = held s" "uart_writes v = uart_writes s" by (subst v(2), simp)+
    then show ?thesis using u v by (auto simp: cons_switch_def ctrls line_disc_def line_echo_def)
  next
    case h
    show ?thesis
    proof (cases "cons_e s = cons_w s")
      case True
      then have "cons_line s = []" using cons_line_empty[OF assms(1)] by simp
      then show ?thesis using h True assms(1) by (auto simp: cons_switch_def ctrls line_disc_def line_echo_def bind_def)
    next
      case False
      let ?u = "s\<lparr>cons_e := cons_e s - 1\<rparr>"
      have ne: "cons_line s \<noteq> []" using cons_line_empty[OF assms(1)] False by simp
      have er: "cons_ok ?u" "cons_q ?u = cons_q s" "cons_line ?u = butlast (cons_line s)"
        using cons_erase[OF assms(1)] False by simp_all
      have "consputc BACKSPACE ?u = Done () (echoed [8, 32, 8] ?u)"
        using consputc_eq[of ?u BACKSPACE] assms(2) assms(4) by (simp add: outc_def tx_ready_def)
      then show ?thesis using h False ne er by (auto simp: cons_switch_def ctrls line_disc_def line_echo_def bind_def)
    qed
  next
    case t
    then have b: "cons_switch c = cons_type c" by (simp add: cons_switch_def ctrls)
    have "1 \<le> length (lsr_in s)" using assms(4) by simp
    then show ?thesis using cons_type_step[OF assms(1-3) _ assms(5,6)] t
      by (auto simp: b line_disc_def line_echo_def simp del: INPUT_BUF_SIZE_def)
  qed
qed


lemma cons_demo_ok: "cons_ok cons_demo" "tx_ready cons_demo" "ptable_ok cons_demo" "ConsLock \<notin> held cons_demo"
  "3 * INPUT_BUF_SIZE \<le> length (lsr_in cons_demo)" "cons_q cons_demo = []" "cons_line cons_demo = []"
proof -
  show "ptable_ok cons_demo" using proc_demo_ok by (simp add: ptable_ok_def cons_demo_fields)
qed (simp_all add: cons_ok_def tx_ready_def cons_q_def cons_line_def cons_all_def ring_def cons_demo_fields LSR_TX_IDLE_def)


section \<open>Reading\<close>

text \<open>
  What \<open>consoleread\<close> takes of the waiting characters, of which it was asked for \<open>target\<close> and still wants \<open>n\<close>: the
  characters it delivers and what is left, or nothing if it has to wait for more.
\<close>

fun take_line :: "nat \<Rightarrow> nat \<Rightarrow> bytes \<Rightarrow> (bytes \<times> bytes) option" where
  "take_line target 0 q = Some ([], q)"
| "take_line target (Suc n) [] = None"
| "take_line target (Suc n) (c # q) =
     (if c = 4 then Some ([], if Suc n < target then c # q else q)
      else if c = 10 then Some ([c], q)
      else map_option (\<lambda>(bs, r). (c # bs, r)) (take_line target n q))"

lemma st_bytes_single: "length bs < 2 ^ 64 \<Longrightarrow> st_bytes (st_bytes m a [c]) (a + 1) bs = st_bytes m a (c # bs)"
proof -
  have "st_bytes m a [c] = m(a := c)" by (rule ext) (simp add: st_bytes_def unat_eq_zero)
  then show "length bs < 2 ^ 64 \<Longrightarrow> ?thesis" by (simp add: st_bytes_Cons)
qed

lemma cons_pop:
  assumes "cons_ok s" "cons_q s = c # q"
  defines "t \<equiv> s\<lparr>cons_r := cons_r s + 1\<rparr>"
  shows "cons_r s \<noteq> cons_w s" "cons_buf s ! (unat (cons_r s) mod INPUT_BUF_SIZE) = c" "cons_ok t" "cons_q t = q" "cons_line t = cons_line s"
proof -
  let ?n = "unat (cons_e s - cons_r s)" and ?k = "unat (cons_w s - cons_r s)"
  have k: "0 < ?k" "?k \<le> ?n" using cons_len(1)[OF assms(1)] assms by (auto simp: cons_ok_def)
  then show "cons_r s \<noteq> cons_w s" by auto
  have e: "cons_e t - cons_r t = cons_e s - cons_r s - 1" "cons_w t - cons_r t = cons_w s - cons_r s - 1" by (simp_all add: t_def)
  have nz: "cons_e s - cons_r s \<noteq> 0" "cons_w s - cons_r s \<noteq> 0" using k by auto
  have n1: "unat (cons_e t - cons_r t) = ?n - 1" "unat (cons_w t - cons_r t) = ?k - 1"
    unfolding e by (rule unat_pred[OF nz(1)], rule unat_pred[OF nz(2)])
  have Sn: "?n = Suc (?n - 1)" using k by simp
  have all: "cons_all s = cons_buf s ! (unat (cons_r s) mod INPUT_BUF_SIZE) # cons_all t"
    unfolding cons_all_def n1 by (subst Sn, subst ring_shift) (simp add: t_def)
  have Sk: "?k = Suc (?k - 1)" using k by simp
  have "cons_q s = cons_buf s ! (unat (cons_r s) mod INPUT_BUF_SIZE) # cons_q t" "cons_line s = cons_line t"
    unfolding cons_q_def cons_line_def all n1 by (subst Sk, simp)+
  then show "cons_buf s ! (unat (cons_r s) mod INPUT_BUF_SIZE) = c" "cons_q t = q" "cons_line t = cons_line s" using assms(2) by simp_all
  show "cons_ok t" using assms(1) n1 k by (auto simp: cons_ok_def t_def)
qed

lemma cons_q_empty: "cons_ok s \<Longrightarrow> cons_q s = [] \<longleftrightarrow> cons_r s = cons_w s"
proof -
  assume ok: "cons_ok s"
  have "cons_q s = [] \<longleftrightarrow> unat (cons_w s - cons_r s) = 0" using cons_len(1)[OF ok] by auto
  also have "\<dots> \<longleftrightarrow> cons_w s - cons_r s = 0" by (simp add: unat_eq_0)
  finally show ?thesis by auto
qed

lemma consoleread_loop_spec:
  fixes s :: "'x kcons_scheme"
  assumes "cons_ok s" "ConsLock \<in> held s" "take_line target n (cons_q s) = Some (bs, q)" "n < 2 ^ 63" "n \<le> target"
  shows "\<exists>t. consoleread_loop target (PhysDst a) n s = Done (int target - int n + int (length bs)) t \<and> cons_ok t \<and> cons_q t = q \<and>
    cons_line t = cons_line s \<and> mem t = st_bytes (mem s) a bs \<and> held t = held s - {ConsLock} \<and> uart_writes t = uart_writes s"
  using assms
proof (induction n arbitrary: s a bs q)
  case 0
  then show ?case by (simp add: consoleread_end_def bind_def release_def)
next
  case (Suc n)
  obtain c r where cr: "cons_q s = c # r" using Suc.prems(3) by (cases "cons_q s") auto
  note pop = cons_pop[OF Suc.prems(1) cr]
  have ne: "(cons_r s = cons_w s) = False" using pop(1) by simp
  consider "c = 4" | "c = 10" | (go) "c \<noteq> 4" "c \<noteq> 10" by blast
  then show ?case
  proof cases
    case 1
    have "s\<lparr>cons_r := cons_r s + 1, cons_r := cons_r s + 1 - 1\<rparr> = s" by simp
    then show ?thesis using 1 Suc.prems cr pop ne
      by (auto simp: bind_def consoleread_end_def release_def ctrl_def)
  next
    case 2
    then show ?thesis using Suc.prems cr pop ne
      by (auto simp: bind_def consoleread_end_def release_def ctrl_def nl_def either_copyout_def)
  next
    case go
    let ?t = "s\<lparr>cons_r := cons_r s + 1, mem := st_bytes (mem s) a [c]\<rparr>"
    obtain b where b: "take_line target n r = Some (b, q)" "bs = c # b" using go Suc.prems(3) cr by auto
    have "length b \<le> n" using b(1) by (induction target n r arbitrary: b q rule: take_line.induct) (auto split: if_splits)
    then have st: "st_bytes (st_bytes (mem s) a [c]) (a + 1) b = st_bytes (mem s) a bs" using Suc.prems(4) b(2) by (simp add: st_bytes_single)
    have "consoleread_loop target (PhysDst a) (Suc n) s = consoleread_loop target (PhysDst (a + 1)) n ?t"
      using go cr pop ne by (simp add: bind_def ctrl_def nl_def either_copyout_def)
    moreover have "\<exists>t. consoleread_loop target (PhysDst (a + 1)) n ?t = Done (int target - int n + int (length b)) t \<and> cons_ok t \<and> cons_q t = q \<and>
      cons_line t = cons_line ?t \<and> mem t = st_bytes (mem ?t) (a + 1) b \<and> held t = held ?t - {ConsLock} \<and> uart_writes t = uart_writes ?t"
      using Suc.prems pop b by (intro Suc.IH) simp_all
    ultimately show ?thesis using b pop st by auto
  qed
qed

lemma consoleread_loop_waits:
  fixes s :: "'x kcons_scheme"
  assumes "cons_ok s" "take_line target n (cons_q s) = None" "curproc s = Some p" "p_killed (procs s ! p) = 0"
    "held s = {ConsLock}" "p_state (procs s ! p) = RUNNING" "p < length (procs s)"
  shows "\<exists>t. consoleread_loop target (PhysDst a) n s = Sleep ChanConsR t \<and> held t = {ProcLock p} \<and> p_state (procs t ! p) = SLEEPING \<and>
     p_chan (procs t ! p) = Some ChanConsR"
  using assms
proof (induction n arbitrary: s a)
  case (Suc n)
  show ?case
  proof (cases "cons_q s")
    case Nil
    then have "cons_r s = cons_w s" using cons_q_empty[OF Suc.prems(1)] by simp
    moreover have "{ProcLock p, ConsLock} - {ConsLock} = {ProcLock p}" by auto
    ultimately show ?thesis using Suc.prems
      by (simp add: bind_def myproc_def killed_def acquire_def release_def the_proc_def sleep_def sleep_switch_def sched_def upd_proc_def)
  next
    case (Cons c r)
    let ?t = "s\<lparr>cons_r := cons_r s + 1, mem := st_bytes (mem s) a [c]\<rparr>"
    note pop = cons_pop[OF Suc.prems(1) Cons]
    have c: "c \<noteq> 4" "c \<noteq> 10" "take_line target n r = None" using Suc.prems(2) Cons by (auto split: if_splits)
    have "consoleread_loop target (PhysDst a) (Suc n) s = consoleread_loop target (PhysDst (a + 1)) n ?t"
      using c pop by (simp add: bind_def ctrl_def nl_def either_copyout_def)
    moreover have "\<exists>t. consoleread_loop target (PhysDst (a + 1)) n ?t = Sleep ChanConsR t \<and> held t = {ProcLock p} \<and>
       p_state (procs t ! p) = SLEEPING \<and> p_chan (procs t ! p) = Some ChanConsR"
      using Suc.prems pop c by (intro Suc.IH) simp_all
    ultimately show ?thesis by simp
  qed
qed simp



end
