(* ===== verification/Spec2Isabelle.thy ===== *)
theory Spec2Isabelle
  imports Atomic Fsinode Fsread Descs Oncpu Pipe Sysfile Mkfs Grep Consline
begin

text \<open>
  A verification development for the xv6-riscv kernel of this repository, the program \<^verbatim>\<open>mkfs\<close> that builds its disk and one of
  its user programs.

  \<^bold>\<open>The program and how its parts interact.\<close>
  The kernel starts in machine mode (\<^verbatim>\<open>start.c\<close>), enters \<^verbatim>\<open>main.c\<close> on every hart and runs the scheduler of \<^verbatim>\<open>proc.c\<close>.
  Processes enter it by traps (\<^verbatim>\<open>trap.c\<close>), which call system calls (\<^verbatim>\<open>syscall.c\<close>, \<^verbatim>\<open>sysproc.c\<close>, \<^verbatim>\<open>sysfile.c\<close>), the
  timer, or the drivers of the console and the disk. Memory is pages from \<^verbatim>\<open>kalloc.c\<close> mapped by \<^verbatim>\<open>vm.c\<close>. Files are on a disk behind
  four layers: the driver \<^verbatim>\<open>virtio_disk.c\<close>, the buffer cache \<^verbatim>\<open>bio.c\<close>, the write-ahead log \<^verbatim>\<open>log.c\<close>, and the inodes, directories
  and paths of \<^verbatim>\<open>fs.c\<close>; \<^verbatim>\<open>file.c\<close> and \<^verbatim>\<open>pipe.c\<close> put open files and pipes on top. Spin locks and sleep locks guard all of it.

  \<^bold>\<open>How the code is modelled.\<close>
  A C function is a HOL function from a state to an outcome (\<open>kfun\<close> and \<open>outcome\<close> of \<open>Prelude\<close>): \<open>Done\<close> a result and the state after,
  \<open>Panic\<close> with the message of the source, \<open>Sleep\<close> on a channel with the state left behind, or \<open>Hang\<close>. \<open>bind\<close> composes them; early
  returns and \<open>goto bad\<close> are branches. Dereferencing a null pointer is the panic the fault would cause, and an index past an array is a
  panic of its own. The state is a chain of extensible records, one per layer, each with the global variables of its source file:
  \<open>klock\<close>, \<open>kmach\<close>, \<open>kvm\<close>, \<open>kproc\<close>, \<open>kbio\<close>, \<open>klog\<close>, \<open>kfs\<close>, \<open>kvirt\<close>, \<open>kcons\<close>, \<open>kprintf\<close>, \<open>ktrap\<close>, \<open>kfile\<close>. Machine integers
  are words of their width. Calls are run on one CPU between two points where it may be interrupted; interleavings are modelled where
  a property is about them, for the lock words in \<open>Spinlock\<close> one memory access at a time and for the process table in \<open>Sched\<close> one
  operation at a time.

  \<^bold>\<open>The theories.\<close>
  \<^item> \<open>Prelude\<close>: words, outcomes, the weakest precondition \<open>wp\<close> and its rules, \<open>keeps\<close>. \<open>Ring\<close>: circular buffers with 32-bit counters,
    a locale that \<open>Consline\<close> and \<open>Pipe\<close> interpret.
  \<^item> \<open>Machine\<close>: \<^verbatim>\<open>param.h\<close>, \<^verbatim>\<open>memlayout.h\<close>, the page-table macros of \<^verbatim>\<open>riscv.h\<close>, physical memory. \<open>Strings\<close>: \<^verbatim>\<open>string.c\<close>.
    \<open>Riscv\<close>: the registers of a hart and \<^verbatim>\<open>start.c\<close>.
  \<^item> \<open>Spinlock\<close>: \<^verbatim>\<open>spinlock.c\<close> on all CPUs, the set of held locks it implements (locale \<open>lock_set\<close>). \<open>Sleeplock\<close>: \<^verbatim>\<open>sleeplock.c\<close>.
  \<^item> \<open>Kalloc\<close>: \<^verbatim>\<open>kalloc.c\<close>, with the interface of a page allocator (locale \<open>page_alloc\<close>). \<open>Pgtbl\<close>, \<open>Uvm\<close>: \<^verbatim>\<open>vm.c\<close>.
  \<^item> \<open>Proc\<close>: \<^verbatim>\<open>proc.c\<close>. \<open>Sched\<close>, \<open>Oncpu\<close>: the steps of the CPUs on the process table. \<open>Frames\<close>: what each layer leaves alone.
  \<^item> \<open>Bio\<close>: \<^verbatim>\<open>bio.c\<close>. \<open>Bcache\<close>, \<open>Blockio\<close>: the abstract cache it refines and the interface of the log to it (locale \<open>block_cache\<close>).
  \<^item> \<open>Log\<close>: \<^verbatim>\<open>log.c\<close>. \<open>Recovery\<close>, \<open>Crash\<close>: the block writes of a commit and of recovery, cut at any point. \<open>Txn\<close>: the interface of the
    file system to the log (locale \<open>transaction\<close>). \<open>Atomic\<close>: a system call as a transaction.
  \<^item> \<open>Fs\<close>: \<^verbatim>\<open>fs.c\<close>, \<^verbatim>\<open>fs.h\<close>. \<open>Fsformat\<close>: the formats on disk and paths. \<open>Fsblocks\<close>: the block bitmap. \<open>Fsinode\<close>: the inode table.
    \<open>Fsread\<close>: the contents of files and directories. \<open>Exec\<close>: \<^verbatim>\<open>exec.c\<close>.
  \<^item> \<open>Virtio\<close>: \<^verbatim>\<open>virtio_disk.c\<close>. \<open>Descs\<close>: its descriptors. \<open>Console\<close>, \<open>Consline\<close>: \<^verbatim>\<open>console.c\<close>, \<^verbatim>\<open>uart.c\<close>. \<open>Printf\<close>: \<^verbatim>\<open>printf.c\<close>.
  \<^item> \<open>Syscall\<close>: \<^verbatim>\<open>syscall.c\<close>, \<^verbatim>\<open>sysproc.c\<close>. \<open>Trap\<close>: \<^verbatim>\<open>trap.c\<close>, \<^verbatim>\<open>plic.c\<close>, \<^verbatim>\<open>main.c\<close>.
  \<^item> \<open>File\<close>: \<^verbatim>\<open>file.c\<close>, \<^verbatim>\<open>pipe.c\<close>. \<open>Pipe\<close>: a pipe as a queue. \<open>Sysfile\<close>: \<^verbatim>\<open>sysfile.c\<close>.
  \<^item> \<open>Mkfs\<close>: \<^verbatim>\<open>mkfs/mkfs.c\<close>. \<open>Grep\<close>: \<^verbatim>\<open>user/grep.c\<close>.
  Names are those of the source; a part of a function that is a definition of its own has the name of the function with a suffix.

  \<^bold>\<open>What is proved.\<close>
  \<^item> Locks: mutual exclusion over all interleavings, refinement to the set of held locks, nesting of interrupt disabling.
  \<^item> Memory: the allocator partitions the pages into free and allocated ones; \<open>walk\<close>, \<open>mappages\<close>, \<open>walkaddr\<close>, \<open>uvmunmap\<close>, \<open>uvmfree\<close> and
    \<open>freewalk\<close> do what they should to the translation and give every page back; \<open>copyin\<close> reads what \<open>copyout\<close> wrote.
  \<^item> Processes: one CPU at most runs a process; \<open>wakeup\<close> wakes every sleeper; process identifiers stay in range.
  \<^item> Disk: the cache shows the current contents of blocks; a commit is atomic at every crash point, and recovery can itself be
    interrupted; with \<open>Txn\<close> this gives that a system call is atomic. A transaction as large as the log admits panics, since the cache is
    as small as the log. The disk driver gives its descriptors back.
  \<^item> Files: \<open>balloc\<close> and \<open>bfree\<close> on the bitmap; \<open>iget\<close> on the inode table; \<open>ilock\<close> reads what \<open>iupdate\<close> wrote; \<open>readi\<close> gives the bytes
    of the file; \<open>dirlookup\<close> finds the first entry; the formats and paths read back. Pipes are queues.
  \<^item> Console: the ring buffer is a line editor; reads take lines. \<open>printint\<close> prints the number. \<open>start\<close> ends in supervisor mode.
  \<^item> \<open>grep\<close> prints the lines that match.

  \<^bold>\<open>Bounds and fuel.\<close>
  \<^item> \<open>mappages_loop\<close> gets the number of pages of the range, and \<open>freewalk\<close> the number of levels, three; the theorems show that they return.
  \<^item> \<open>bget_find\<close> and \<open>bget_lru\<close> get \<open>NBUF\<close>, the length of the list; the cache invariant gives that the list ends before.
  \<^item> \<open>uart_rx\<close> gets one more than the readings of the line status there are, and each turn takes one.
  \<^item> A call on a pipe gets a bound on its waits; \<open>n\<close> of them are enough to write \<open>n\<close> bytes.
  \<^item> \<open>acquire_smp\<close> hangs on a lock that is held: in one call nobody else runs. \<open>panic\<close> ends in the loop of the source, and \<open>main\<close> waits on
    the other harts for the first one.
  \<^item> Every other loop is recursion with a termination proof.

  \<^bold>\<open>Parameters.\<close>
  The addresses the linker gives (\<open>ksyms\<close>, \<open>kend\<close>), the first user program, what the devices answer (the registers of the disk as a
  function of the writes made, the characters of the serial port, the claims of the interrupt controller), the files \<^verbatim>\<open>mkfs\<close> is given, and
  \<open>sleep_prepare\<close> and the \<open>sleep\<close> without arguments of \<^verbatim>\<open>pipe.c\<close>, which no file of the repository defines.

  \<^bold>\<open>Not modelled.\<close>
  \<^item> The assembly files \<^verbatim>\<open>entry.S\<close>, \<^verbatim>\<open>swtch.S\<close>, \<^verbatim>\<open>trampoline.S\<close>, \<^verbatim>\<open>kernelvec.S\<close>: what C sees of them is in \<open>sched\<close>, \<open>usertrapret\<close>
    and the outcomes \<open>Sleep\<close>; the linker scripts and the Makefile.
  \<^item> The user programs other than \<^verbatim>\<open>grep.c\<close>, among them the shell, and the user library: they are clients of the system calls. The tests
    \<^verbatim>\<open>usertests.c\<close>, \<^verbatim>\<open>grind.c\<close>, \<^verbatim>\<open>stressfs.c\<close>, \<^verbatim>\<open>logstress.c\<close>, \<^verbatim>\<open>forktest.c\<close> and \<^verbatim>\<open>test-xv6.py\<close> only call the kernel.
  \<^item> Memory ordering: the atomic operations are sequentially consistent and the fences have no effect.
  \<^item> The bytes of the structures of processes, buffers, inodes, files and pipes in kernel memory, which are fields of the records instead.
\<close>

end
